theory Spec2Isabelle
  imports Main "HOL-Library.Monad_Syntax" "HOL-Library.Multiset"
begin

section \<open>Work nodes and the two linked work queues\<close>

text \<open>
  The parallel variants of the lane detector share one data structure: a singly linked
  work node (\<^verbatim>\<open>typedef struct node { cv::Mat* frame; int frame_number;
  bool is_the_last_node; struct node* next; } work_node\<close>) and two global linked
  queues, each a head pointer, a tail pointer and a size counter.

  Pointers are addresses into an explicit heap; \<open>None\<close> is \<^verbatim>\<open>NULL\<close>. The frame
  pointer is modelled together with the image it points to: \<open>frame = None\<close> is a
  \<^verbatim>\<open>NULL\<close> frame, \<open>frame = Some img\<close> a frame holding \<open>img\<close>. The field
  \<^verbatim>\<open>next\<close> is called \<open>next_node\<close>. The C \<^verbatim>\<open>int\<close>s are unbounded
  integers: the queue functions only compare frame numbers and move the counters by one.

  Every function returns an option: \<open>None\<close> is a run that dereferences \<^verbatim>\<open>NULL\<close>
  or a pointer to a node that is not allocated.
\<close>

type_synonym addr = nat

record 'f work_node =
  frame :: "'f option"
  frame_number :: int
  is_the_last_node :: bool
  next_node :: "addr option"

record 'f queues =
  heap :: "addr \<Rightarrow> 'f work_node option"
  input_head :: "addr option"
  input_tail :: "addr option"
  output_head :: "addr option"
  output_tail :: "addr option"
  size_input_work_queue :: int
  size_output_work_queue :: int

text \<open>
  The two counters are of type \<^verbatim>\<open>int\<close> in the source and integers here: \<^verbatim>\<open>++\<close> and
  \<^verbatim>\<open>--\<close> are \<open>+ 1\<close> and \<open>- 1\<close>, which is what the code computes as long as
  the result is a value of the type. What is proved about the counters is proved under
  \<open>c_int_range\<close>.
\<close>

definition c_int_range :: "int \<Rightarrow> bool" where
  "c_int_range x = (- 2147483648 \<le> x \<and> x \<le> 2147483647)"

text \<open>Reading and writing through a node pointer.\<close>

definition deref :: "'f queues \<Rightarrow> addr option \<Rightarrow> 'f work_node option" where
  "deref s p = (case p of None \<Rightarrow> None | Some a \<Rightarrow> heap s a)"

definition set_next ::
  "addr option \<Rightarrow> addr option \<Rightarrow> 'f queues \<Rightarrow> 'f queues option" where
  "set_next p v s =
     (case p of None \<Rightarrow> None
      | Some a \<Rightarrow> (case heap s a of None \<Rightarrow> None
          | Some n \<Rightarrow> Some (s\<lparr>heap := (heap s)(a \<mapsto> n\<lparr>next_node := v\<rparr>)\<rparr>)))"

definition get_head_id_from_input_work_queue :: "'f queues \<Rightarrow> int option" where
  "get_head_id_from_input_work_queue s = map_option frame_number (deref s (input_head s))"

definition get_head_id_from_output_work_queue :: "'f queues \<Rightarrow> int option" where
  "get_head_id_from_output_work_queue s = map_option frame_number (deref s (output_head s))"

definition add_to_input_work_queue ::
  "addr \<Rightarrow> 'f queues \<Rightarrow> 'f queues option" where
  "add_to_input_work_queue node_aux s =
     (if size_input_work_queue s = 0 then
        Some (s\<lparr>input_head := Some node_aux, input_tail := Some node_aux,
                size_input_work_queue := size_input_work_queue s + 1\<rparr>)
      else do {
        s1 \<leftarrow> set_next (input_tail s) (Some node_aux) s;
        t \<leftarrow> deref s1 (input_tail s1);
        Some (s1\<lparr>input_tail := next_node t,
                 size_input_work_queue := size_input_work_queue s1 + 1\<rparr>)
      })"

text \<open>
  The scan of \<^verbatim>\<open>add_to_output_work_queue\<close>: the \<^verbatim>\<open>while\<close> loop over
  \<^verbatim>\<open>current_node\<close> together with the code after it. On a cyclic list the loop does
  not end, which is \<open>None\<close> as well.
\<close>

partial_function (option) scan_output_work_queue ::
  "addr \<Rightarrow> int \<Rightarrow> addr \<Rightarrow> 'f queues \<Rightarrow> 'f queues option" where
  "scan_output_work_queue node_aux node_aux_id current_node s =
     do {
       c \<leftarrow> heap s current_node;
       case next_node c of
         Some nx \<Rightarrow> do {
           nxn \<leftarrow> heap s nx;
           if node_aux_id \<le> frame_number nxn then do {
             s1 \<leftarrow> set_next (Some node_aux) (Some nx) s;
             s2 \<leftarrow> set_next (Some current_node) (Some node_aux) s1;
             Some (s2\<lparr>size_output_work_queue := size_output_work_queue s2 + 1\<rparr>)
           }
           else scan_output_work_queue node_aux node_aux_id nx s
         }
       | None \<Rightarrow> do {
           s1 \<leftarrow> set_next (Some node_aux) None s;
           s2 \<leftarrow> set_next (Some current_node) (Some node_aux) s1;
           Some (s2\<lparr>output_tail := Some node_aux,
                    size_output_work_queue := size_output_work_queue s2 + 1\<rparr>)
         }
     }"

declare scan_output_work_queue.simps [code]

definition add_to_output_work_queue ::
  "addr \<Rightarrow> 'f queues \<Rightarrow> 'f queues option" where
  "add_to_output_work_queue node_aux s =
     (if size_output_work_queue s = 0 then
        Some (s\<lparr>output_head := Some node_aux, output_tail := Some node_aux,
                size_output_work_queue := size_output_work_queue s + 1\<rparr>)
      else do {
        n \<leftarrow> heap s node_aux;
        current_node \<leftarrow> output_head s;
        c \<leftarrow> heap s current_node;
        if frame_number n \<le> frame_number c then do {
          s1 \<leftarrow> set_next (Some node_aux) (Some current_node) s;
          Some (s1\<lparr>output_head := Some node_aux,
                   size_output_work_queue := size_output_work_queue s1 + 1\<rparr>)
        }
        else scan_output_work_queue node_aux (frame_number n) current_node s
      })"

definition remove_from_input_work_queue ::
  "'f queues \<Rightarrow> (addr \<times> 'f queues) option" where
  "remove_from_input_work_queue s =
     do {
       node_to_remove \<leftarrow> input_head s;
       n \<leftarrow> heap s node_to_remove;
       s1 \<leftarrow> set_next (Some node_to_remove) None (s\<lparr>input_head := next_node n\<rparr>);
       Some (node_to_remove, s1\<lparr>size_input_work_queue := size_input_work_queue s1 - 1\<rparr>)
     }"

definition remove_from_output_work_queue ::
  "'f queues \<Rightarrow> (addr \<times> 'f queues) option" where
  "remove_from_output_work_queue s =
     do {
       node_to_remove \<leftarrow> output_head s;
       n \<leftarrow> heap s node_to_remove;
       s1 \<leftarrow> set_next (Some node_to_remove) None (s\<lparr>output_head := next_node n\<rparr>);
       Some (node_to_remove, s1\<lparr>size_output_work_queue := size_output_work_queue s1 - 1\<rparr>)
     }"

section \<open>The linked lists as sequences of addresses\<close>

text \<open>
  \<open>heap_path h p as q\<close>: following \<open>next_node\<close> from \<open>p\<close> visits the allocated
  nodes \<open>as\<close> in this order and arrives at \<open>q\<close>. A queue is the path from its head to
  \<^verbatim>\<open>NULL\<close>; the nodes reachable from the head are the elements of that list.
\<close>

fun heap_path ::
  "(addr \<Rightarrow> 'f work_node option) \<Rightarrow> addr option \<Rightarrow> addr list \<Rightarrow> addr option \<Rightarrow> bool" where
  "heap_path h p [] q = (p = q)"
| "heap_path h p (a # as) q =
     (p = Some a \<and> (case h a of None \<Rightarrow> False | Some n \<Rightarrow> heap_path h (next_node n) as q))"

definition heap_list :: "(addr \<Rightarrow> 'f work_node option) \<Rightarrow> addr option \<Rightarrow> addr list \<Rightarrow> bool" where
  "heap_list h p as = heap_path h p as None"

text \<open>The frame number stored at an address (0 where nothing is allocated).\<close>

definition id_of :: "(addr \<Rightarrow> 'f work_node option) \<Rightarrow> addr \<Rightarrow> int" where
  "id_of h a = (case h a of None \<Rightarrow> 0 | Some n \<Rightarrow> frame_number n)"

text \<open>
  The fields of a node other than the link, and the heap seen through them: the queue
  functions write links only.
\<close>

definition node_data :: "'f work_node \<Rightarrow> 'f option \<times> int \<times> bool" where
  "node_data n = (frame n, frame_number n, is_the_last_node n)"

definition heap_data :: "(addr \<Rightarrow> 'f work_node option) \<Rightarrow> addr \<Rightarrow> ('f option \<times> int \<times> bool) option" where
  "heap_data h a = map_option node_data (h a)"

text \<open>
  The input queue holds the nodes \<open>xs\<close>: they are the list from \<open>input_head\<close>, the
  counter is their number and, when there is one, the tail pointer is the last of them.
  The output queue holds \<open>ys\<close> likewise; its tail pointer is written and never read.
\<close>

definition input_queue :: "'f queues \<Rightarrow> addr list \<Rightarrow> bool" where
  "input_queue s xs =
     (heap_list (heap s) (input_head s) xs \<and> size_input_work_queue s = int (length xs)
      \<and> (xs = [] \<or> input_tail s = Some (last xs)))"

definition output_queue :: "'f queues \<Rightarrow> addr list \<Rightarrow> bool" where
  "output_queue s ys =
     (heap_list (heap s) (output_head s) ys \<and> size_output_work_queue s = int (length ys))"

text \<open>
  A detached node is allocated and its link is \<^verbatim>\<open>NULL\<close>: a node as
  \<^verbatim>\<open>malloc\<close> and the initialisation leave it, or as a remove function returns it.
\<close>

definition detached :: "(addr \<Rightarrow> 'f work_node option) \<Rightarrow> addr \<Rightarrow> bool" where
  "detached h a = (case h a of None \<Rightarrow> False | Some n \<Rightarrow> next_node n = None)"

text \<open>
  The two queues hold \<open>xs\<close> and \<open>ys\<close>, no node is in both, and the nodes \<open>D\<close> (those
  in the hands of a thread) are detached and in neither queue.
\<close>

definition wf_queues :: "'f queues \<Rightarrow> addr list \<Rightarrow> addr list \<Rightarrow> addr set \<Rightarrow> bool" where
  "wf_queues s xs ys D =
     (input_queue s xs \<and> output_queue s ys \<and> set xs \<inter> set ys = {}
      \<and> (set xs \<union> set ys) \<inter> D = {} \<and> Ball D (detached (heap s)))"

text \<open>
  What a queue function leaves alone: it writes links only, and only those of the nodes
  \<open>A\<close>.
\<close>

definition links_only :: "'f queues \<Rightarrow> 'f queues \<Rightarrow> addr set \<Rightarrow> bool" where
  "links_only s s' A =
     (heap_data (heap s') = heap_data (heap s) \<and> (\<forall>b. b \<notin> A \<longrightarrow> heap s' b = heap s b))"

subsection \<open>Sequences of queue operations\<close>

text \<open>
  A caller's use of the four functions, one after the other; the run returns the nodes
  the remove functions handed out, in order.
\<close>

datatype queue_op = Add_input addr | Add_output addr | Remove_input | Remove_output

fun exec_op :: "queue_op \<Rightarrow> 'f queues \<Rightarrow> (addr list \<times> 'f queues) option" where
  "exec_op (Add_input a) s = map_option (Pair []) (add_to_input_work_queue a s)"
| "exec_op (Add_output a) s = map_option (Pair []) (add_to_output_work_queue a s)"
| "exec_op Remove_input s = map_option (\<lambda>(a, s'). ([a], s')) (remove_from_input_work_queue s)"
| "exec_op Remove_output s = map_option (\<lambda>(a, s'). ([a], s')) (remove_from_output_work_queue s)"

fun run_ops :: "queue_op list \<Rightarrow> 'f queues \<Rightarrow> (addr list \<times> 'f queues) option" where
  "run_ops [] s = Some ([], s)"
| "run_ops (x # ops) s =
     (case exec_op x s of None \<Rightarrow> None
      | Some (r, s') \<Rightarrow> map_option (\<lambda>(rs, s''). (r @ rs, s'')) (run_ops ops s'))"

text \<open>
  The same operations on two sequences and a pool of detached nodes: a first-in
  first-out queue, and a sequence kept in the order of the frame numbers \<open>idf\<close>. An add
  takes its node from the pool, a remove takes the first element and returns it to the
  pool. \<open>None\<close> is a use outside the functions' preconditions: removing from an empty
  queue, or adding a node that is not detached.
\<close>

type_synonym queue_contents = "addr list \<times> addr list \<times> addr set"

fun spec_op :: "(addr \<Rightarrow> int) \<Rightarrow> queue_op \<Rightarrow> queue_contents \<Rightarrow> (addr list \<times> queue_contents) option" where
  "spec_op idf (Add_input a) (xs, ys, D) =
     (if a \<in> D then Some ([], (xs @ [a], ys, D - {a})) else None)"
| "spec_op idf (Add_output a) (xs, ys, D) =
     (if a \<in> D then Some ([], (xs, insort_key idf a ys, D - {a})) else None)"
| "spec_op idf Remove_input (xs, ys, D) =
     (case xs of [] \<Rightarrow> None | x # xs' \<Rightarrow> Some ([x], (xs', ys, insert x D)))"
| "spec_op idf Remove_output (xs, ys, D) =
     (case ys of [] \<Rightarrow> None | y # ys' \<Rightarrow> Some ([y], (xs, ys', insert y D)))"

fun spec_ops :: "(addr \<Rightarrow> int) \<Rightarrow> queue_op list \<Rightarrow> queue_contents \<Rightarrow> (addr list \<times> queue_contents) option" where
  "spec_ops idf [] c = Some ([], c)"
| "spec_ops idf (x # ops) c =
     (case spec_op idf x c of None \<Rightarrow> None
      | Some (r, c') \<Rightarrow> map_option (\<lambda>(rs, c''). (r @ rs, c'')) (spec_ops idf ops c'))"

fun is_input_op :: "queue_op \<Rightarrow> bool" where
  "is_input_op (Add_input a) = True"
| "is_input_op Remove_input = True"
| "is_input_op _ = False"

text \<open>The nodes a sequence of operations adds to the input queue and to the output queue.\<close>

fun added_input :: "queue_op list \<Rightarrow> addr list" where
  "added_input [] = []"
| "added_input (Add_input a # ops) = a # added_input ops"
| "added_input (_ # ops) = added_input ops"

fun added_output :: "queue_op list \<Rightarrow> addr list" where
  "added_output [] = []"
| "added_output (Add_output a # ops) = a # added_output ops"
| "added_output (_ # ops) = added_output ops"

text \<open>How far a sequence of operations moves the two counters.\<close>

fun counter_change :: "queue_op \<Rightarrow> int \<times> int" where
  "counter_change (Add_input a) = (1, 0)"
| "counter_change (Add_output a) = (0, 1)"
| "counter_change Remove_input = (- 1, 0)"
| "counter_change Remove_output = (0, - 1)"

section \<open>The pipeline\<close>

text \<open>
  The globals of the parallel programs. \<open>capture\<close> is the video source, the frames it
  has still to deliver (\<^verbatim>\<open>capture >> image\<close> takes the first, and yields an empty
  image when there is none); \<open>oVideoWriter\<close> is the video written so far. The transform
  applied by \<^verbatim>\<open>process_frame\<close> is the image-processing library's and is a parameter
  \<open>process\<close>.

  Three fields are instrumentation that no code reads: \<open>enqueued\<close> lists, for every
  node added to the input queue, its frame number and its \<^verbatim>\<open>is_the_last_node\<close> flag;
  \<open>dequeued\<close> lists the same for every node removed from the input queue, with the
  worker that removed it; \<open>transformed\<close> lists the frame numbers
  \<^verbatim>\<open>process_frame\<close> was called on.
\<close>

record 'f pipeline =
  queues :: "'f queues"
  capture :: "'f list"
  oVideoWriter :: "'f list"
  nframes :: int
  current_frame :: int
  threads_number :: int
  is_there_any_frame :: bool
  is_there_any_work :: bool
  finished :: bool
  correctness :: int
  enqueued :: "(int \<times> bool) list"
  dequeued :: "(nat \<times> int \<times> bool) list"
  transformed :: "int list"

text \<open>The outcome of one step of a thread.\<close>

datatype 'a step_result = Blocked | Crash | Next 'a

text \<open>
  \<^verbatim>\<open>malloc\<close> followed by the initialisation of the four fields. The address is the
  scheduler's choice; the caller checks that it is free.
\<close>

definition new_node :: "addr \<Rightarrow> 'f option \<Rightarrow> int \<Rightarrow> bool \<Rightarrow> 'f queues \<Rightarrow> 'f queues" where
  "new_node a fr i l q =
     q\<lparr>heap := (heap q)(a \<mapsto> \<lparr>frame = fr, frame_number = i, is_the_last_node = l, next_node = None\<rparr>)\<rparr>"

definition process_frame :: "('f \<Rightarrow> 'f) \<Rightarrow> addr \<Rightarrow> 'f queues \<Rightarrow> 'f queues option" where
  "process_frame process node_aux q =
     (case heap q node_aux of None \<Rightarrow> None
      | Some n \<Rightarrow> (case frame n of None \<Rightarrow> None
          | Some img \<Rightarrow> Some (q\<lparr>heap := (heap q)(node_aux \<mapsto> n\<lparr>frame := Some (process img)\<rparr>)\<rparr>)))"

text \<open>\<^verbatim>\<open>send_frame_to_display\<close> of \<^verbatim>\<open>lane_detection_openmp.cpp\<close>: write the frame, free the node.\<close>

definition send_frame_to_display ::
  "addr \<Rightarrow> ('f, 'z) pipeline_scheme \<Rightarrow> ('f, 'z) pipeline_scheme option" where
  "send_frame_to_display node_aux s =
     (case heap (queues s) node_aux of None \<Rightarrow> None
      | Some n \<Rightarrow> (case frame n of None \<Rightarrow> None
          | Some img \<Rightarrow>
              Some (s\<lparr>oVideoWriter := oVideoWriter s @ [img],
                      queues := (queues s)\<lparr>heap := (heap (queues s))(node_aux := None)\<rparr>\<rparr>)))"

text \<open>The entry a removal from the input queue leaves in the instrumentation.\<close>

definition dequeue_entry :: "nat \<Rightarrow> 'f queues \<Rightarrow> addr \<Rightarrow> (nat \<times> int \<times> bool) list" where
  "dequeue_entry w q a =
     (case heap q a of None \<Rightarrow> [] | Some n \<Rightarrow> [(w, frame_number n, is_the_last_node n)])"

text \<open>
  The loop at the end of \<^verbatim>\<open>parallel_processing\<close> that frees the nodes left in the
  output queue once the threads have ended.
\<close>

function drain_output_work_queue :: "'f queues \<Rightarrow> 'f queues option" where
  "drain_output_work_queue q =
     (if size_output_work_queue q > 0 then
        (case remove_from_output_work_queue q of None \<Rightarrow> None
         | Some (a, q') \<Rightarrow> drain_output_work_queue (q'\<lparr>heap := (heap q')(a := None)\<rparr>))
      else Some q)"
  by pat_completeness auto
termination
  by (relation "measure (\<lambda>q. nat (size_output_work_queue q))")
    (auto simp: remove_from_output_work_queue_def set_next_def
      split: option.splits Option.bind_splits)

subsection \<open>The three stages of \<^verbatim>\<open>lane_detection_openmp.cpp\<close>\<close>

text \<open>
  \<^verbatim>\<open>stage_one\<close>, \<^verbatim>\<open>stage_two\<close> and \<^verbatim>\<open>stage_three\<close> as threads: the file's notes
  give one thread to the first stage, \<open>threads_number\<close> threads to the second and one
  thread to the third (the code that creates them is not in the file). A thread's
  position in its function is its program counter; a step runs the thread from one
  position to the next. Each step holds at most one critical section
  (\<^verbatim>\<open>pthread_mutex_lock\<close> to \<^verbatim>\<open>pthread_mutex_unlock\<close>) together with code that
  touches only what the thread owns. A \<^verbatim>\<open>while (c) pthread_cond_wait\<close> is a step that
  is \<open>Blocked\<close> as long as \<open>c\<close> holds: \<open>c\<close> is tested under the mutex, and every
  statement that can make it false runs under the same mutex and is followed by
  \<^verbatim>\<open>pthread_cond_signal\<close>, which wakes a thread that waits. \<open>Crash\<close> is a dereference
  of \<^verbatim>\<open>NULL\<close> or of a freed node.
\<close>

datatype one_pc = One_capture | One_sentinels int | One_done

datatype two_pc = Two_wait | Two_holds addr | Two_processed addr | Two_done

datatype three_pc =
  Three_top | Three_wait_nonempty | Three_wait_head | Three_holds addr | Three_done

record 'f stages = "'f pipeline" +
  pc_one :: one_pc
  pc_two :: "nat \<Rightarrow> two_pc"
  pc_three :: three_pc

text \<open>
  \<^verbatim>\<open>stage_one\<close>. At \<open>One_capture\<close>: read an image and count it; an empty image leads
  to the loop that sends the sentinels, any other image is queued in a new node. At
  \<open>One_sentinels i\<close>: the \<^verbatim>\<open>for\<close> loop with counter \<open>i\<close>. \<open>a\<close> is the address
  \<^verbatim>\<open>malloc\<close> returns if the step allocates.
\<close>

definition stage_one :: "addr \<Rightarrow> 'f stages \<Rightarrow> 'f stages step_result" where
  "stage_one a s =
     (case pc_one s of
        One_capture \<Rightarrow>
          (case capture s of
             [] \<Rightarrow> Next (s\<lparr>nframes := nframes s + 1, pc_one := One_sentinels 0\<rparr>)
           | img # rest \<Rightarrow>
               if heap (queues s) a \<noteq> None then Blocked
               else
                 (case add_to_input_work_queue a
                         (new_node a (Some img) (nframes s + 1) False (queues s)) of
                    None \<Rightarrow> Crash
                  | Some q \<Rightarrow>
                      Next (s\<lparr>capture := rest, nframes := nframes s + 1, queues := q,
                              enqueued := enqueued s @ [(nframes s + 1, False)]\<rparr>)))
      | One_sentinels i \<Rightarrow>
          if i < threads_number s then
            if heap (queues s) a \<noteq> None then Blocked
            else
              (case add_to_input_work_queue a (new_node a None (nframes s) True (queues s)) of
                 None \<Rightarrow> Crash
               | Some q \<Rightarrow>
                   Next (s\<lparr>queues := q, enqueued := enqueued s @ [(nframes s, True)],
                           pc_one := One_sentinels (i + 1)\<rparr>))
          else Next (s\<lparr>pc_one := One_done\<rparr>)
      | One_done \<Rightarrow> Blocked)"

text \<open>
  \<^verbatim>\<open>stage_two\<close>, run by worker \<open>w\<close>. At \<open>Two_wait\<close>: wait for a node and remove it.
  At \<open>Two_holds a\<close>: a sentinel is passed on and the worker leaves its loop; any other
  node is processed. At \<open>Two_processed a\<close>: the processed node is passed on.
\<close>

definition stage_two :: "('f \<Rightarrow> 'f) \<Rightarrow> nat \<Rightarrow> 'f stages \<Rightarrow> 'f stages step_result" where
  "stage_two process w s =
     (if \<not> int w < threads_number s then Blocked
      else case pc_two s w of
        Two_wait \<Rightarrow>
          if size_input_work_queue (queues s) = 0 then Blocked
          else
            (case remove_from_input_work_queue (queues s) of
               None \<Rightarrow> Crash
             | Some (a, q) \<Rightarrow>
                 Next (s\<lparr>queues := q, dequeued := dequeued s @ dequeue_entry w q a,
                         pc_two := (pc_two s)(w := Two_holds a)\<rparr>))
      | Two_holds a \<Rightarrow>
          (case heap (queues s) a of
             None \<Rightarrow> Crash
           | Some n \<Rightarrow>
               if is_the_last_node n then
                 (case add_to_output_work_queue a (queues s) of
                    None \<Rightarrow> Crash
                  | Some q \<Rightarrow> Next (s\<lparr>queues := q, pc_two := (pc_two s)(w := Two_done)\<rparr>))
               else
                 (case process_frame process a (queues s) of
                    None \<Rightarrow> Crash
                  | Some q \<Rightarrow>
                      Next (s\<lparr>queues := q, transformed := transformed s @ [frame_number n],
                              pc_two := (pc_two s)(w := Two_processed a)\<rparr>)))
      | Two_processed a \<Rightarrow>
          (case add_to_output_work_queue a (queues s) of
             None \<Rightarrow> Crash
           | Some q \<Rightarrow> Next (s\<lparr>queues := q, pc_two := (pc_two s)(w := Two_wait)\<rparr>))
      | Two_done \<Rightarrow> Blocked)"

text \<open>
  \<^verbatim>\<open>stage_three\<close>. At \<open>Three_top\<close>: advance the expected frame number. Then wait
  until the output queue is not empty, wait until its head carries the expected number,
  and remove the head. At \<open>Three_holds a\<close>: a sentinel ends the thread, any other node
  is displayed.
\<close>

definition stage_three :: "'f stages \<Rightarrow> 'f stages step_result" where
  "stage_three s =
     (case pc_three s of
        Three_top \<Rightarrow>
          Next (s\<lparr>current_frame := current_frame s + 1, pc_three := Three_wait_nonempty\<rparr>)
      | Three_wait_nonempty \<Rightarrow>
          if size_output_work_queue (queues s) = 0 then Blocked
          else Next (s\<lparr>pc_three := Three_wait_head\<rparr>)
      | Three_wait_head \<Rightarrow>
          (case get_head_id_from_output_work_queue (queues s) of
             None \<Rightarrow> Crash
           | Some i \<Rightarrow>
               if i \<noteq> current_frame s then Blocked
               else
                 (case remove_from_output_work_queue (queues s) of
                    None \<Rightarrow> Crash
                  | Some (a, q) \<Rightarrow> Next (s\<lparr>queues := q, pc_three := Three_holds a\<rparr>)))
      | Three_holds a \<Rightarrow>
          (case heap (queues s) a of
             None \<Rightarrow> Crash
           | Some n \<Rightarrow>
               if is_the_last_node n then Next (s\<lparr>pc_three := Three_done\<rparr>)
               else
                 (case send_frame_to_display a s of
                    None \<Rightarrow> Crash
                  | Some s' \<Rightarrow> Next (s'\<lparr>pc_three := Three_top\<rparr>)))
      | Three_done \<Rightarrow> Blocked)"

text \<open>A schedule names, step by step, the thread that runs.\<close>

datatype stage_label = Run_one addr | Run_two nat | Run_three

fun stages_step :: "('f \<Rightarrow> 'f) \<Rightarrow> stage_label \<Rightarrow> 'f stages \<Rightarrow> 'f stages step_result" where
  "stages_step process (Run_one a) s = stage_one a s"
| "stages_step process (Run_two w) s = stage_two process w s"
| "stages_step process Run_three s = stage_three s"

fun stages_run :: "('f \<Rightarrow> 'f) \<Rightarrow> stage_label list \<Rightarrow> 'f stages \<Rightarrow> 'f stages step_result" where
  "stages_run process [] s = Next s"
| "stages_run process (l # ls) s =
     (case stages_step process l s of
        Next s' \<Rightarrow> stages_run process ls s'
      | Blocked \<Rightarrow> Blocked
      | Crash \<Rightarrow> Crash)"

text \<open>
  The globals as \<^verbatim>\<open>main\<close> of \<^verbatim>\<open>lane_detection_openmp.cpp\<close> sets them: empty queues,
  no node allocated, both counters of frames at 0. \<open>fs\<close> are the frames of the opened
  source and \<open>n\<close> is \<^verbatim>\<open>atoi(argv[2])\<close>.
\<close>

definition empty_queues :: "'f queues" where
  "empty_queues =
     \<lparr>heap = (\<lambda>a. None), input_head = None, input_tail = None, output_head = None,
      output_tail = None, size_input_work_queue = 0, size_output_work_queue = 0\<rparr>"

definition stages_init :: "'f list \<Rightarrow> int \<Rightarrow> 'f stages" where
  "stages_init fs n =
     \<lparr>queues = empty_queues, capture = fs, oVideoWriter = [], nframes = 0, current_frame = 0,
      threads_number = n, is_there_any_frame = False, is_there_any_work = False,
      finished = False, correctness = 0, enqueued = [], dequeued = [], transformed = [],
      pc_one = One_capture, pc_two = (\<lambda>w. Two_wait), pc_three = Three_top\<rparr>"

text \<open>All threads have returned.\<close>

definition stages_final :: "'f stages \<Rightarrow> bool" where
  "stages_final s =
     (pc_one s = One_done \<and> pc_three s = Three_done
      \<and> (\<forall>w < nat (threads_number s). pc_two s w = Two_done))"

section \<open>What holds of the nodes as they flow through a pipeline\<close>

text \<open>
  Both pipelines move nodes the same way: frames are captured and queued in the input
  queue under the numbers 1, 2, \<dots>; after the last frame, sentinels numbered one more
  than the number of frames are queued; a worker removes a node, processes it unless it
  is a sentinel, and adds it to the output queue; the emitting code removes the head of
  the output queue when it carries the expected number and displays it. The invariant
  \<open>flow_at\<close> describes a state in these terms. Its parameters: the frames \<open>fs\<close> of
  the source; the nodes \<open>R\<close> that workers hold unprocessed, the nodes \<open>Dn\<close> that
  workers hold processed and the node \<open>E\<close> that the emitting code holds; the number
  \<open>C\<close> of sentinels created; the contents \<open>xs\<close> and \<open>ys\<close> of the queues; the
  numbers of frames dequeued (\<open>P\<close>), captured (\<open>K\<close>) and displayed (\<open>k\<close>), and the
  number \<open>S\<close> of sentinels in the input queue.
\<close>

type_synonym 'f item = "'f option \<times> int \<times> bool"

definition raw_item :: "'f list \<Rightarrow> nat \<Rightarrow> 'f item" where
  "raw_item fs j = (Some (fs ! j), int j + 1, False)"

definition done_item :: "('f \<Rightarrow> 'f) \<Rightarrow> 'f list \<Rightarrow> nat \<Rightarrow> 'f item" where
  "done_item process fs j = (Some (process (fs ! j)), int j + 1, False)"

definition sentinel_item :: "'f list \<Rightarrow> 'f item" where
  "sentinel_item fs = (None, int (length fs) + 1, True)"

definition ident :: "(addr \<Rightarrow> 'f item option) \<Rightarrow> addr \<Rightarrow> int" where
  "ident d a = (case d a of None \<Rightarrow> 0 | Some x \<Rightarrow> fst (snd x))"

definition terminal :: "(addr \<Rightarrow> 'f item option) \<Rightarrow> addr \<Rightarrow> bool" where
  "terminal d a = (case d a of None \<Rightarrow> False | Some x \<Rightarrow> snd (snd x))"

text \<open>The frame nodes (those that are not sentinels) among a set of nodes.\<close>

definition frames_in :: "(addr \<Rightarrow> 'f item option) \<Rightarrow> addr set \<Rightarrow> addr set" where
  "frames_in d A = {a \<in> A. \<not> terminal d a}"

definition flow_wf :: "'f queues \<Rightarrow> addr list \<Rightarrow> addr list \<Rightarrow> addr set \<Rightarrow> addr set \<Rightarrow> addr set \<Rightarrow> bool" where
  "flow_wf q xs ys R Dn E =
     (wf_queues q xs ys (R \<union> Dn \<union> E) \<and> finite (dom (heap q)) \<and> R \<inter> Dn = {}
      \<and> (R \<union> Dn) \<inter> E = {})"

definition flow_input :: "'f list \<Rightarrow> (addr \<Rightarrow> 'f item option) \<Rightarrow> addr list \<Rightarrow> nat \<Rightarrow> nat \<Rightarrow> nat \<Rightarrow> nat \<Rightarrow> bool" where
  "flow_input fs d xs P K S C =
     (map d xs = map (\<lambda>j. Some (raw_item fs j)) [P..<K] @ replicate S (Some (sentinel_item fs))
      \<and> P \<le> K \<and> K \<le> length fs \<and> S \<le> C \<and> (0 < C \<longrightarrow> K = length fs)
      \<and> (P < K \<longrightarrow> S = C))"

definition flow_log :: "'f list \<Rightarrow> (nat \<times> int \<times> bool) list \<Rightarrow> nat \<Rightarrow> nat \<Rightarrow> nat \<Rightarrow> bool" where
  "flow_log fs dq P S C =
     (map snd dq = map (\<lambda>j. (int j + 1, False)) [0..<P]
        @ replicate (C - S) (int (length fs) + 1, True))"

definition flow_sent :: "'f list \<Rightarrow> (int \<times> bool) list \<Rightarrow> nat \<Rightarrow> nat \<Rightarrow> bool" where
  "flow_sent fs eq K C =
     (eq = map (\<lambda>j. (int j + 1, False)) [0..<K] @ replicate C (int (length fs) + 1, True))"

definition flow_payload :: "(addr \<Rightarrow> 'f item option) \<Rightarrow> bool" where
  "flow_payload d = (\<forall>a x. d a = Some x \<longrightarrow> (fst x = None) = snd (snd x))"

definition flow_nodes ::
  "('f \<Rightarrow> 'f) \<Rightarrow> 'f list \<Rightarrow> (addr \<Rightarrow> 'f item option) \<Rightarrow> addr list \<Rightarrow> addr set \<Rightarrow> addr set \<Rightarrow> addr set \<Rightarrow> bool" where
  "flow_nodes process fs d ys R Dn E =
     ((\<forall>a\<in>R. d a = Some (sentinel_item fs) \<or> (\<exists>j<length fs. d a = Some (raw_item fs j)))
      \<and> (\<forall>a\<in>Dn \<union> set ys \<union> E. d a = Some (sentinel_item fs)
            \<or> (\<exists>j<length fs. d a = Some (done_item process fs j)))
      \<and> (\<forall>a\<in>Dn. \<not> terminal d a))"

definition flow_order :: "(addr \<Rightarrow> 'f item option) \<Rightarrow> addr list \<Rightarrow> addr set \<Rightarrow> nat \<Rightarrow> bool" where
  "flow_order d ys E k = (sorted (map (ident d) ys) \<and> (\<forall>a\<in>E. ident d a = int k + 1))"

definition flow_frames ::
  "(addr \<Rightarrow> 'f item option) \<Rightarrow> addr list \<Rightarrow> addr set \<Rightarrow> addr set \<Rightarrow> addr set \<Rightarrow> nat \<Rightarrow> nat \<Rightarrow> bool" where
  "flow_frames d ys R Dn E k P =
     (inj_on (ident d) (frames_in d (R \<union> Dn \<union> set ys \<union> E))
      \<and> ident d ` frames_in d (R \<union> Dn \<union> set ys \<union> E) = {int k + 1..int P} \<and> k \<le> P)"

definition flow_transformed :: "(addr \<Rightarrow> 'f item option) \<Rightarrow> int list \<Rightarrow> addr set \<Rightarrow> nat \<Rightarrow> bool" where
  "flow_transformed d tr R P =
     (distinct tr \<and> set tr = {1..int P} - ident d ` frames_in d R)"

definition flow_at ::
  "('f \<Rightarrow> 'f) \<Rightarrow> 'f list \<Rightarrow> ('f, 'z) pipeline_scheme \<Rightarrow> addr set \<Rightarrow> addr set \<Rightarrow> addr set \<Rightarrow> nat
     \<Rightarrow> addr list \<Rightarrow> addr list \<Rightarrow> nat \<Rightarrow> nat \<Rightarrow> nat \<Rightarrow> nat \<Rightarrow> bool" where
  "flow_at process fs s R Dn E C xs ys P S K k =
     (flow_wf (queues s) xs ys R Dn E
      \<and> capture s = drop K fs
      \<and> oVideoWriter s = map process (take k fs)
      \<and> flow_input fs (heap_data (heap (queues s))) xs P K S C
      \<and> flow_log fs (dequeued s) P S C
      \<and> flow_sent fs (enqueued s) K C
      \<and> flow_payload (heap_data (heap (queues s)))
      \<and> flow_nodes process fs (heap_data (heap (queues s))) ys R Dn E
      \<and> flow_order (heap_data (heap (queues s))) ys E k
      \<and> flow_frames (heap_data (heap (queues s))) ys R Dn E k P
      \<and> flow_transformed (heap_data (heap (queues s))) (transformed s) R P)"

definition flow ::
  "('f \<Rightarrow> 'f) \<Rightarrow> 'f list \<Rightarrow> ('f, 'z) pipeline_scheme \<Rightarrow> addr set \<Rightarrow> addr set \<Rightarrow> addr set \<Rightarrow> nat \<Rightarrow> bool" where
  "flow process fs s R Dn E C = (\<exists>xs ys P S K k. flow_at process fs s R Dn E C xs ys P S K k)"

section \<open>The invariant of the three stages\<close>

text \<open>
  The nodes the workers hold, read off their program counters, and the number of
  sentinels \<^verbatim>\<open>stage_one\<close> has created so far.
\<close>

definition raw_held :: "int \<Rightarrow> (nat \<Rightarrow> two_pc) \<Rightarrow> addr set" where
  "raw_held n pc = {a. \<exists>w. int w < n \<and> pc w = Two_holds a}"

definition done_held :: "int \<Rightarrow> (nat \<Rightarrow> two_pc) \<Rightarrow> addr set" where
  "done_held n pc = {a. \<exists>w. int w < n \<and> pc w = Two_processed a}"

fun emit_held :: "three_pc \<Rightarrow> addr set" where
  "emit_held (Three_holds a) = {a}"
| "emit_held _ = {}"

fun sentinels_created :: "int \<Rightarrow> one_pc \<Rightarrow> nat" where
  "sentinels_created n One_capture = 0"
| "sentinels_created n (One_sentinels i) = nat i"
| "sentinels_created n One_done = nat n"

fun holds :: "two_pc \<Rightarrow> addr option" where
  "holds (Two_holds a) = Some a"
| "holds (Two_processed a) = Some a"
| "holds _ = None"

text \<open>The sentinels a worker has dequeued, and whether its position says it has taken one.\<close>

definition sentinel_count :: "nat \<Rightarrow> (nat \<times> int \<times> bool) list \<Rightarrow> nat" where
  "sentinel_count w dq = length (filter (\<lambda>e. fst e = w \<and> snd (snd e)) dq)"

fun took_sentinel :: "(addr \<Rightarrow> 'f item option) \<Rightarrow> two_pc \<Rightarrow> bool" where
  "took_sentinel d Two_done = True"
| "took_sentinel d (Two_holds a) = terminal d a"
| "took_sentinel d _ = False"

definition one_ok :: "'f list \<Rightarrow> int \<Rightarrow> 'f stages \<Rightarrow> nat \<Rightarrow> bool" where
  "one_ok fs n s K =
     (case pc_one s of
        One_capture \<Rightarrow> nframes s = int K
      | One_sentinels i \<Rightarrow>
          capture s = [] \<and> nframes s = int (length fs) + 1 \<and> 0 \<le> i \<and> (i \<le> n \<or> i = 0)
      | One_done \<Rightarrow> capture s = [] \<and> nframes s = int (length fs) + 1)"

definition three_ok :: "'f list \<Rightarrow> 'f stages \<Rightarrow> addr list \<Rightarrow> nat \<Rightarrow> bool" where
  "three_ok fs s ys k =
     (case pc_three s of
        Three_top \<Rightarrow> current_frame s = int k
      | Three_wait_nonempty \<Rightarrow> current_frame s = int k + 1
      | Three_wait_head \<Rightarrow> current_frame s = int k + 1 \<and> ys \<noteq> []
      | Three_holds a \<Rightarrow> current_frame s = int k + 1
      | Three_done \<Rightarrow> k = length fs)"

definition two_ok :: "int \<Rightarrow> 'f stages \<Rightarrow> bool" where
  "two_ok n s =
     ((\<forall>w w'. int w < n \<longrightarrow> int w' < n \<longrightarrow> w \<noteq> w' \<longrightarrow>
          holds (pc_two s w) = None \<or> holds (pc_two s w) \<noteq> holds (pc_two s w'))
      \<and> (\<forall>w. int w < n \<longrightarrow>
            sentinel_count w (dequeued s)
              = (if took_sentinel (heap_data (heap (queues s))) (pc_two s w) then 1 else 0))
      \<and> (\<forall>e\<in>set (dequeued s). int (fst e) < n))"

text \<open>
  Once a worker has passed its sentinel on, the output queue holds a sentinel until the
  third stage has taken one.
\<close>

definition sent_ok :: "int \<Rightarrow> 'f stages \<Rightarrow> addr list \<Rightarrow> bool" where
  "sent_ok n s ys =
     ((\<exists>w. int w < n \<and> pc_two s w = Two_done) \<and> pc_three s \<noteq> Three_done
        \<and> (\<forall>a. pc_three s = Three_holds a \<longrightarrow> \<not> terminal (heap_data (heap (queues s))) a)
      \<longrightarrow> (\<exists>a\<in>set ys. terminal (heap_data (heap (queues s))) a))"

definition stages_inv_at ::
  "('f \<Rightarrow> 'f) \<Rightarrow> 'f list \<Rightarrow> int \<Rightarrow> 'f stages
     \<Rightarrow> addr list \<Rightarrow> addr list \<Rightarrow> nat \<Rightarrow> nat \<Rightarrow> nat \<Rightarrow> nat \<Rightarrow> bool" where
  "stages_inv_at process fs n s xs ys P S K k =
     (threads_number s = n
      \<and> flow_at process fs s (raw_held n (pc_two s)) (done_held n (pc_two s))
           (emit_held (pc_three s)) (sentinels_created n (pc_one s)) xs ys P S K k
      \<and> one_ok fs n s K \<and> three_ok fs s ys k \<and> two_ok n s \<and> sent_ok n s ys)"

definition stages_inv :: "('f \<Rightarrow> 'f) \<Rightarrow> 'f list \<Rightarrow> int \<Rightarrow> 'f stages \<Rightarrow> bool" where
  "stages_inv process fs n s = (\<exists>xs ys P S K k. stages_inv_at process fs n s xs ys P S K k)"


subsection \<open>A bound on the number of steps\<close>

text \<open>
  The steps each thread has still to take, counted generously: every node that is still
  to be captured, created or dequeued costs a worker three steps, and every frame that
  is still to be displayed costs the third stage four.
\<close>

fun two_left :: "two_pc \<Rightarrow> int" where
  "two_left (Two_holds a) = 2"
| "two_left (Two_processed a) = 1"
| "two_left _ = 0"

fun three_left :: "three_pc \<Rightarrow> int" where
  "three_left Three_top = 4"
| "three_left Three_wait_nonempty = 3"
| "three_left Three_wait_head = 2"
| "three_left (Three_holds a) = 1"
| "three_left Three_done = 0"

fun sentinels_to_come :: "int \<Rightarrow> one_pc \<Rightarrow> int" where
  "sentinels_to_come n One_capture = max 0 n"
| "sentinels_to_come n (One_sentinels i) = max 0 (n - i)"
| "sentinels_to_come n One_done = 0"

fun one_left :: "nat \<Rightarrow> one_pc \<Rightarrow> int" where
  "one_left c One_capture = int c + 2"
| "one_left c (One_sentinels i) = 1"
| "one_left c One_done = 0"

definition stages_measure :: "nat \<Rightarrow> 'f stages \<Rightarrow> int" where
  "stages_measure M s =
     one_left (length (capture s)) (pc_one s) + 4 * sentinels_to_come (threads_number s) (pc_one s)
     + 3 * (int (length (capture s)) + int (length (enqueued s)) - int (length (dequeued s)))
     + (\<Sum>w<nat (threads_number s). two_left (pc_two s w))
     + three_left (pc_three s)
     + 4 * (int M - int (length (oVideoWriter s)))"

subsection \<open>The integer variables stay in range\<close>

text \<open>
  \<open>nframes\<close>, \<open>current_frame\<close>, the frame numbers and the two counters are of type
  \<^verbatim>\<open>int\<close> in the source. The nodes that exist outside the two queues are those the
  workers and the third stage hold; with the nodes in the queues they are never more than
  the nodes that were created.
\<close>

fun two_holding :: "two_pc \<Rightarrow> int" where
  "two_holding (Two_holds a) = 1"
| "two_holding (Two_processed a) = 1"
| "two_holding _ = 0"

fun three_holding :: "three_pc \<Rightarrow> int" where
  "three_holding (Three_holds a) = 1"
| "three_holding _ = 0"

definition nodes_in_flight :: "'f stages \<Rightarrow> int" where
  "nodes_in_flight s =
     size_input_work_queue (queues s) + size_output_work_queue (queues s)
     + (\<Sum>w<nat (threads_number s). two_holding (pc_two s w)) + three_holding (pc_three s)"

definition counters_ok :: "'f stages \<Rightarrow> bool" where
  "counters_ok s =
     (nodes_in_flight s \<le> int (length (enqueued s))
      \<and> current_frame s
          = int (length (oVideoWriter s)) + (if pc_three s = Three_top then 0 else 1))"

text \<open>Two frames, two workers, and a schedule that runs the three stages to their end.\<close>

definition example_schedule :: "stage_label list" where
  "example_schedule =
     [Run_one 0, Run_one 1, Run_two 0, Run_two 1, Run_two 1, Run_two 1, Run_three, Run_three,
      Run_two 0, Run_two 0, Run_three, Run_three, Run_one 2, Run_one 0, Run_one 2, Run_one 2,
      Run_two 0, Run_two 0, Run_two 1, Run_two 1, Run_three, Run_three, Run_three, Run_three,
      Run_three, Run_three, Run_three, Run_three]"

subsection \<open>What the output queue holds, read from its head\<close>

text \<open>
  The \<^verbatim>\<open>is_the_last_node\<close> flag of the node at an address, and the frame numbers of the
  nodes of the output queue: as many nodes as the counter says, from \<open>output_head\<close>
  along the links.
\<close>

definition last_node :: "(addr \<Rightarrow> 'f work_node option) \<Rightarrow> addr \<Rightarrow> bool" where
  "last_node h a = (case h a of None \<Rightarrow> False | Some n \<Rightarrow> is_the_last_node n)"

fun frame_numbers_from :: "(addr \<Rightarrow> 'f work_node option) \<Rightarrow> addr option \<Rightarrow> nat \<Rightarrow> int list" where
  "frame_numbers_from h p 0 = []"
| "frame_numbers_from h p (Suc k) =
     (case p of None \<Rightarrow> []
      | Some a \<Rightarrow> (case h a of None \<Rightarrow> []
          | Some n \<Rightarrow> frame_number n # frame_numbers_from h (next_node n) k))"

definition output_frame_numbers :: "'f queues \<Rightarrow> int list" where
  "output_frame_numbers q =
     frame_numbers_from (heap q) (output_head q) (nat (size_output_work_queue q))"

definition run_output_frame_numbers :: "'f stages step_result \<Rightarrow> int list option" where
  "run_output_frame_numbers r =
     (case r of Next s \<Rightarrow> Some (output_frame_numbers (queues s)) | _ \<Rightarrow> None)"

text \<open>
  No frame and two workers: the schedule runs \<^verbatim>\<open>stage_one\<close> to its end and lets each
  worker pass its sentinel on.
\<close>

definition sentinels_schedule :: "stage_label list" where
  "sentinels_schedule =
     [Run_one 0, Run_one 0, Run_one 1, Run_one 0, Run_two 0, Run_two 0, Run_two 1, Run_two 1]"

section \<open>The \<^verbatim>\<open>main\<close> functions\<close>

text \<open>
  What the programs find outside: the frames of the video file of a given name and the
  frames of the camera of a given index, \<open>None\<close> where \<^verbatim>\<open>VideoCapture::open\<close> fails.
\<close>

record 'f environment =
  video_file :: "string \<Rightarrow> 'f list option"
  video_device :: "int \<Rightarrow> 'f list option"

text \<open>
  \<^verbatim>\<open>atoi\<close>: white space, an optional sign, then the decimal digits up to the first
  character that is not one; 0 when there is no digit. A value outside \<^verbatim>\<open>int\<close> is
  undefined behaviour, \<open>None\<close> here.
\<close>

definition is_space :: "char \<Rightarrow> bool" where
  "is_space c = (c \<in> {CHR '' '', CHR 0x09, CHR 0x0A, CHR 0x0B, CHR 0x0C, CHR 0x0D})"

definition is_digit :: "char \<Rightarrow> bool" where
  "is_digit c = (c \<in> set ''0123456789'')"

fun digits_value :: "string \<Rightarrow> int \<Rightarrow> int" where
  "digits_value [] acc = acc"
| "digits_value (c # cs) acc =
     (if is_digit c then digits_value cs (10 * acc + (of_char c - of_char CHR ''0'')) else acc)"

definition atoi :: "string \<Rightarrow> int option" where
  "atoi str =
     (let t = dropWhile is_space str;
          x = (case t of
                 [] \<Rightarrow> 0
               | c # r \<Rightarrow>
                   if c = CHR ''-'' then - digits_value r 0
                   else if c = CHR ''+'' then digits_value r 0
                   else digits_value t 0)
      in if c_int_range x then Some x else None)"

text \<open>
  \<^verbatim>\<open>capture.open(arg); if (!capture.isOpened()) capture.open(atoi(arg.c_str()));\<close> The
  result is the capture: its frames, or \<open>None\<close> when it is not opened. Nothing follows
  that tests it again.
\<close>

definition open_capture :: "'f environment \<Rightarrow> string \<Rightarrow> 'f list option option" where
  "open_capture env arg =
     (case video_file env arg of
        Some fs \<Rightarrow> Some (Some fs)
      | None \<Rightarrow> map_option (video_device env) (atoi arg))"

text \<open>
  \<^verbatim>\<open>capture >> image\<close> on a capture that is not opened gives an empty image, as it does
  at the end of a video: such a capture has no frame to deliver.
\<close>

definition frames_of :: "'f list option \<Rightarrow> 'f list" where
  "frames_of c = (case c of None \<Rightarrow> [] | Some fs \<Rightarrow> fs)"

text \<open>
  The globals as \<^verbatim>\<open>main\<close> has set them when it calls \<^verbatim>\<open>parallel_processing\<close>;
  \<open>first\<close> is the value it gives to \<open>nframes\<close> and \<open>current_frame\<close>.
\<close>

definition globals_at_start :: "'f list \<Rightarrow> int \<Rightarrow> int \<Rightarrow> 'f pipeline" where
  "globals_at_start fs n first =
     \<lparr>queues = empty_queues, capture = fs, oVideoWriter = [], nframes = first,
      current_frame = first, threads_number = n, is_there_any_frame = False,
      is_there_any_work = False, finished = False, correctness = 0, enqueued = [],
      dequeued = [], transformed = []\<rparr>"

text \<open>
  \<^verbatim>\<open>main\<close> of \<^verbatim>\<open>lane_detection_openmp.cpp\<close> and of \<^verbatim>\<open>lane_detection_openmp_v2.cpp\<close>, up
  to the call of \<^verbatim>\<open>parallel_processing\<close>. \<open>argv\<close> is the command line with the name of
  the program first. The result says whether the capture is opened at the call and gives
  the globals at the call. \<open>None\<close> is undefined behaviour: an argument that is missing
  (\<^verbatim>\<open>argv[1]\<close> or \<^verbatim>\<open>argv[2]\<close> is read without a look at \<^verbatim>\<open>argc\<close>) or a number that
  \<^verbatim>\<open>atoi\<close> cannot represent. Neither function has a statement that reports an error or
  ends the program before the call.
\<close>

record 'f start =
  source_opened :: bool
  globals :: "'f pipeline"

definition main_openmp :: "'f environment \<Rightarrow> string list \<Rightarrow> 'f start option" where
  "main_openmp env argv =
     (case argv of
        prog # arg # number # rest \<Rightarrow>
          do {
            n \<leftarrow> atoi number;
            c \<leftarrow> open_capture env arg;
            Some \<lparr>source_opened = (c \<noteq> None), globals = globals_at_start (frames_of c) n 0\<rparr>
          }
      | _ \<Rightarrow> None)"

definition main_openmp_v2 :: "'f environment \<Rightarrow> string list \<Rightarrow> 'f start option" where
  "main_openmp_v2 env argv =
     (case argv of
        prog # arg # number # rest \<Rightarrow>
          do {
            n \<leftarrow> atoi number;
            c \<leftarrow> open_capture env arg;
            Some \<lparr>source_opened = (c \<noteq> None), globals = globals_at_start (frames_of c) n 1\<rparr>
          }
      | _ \<Rightarrow> None)"

text \<open>
  \<^verbatim>\<open>main\<close> of \<^verbatim>\<open>lane_detection_seq.cpp\<close>, whole: it opens the capture the same way and
  then reads, counts, transforms and writes frame after frame until an image is empty.
  The result says whether the capture was opened and gives the video written and
  \<open>nframes\<close>. \<open>process\<close> is what the loop does to one image. \<open>None\<close> is undefined
  behaviour: a missing argument, or more frames than \<open>nframes\<close> can count.
\<close>

record 'f seq_result =
  seq_opened :: bool
  seq_written :: "'f list"
  seq_nframes :: int

definition main_seq :: "'f environment \<Rightarrow> ('f \<Rightarrow> 'f) \<Rightarrow> string list \<Rightarrow> 'f seq_result option" where
  "main_seq env process argv =
     (case argv of
        prog # arg # rest \<Rightarrow>
          do {
            c \<leftarrow> open_capture env arg;
            if c_int_range (int (length (frames_of c))) then
              Some \<lparr>seq_opened = (c \<noteq> None), seq_written = map process (frames_of c),
                    seq_nframes = int (length (frames_of c))\<rparr>
            else None
          }
      | _ \<Rightarrow> None)"

text \<open>An environment with one video of two frames and no camera.\<close>

definition example_environment :: "int environment" where
  "example_environment =
     \<lparr>video_file = (\<lambda>name. if name = ''road.avi'' then Some [10, 20] else None),
      video_device = (\<lambda>i. None)\<rparr>"

section \<open>\<^verbatim>\<open>parallel_processing\<close> of \<^verbatim>\<open>lane_detection_openmp_v2.cpp\<close>\<close>

text \<open>
  A value of type \<^verbatim>\<open>int\<close> after an addition that left the range of the type, as the
  compiled code computes it.
\<close>

definition c_int_wrap :: "int \<Rightarrow> int" where
  "c_int_wrap x = (x + 2147483648) mod 4294967296 - 2147483648"

text \<open>
  \<^verbatim>\<open>send_frame_to_display\<close> of \<^verbatim>\<open>lane_detection_openmp_v2.cpp\<close>: write the frame, add the
  frame number to \<open>correctness\<close>, free the node.
\<close>

definition send_frame_to_display_v2 ::
  "addr \<Rightarrow> ('f, 'z) pipeline_scheme \<Rightarrow> ('f, 'z) pipeline_scheme option" where
  "send_frame_to_display_v2 node_aux s =
     (case heap (queues s) node_aux of None \<Rightarrow> None
      | Some n \<Rightarrow> (case frame n of None \<Rightarrow> None
          | Some img \<Rightarrow>
              Some (s\<lparr>oVideoWriter := oVideoWriter s @ [img],
                      correctness := c_int_wrap (correctness s + frame_number n),
                      queues := (queues s)\<lparr>heap := (heap (queues s))(node_aux := None)\<rparr>\<rparr>)))"

text \<open>
  The parallel region is run by \<open>threads_number + 1\<close> threads, each of them looping
  \<^verbatim>\<open>while (finished == false)\<close>. Thread 0, the master, is the only one that runs block
  one and block three and it skips block two; the other threads, the workers, run block
  two only. A thread's position in the loop is its program counter, and a step runs it
  to the next position. A step holds at most one critical section
  (\<^verbatim>\<open>omp_set_lock\<close> to \<^verbatim>\<open>omp_unset_lock\<close>) or one access to a shared flag, together
  with code that touches only what the thread owns. No step waits: a thread that finds
  nothing to do goes round the loop.
\<close>

datatype master_pc = Master_top | Master_one | Master_three | Master_holds addr | Master_done

datatype worker_pc =
  Worker_top | Worker_two | Worker_lock | Worker_holds addr | Worker_processed addr
  | Worker_sent | Worker_done

record 'f team = "'f pipeline" +
  pc_master :: master_pc
  pc_worker :: "nat \<Rightarrow> worker_pc"

text \<open>
  The master. At \<open>Master_top\<close>: the test of the loop. At \<open>Master_one\<close>: block one; if
  there may still be frames, read an image and queue it in a new node, under the number
  \<open>nframes\<close>; an empty image is queued as the sentinel and ends the capture. At
  \<open>Master_three\<close>: block three up to the release of the lock; the head of the output
  queue is removed if it carries the expected number. At \<open>Master_holds a\<close>: the rest of
  block three; a sentinel sets \<open>finished\<close>, any other node is displayed and the
  expected number advances. \<open>a\<close> is the address \<^verbatim>\<open>malloc\<close> returns if the step
  allocates.
\<close>

definition master :: "addr \<Rightarrow> 'f team \<Rightarrow> 'f team step_result" where
  "master a s =
     (case pc_master s of
        Master_top \<Rightarrow>
          if finished s then Next (s\<lparr>pc_master := Master_done\<rparr>)
          else Next (s\<lparr>pc_master := Master_one\<rparr>)
      | Master_one \<Rightarrow>
          if is_there_any_frame s then
            if heap (queues s) a \<noteq> None then Blocked
            else
              (case capture s of
                 [] \<Rightarrow>
                   (case add_to_input_work_queue a (new_node a None (nframes s) True (queues s)) of
                      None \<Rightarrow> Crash
                    | Some q \<Rightarrow>
                        Next (s\<lparr>nframes := nframes s + 1, queues := q,
                                enqueued := enqueued s @ [(nframes s, True)],
                                is_there_any_frame := False, pc_master := Master_three\<rparr>))
               | img # rest \<Rightarrow>
                   (case add_to_input_work_queue a
                           (new_node a (Some img) (nframes s) False (queues s)) of
                      None \<Rightarrow> Crash
                    | Some q \<Rightarrow>
                        Next (s\<lparr>capture := rest, nframes := nframes s + 1, queues := q,
                                enqueued := enqueued s @ [(nframes s, False)],
                                pc_master := Master_three\<rparr>)))
          else Next (s\<lparr>pc_master := Master_three\<rparr>)
      | Master_three \<Rightarrow>
          if size_output_work_queue (queues s) > 0 then
            (case get_head_id_from_output_work_queue (queues s) of
               None \<Rightarrow> Crash
             | Some i \<Rightarrow>
                 if i = current_frame s then
                   (case remove_from_output_work_queue (queues s) of
                      None \<Rightarrow> Crash
                    | Some (b, q) \<Rightarrow> Next (s\<lparr>queues := q, pc_master := Master_holds b\<rparr>))
                 else Next (s\<lparr>pc_master := Master_top\<rparr>))
          else Next (s\<lparr>pc_master := Master_top\<rparr>)
      | Master_holds b \<Rightarrow>
          (case heap (queues s) b of
             None \<Rightarrow> Crash
           | Some n \<Rightarrow>
               if is_the_last_node n then Next (s\<lparr>finished := True, pc_master := Master_top\<rparr>)
               else
                 (case send_frame_to_display_v2 b s of
                    None \<Rightarrow> Crash
                  | Some s' \<Rightarrow>
                      Next (s'\<lparr>current_frame := current_frame s' + 1, pc_master := Master_top\<rparr>)))
      | Master_done \<Rightarrow> Blocked)"

text \<open>
  Worker \<open>w\<close>, which is thread \<open>w + 1\<close>. At \<open>Worker_top\<close>: the test of the loop. At
  \<open>Worker_two\<close>: the test of \<open>is_there_any_work\<close> that guards block two. At
  \<open>Worker_lock\<close>: the critical section on the input queue; a node is removed if there
  is one. At \<open>Worker_holds a\<close>: a sentinel is passed on, any other node is processed. At
  \<open>Worker_sent\<close>: the sentinel has been passed on and \<open>is_there_any_work\<close> is cleared.
  At \<open>Worker_processed a\<close>: the processed node is passed on.
\<close>

definition worker :: "('f \<Rightarrow> 'f) \<Rightarrow> nat \<Rightarrow> 'f team \<Rightarrow> 'f team step_result" where
  "worker process w s =
     (if \<not> int w < threads_number s then Blocked
      else case pc_worker s w of
        Worker_top \<Rightarrow>
          if finished s then Next (s\<lparr>pc_worker := (pc_worker s)(w := Worker_done)\<rparr>)
          else Next (s\<lparr>pc_worker := (pc_worker s)(w := Worker_two)\<rparr>)
      | Worker_two \<Rightarrow>
          if is_there_any_work s then Next (s\<lparr>pc_worker := (pc_worker s)(w := Worker_lock)\<rparr>)
          else Next (s\<lparr>pc_worker := (pc_worker s)(w := Worker_top)\<rparr>)
      | Worker_lock \<Rightarrow>
          if size_input_work_queue (queues s) > 0 then
            (case remove_from_input_work_queue (queues s) of
               None \<Rightarrow> Crash
             | Some (a, q) \<Rightarrow>
                 Next (s\<lparr>queues := q, dequeued := dequeued s @ dequeue_entry w q a,
                         pc_worker := (pc_worker s)(w := Worker_holds a)\<rparr>))
          else Next (s\<lparr>pc_worker := (pc_worker s)(w := Worker_top)\<rparr>)
      | Worker_holds a \<Rightarrow>
          (case heap (queues s) a of
             None \<Rightarrow> Crash
           | Some n \<Rightarrow>
               if is_the_last_node n then
                 (case add_to_output_work_queue a (queues s) of
                    None \<Rightarrow> Crash
                  | Some q \<Rightarrow>
                      Next (s\<lparr>queues := q, pc_worker := (pc_worker s)(w := Worker_sent)\<rparr>))
               else
                 (case process_frame process a (queues s) of
                    None \<Rightarrow> Crash
                  | Some q \<Rightarrow>
                      Next (s\<lparr>queues := q, transformed := transformed s @ [frame_number n],
                              pc_worker := (pc_worker s)(w := Worker_processed a)\<rparr>)))
      | Worker_sent \<Rightarrow>
          Next (s\<lparr>is_there_any_work := False, pc_worker := (pc_worker s)(w := Worker_top)\<rparr>)
      | Worker_processed a \<Rightarrow>
          (case add_to_output_work_queue a (queues s) of
             None \<Rightarrow> Crash
           | Some q \<Rightarrow> Next (s\<lparr>queues := q, pc_worker := (pc_worker s)(w := Worker_top)\<rparr>))
      | Worker_done \<Rightarrow> Blocked)"

text \<open>A schedule names the thread that takes each step.\<close>

datatype team_label = Run_master addr | Run_worker nat

fun team_step :: "('f \<Rightarrow> 'f) \<Rightarrow> team_label \<Rightarrow> 'f team \<Rightarrow> 'f team step_result" where
  "team_step process (Run_master a) s = master a s"
| "team_step process (Run_worker w) s = worker process w s"

fun team_run :: "('f \<Rightarrow> 'f) \<Rightarrow> team_label list \<Rightarrow> 'f team \<Rightarrow> 'f team step_result" where
  "team_run process [] s = Next s"
| "team_run process (l # ls) s =
     (case team_step process l s of
        Next s' \<Rightarrow> team_run process ls s'
      | Blocked \<Rightarrow> Blocked
      | Crash \<Rightarrow> Crash)"

text \<open>
  The state in which the threads start: the globals as \<^verbatim>\<open>main\<close> of
  \<^verbatim>\<open>lane_detection_openmp_v2.cpp\<close> sets them (both counters of frames at 1) and the
  three flags as the first statements of \<^verbatim>\<open>parallel_processing\<close> set them.
\<close>

definition team_init :: "'f list \<Rightarrow> int \<Rightarrow> 'f team" where
  "team_init fs n =
     \<lparr>queues = empty_queues, capture = fs, oVideoWriter = [], nframes = 1, current_frame = 1,
      threads_number = n, is_there_any_frame = True, is_there_any_work = True,
      finished = False, correctness = 0, enqueued = [], dequeued = [], transformed = [],
      pc_master = Master_top, pc_worker = (\<lambda>w. Worker_top)\<rparr>"


subsection \<open>The invariant of the team\<close>

text \<open>
  What a worker holds, in the terms used for the second stage, and what the master holds.
\<close>

fun two_of :: "worker_pc \<Rightarrow> two_pc" where
  "two_of (Worker_holds a) = Two_holds a"
| "two_of (Worker_processed a) = Two_processed a"
| "two_of Worker_done = Two_done"
| "two_of _ = Two_wait"

fun master_held :: "master_pc \<Rightarrow> addr set" where
  "master_held (Master_holds a) = {a}"
| "master_held _ = {}"

definition held_apart :: "int \<Rightarrow> (nat \<Rightarrow> two_pc) \<Rightarrow> bool" where
  "held_apart n pc =
     (\<forall>w w'. int w < n \<longrightarrow> int w' < n \<longrightarrow> w \<noteq> w' \<longrightarrow>
        holds (pc w) = None \<or> holds (pc w) \<noteq> holds (pc w'))"

definition sentinels_pushed :: "('f, 'z) pipeline_scheme \<Rightarrow> nat" where
  "sentinels_pushed s = (if is_there_any_frame s then 0 else 1)"

text \<open>
  The counters of frames follow the frames captured and displayed. Once a sentinel has
  left the input queue, there is none in it and the capture has ended; \<open>finished\<close> is
  set only after the last frame has been displayed.
\<close>

definition team_ok :: "'f list \<Rightarrow> int \<Rightarrow> 'f team \<Rightarrow> addr list \<Rightarrow> nat \<Rightarrow> nat \<Rightarrow> nat \<Rightarrow> bool" where
  "team_ok fs n s ys S K k =
     (held_apart n (two_of \<circ> pc_worker s)
      \<and> nframes s = int K + 1 + int (sentinels_pushed s)
      \<and> current_frame s = int k + 1
      \<and> ((\<exists>a\<in>raw_held n (two_of \<circ> pc_worker s) \<union> set ys \<union> master_held (pc_master s).
             terminal (heap_data (heap (queues s))) a)
           \<longrightarrow> S = 0 \<and> \<not> is_there_any_frame s)
      \<and> (finished s \<longrightarrow> k = length fs \<and> S = 0 \<and> \<not> is_there_any_frame s)
      \<and> (pc_master s = Master_done \<longrightarrow> finished s))"

definition team_inv_at ::
  "('f \<Rightarrow> 'f) \<Rightarrow> 'f list \<Rightarrow> int \<Rightarrow> 'f team \<Rightarrow> addr list \<Rightarrow> addr list \<Rightarrow> nat \<Rightarrow> nat \<Rightarrow> nat \<Rightarrow> nat \<Rightarrow> bool" where
  "team_inv_at process fs n s xs ys P S K k =
     (threads_number s = n
      \<and> flow_at process fs s (raw_held n (two_of \<circ> pc_worker s))
          (done_held n (two_of \<circ> pc_worker s)) (master_held (pc_master s))
          (sentinels_pushed s) xs ys P S K k
      \<and> team_ok fs n s ys S K k)"

definition team_inv :: "('f \<Rightarrow> 'f) \<Rightarrow> 'f list \<Rightarrow> int \<Rightarrow> 'f team \<Rightarrow> bool" where
  "team_inv process fs n s = (\<exists>xs ys P S K k. team_inv_at process fs n s xs ys P S K k)"



text \<open>
  Two frames and two workers: the master captures the two frames and the sentinel, the
  workers process the frames (the second first) and one of them passes the sentinel on,
  the master displays the frames and meets the sentinel, and all threads leave the loop.
\<close>

definition team_schedule :: "team_label list" where
  "team_schedule =
     [Run_master 0, Run_master 0, Run_master 0, Run_master 0, Run_master 1, Run_master 0,
      Run_master 0, Run_master 2, Run_master 0,
      Run_worker 0, Run_worker 0, Run_worker 0,
      Run_worker 1, Run_worker 1, Run_worker 1, Run_worker 1, Run_worker 1,
      Run_worker 0, Run_worker 0,
      Run_worker 1, Run_worker 1, Run_worker 1, Run_worker 1, Run_worker 1,
      Run_master 0, Run_master 0, Run_master 0, Run_master 0,
      Run_master 0, Run_master 0, Run_master 0, Run_master 0,
      Run_master 0, Run_master 0, Run_master 0, Run_master 0, Run_master 0,
      Run_worker 0, Run_worker 1]"

text \<open>The nodes a run has added to the input queue.\<close>

definition frames_queued :: "'f team step_result \<Rightarrow> (int \<times> bool) list option" where
  "frames_queued r = (case r of Next s \<Rightarrow> Some (enqueued s) | _ \<Rightarrow> None)"


text \<open>
  A concrete heap for the examples: three detached nodes at the addresses 0, 1 and 2 with
  the frame numbers 2, 0 and 1, and both queues empty as \<^verbatim>\<open>main\<close> leaves them.
\<close>

definition example_node :: "int \<Rightarrow> nat work_node" where
  "example_node i = \<lparr>frame = Some 0, frame_number = i, is_the_last_node = False, next_node = None\<rparr>"

definition example_queues :: "nat queues" where
  "example_queues =
     \<lparr>heap = [0 \<mapsto> example_node 2, 1 \<mapsto> example_node 0, 2 \<mapsto> example_node 1],
      input_head = None, input_tail = None, output_head = None, output_tail = None,
      size_input_work_queue = 0, size_output_work_queue = 0\<rparr>"

section \<open>Facts about lists in the heap\<close>

lemma heap_path_Cons:
  "heap_path h p (a # as) q =
     (p = Some a \<and> (\<exists>n. h a = Some n \<and> heap_path h (next_node n) as q))"
  by (simp split: option.splits)

declare heap_path.simps(2) [simp del]
declare heap_path_Cons [simp]

lemma heap_list_Nil [simp]: "heap_list h p [] = (p = None)"
  by (simp add: heap_list_def)

lemma heap_list_Cons [simp]:
  "heap_list h p (a # as) =
     (p = Some a \<and> (\<exists>n. h a = Some n \<and> heap_list h (next_node n) as))"
  by (simp add: heap_list_def)

lemma heap_list_None [simp]: "heap_list h None as = (as = [])"
  by (cases as) auto

lemma heap_path_append:
  "heap_path h p (as @ bs) q = (\<exists>r. heap_path h p as r \<and> heap_path h r bs q)"
  by (induction as arbitrary: p) auto

lemma heap_list_append:
  "heap_list h p (as @ bs) = (\<exists>r. heap_path h p as r \<and> heap_list h r bs)"
  unfolding heap_list_def by (rule heap_path_append)

lemma heap_path_cong:
  "(\<And>b. b \<in> set as \<Longrightarrow> map_option next_node (h' b) = map_option next_node (h b))
     \<Longrightarrow> heap_path h' p as q = heap_path h p as q"
proof (induction as arbitrary: p)
  case Nil
  show ?case by simp
next
  case (Cons a as)
  have nx: "map_option next_node (h' a) = map_option next_node (h a)"
    using Cons.prems by simp
  have rest: "\<And>r. heap_path h' r as q = heap_path h r as q"
    using Cons by simp
  show ?case
    using nx rest by (cases "h a"; cases "h' a") auto
qed

lemma heap_list_cong:
  "(\<And>b. b \<in> set as \<Longrightarrow> map_option next_node (h' b) = map_option next_node (h b))
     \<Longrightarrow> heap_list h' p as = heap_list h p as"
  unfolding heap_list_def by (rule heap_path_cong)

lemma heap_list_unique: "heap_list h p as \<Longrightarrow> heap_list h p bs \<Longrightarrow> as = bs"
proof (induction as arbitrary: p bs)
  case Nil
  then show ?case by simp
next
  case (Cons a as)
  then show ?case by (cases bs) auto
qed

lemma heap_list_suffix:
  "heap_list h p (as @ b # bs) \<Longrightarrow> heap_list h (Some b) (b # bs)"
  by (induction as arbitrary: p) auto

lemma heap_list_hd_notin_tl:
  assumes "heap_list h p (a # as)"
  shows "a \<notin> set as"
proof
  assume "a \<in> set as"
  then obtain bs cs where as: "as = bs @ a # cs"
    by (auto simp: in_set_conv_decomp)
  have "heap_list h (Some a) (a # cs)"
    using assms heap_list_suffix [of h p "a # bs" a cs] by (simp add: as)
  moreover have "heap_list h (Some a) (a # as)"
    using assms by simp
  ultimately have "a # cs = a # as"
    by (rule heap_list_unique)
  then show False
    by (simp add: as)
qed

lemma heap_list_distinct: "heap_list h p as \<Longrightarrow> distinct as"
proof (induction as arbitrary: p)
  case Nil
  show ?case by simp
next
  case (Cons a as)
  have "a \<notin> set as"
    using Cons.prems by (rule heap_list_hd_notin_tl)
  moreover have "distinct as"
    using Cons by auto
  ultimately show ?case by simp
qed

lemma heap_list_allocated: "heap_list h p as \<Longrightarrow> a \<in> set as \<Longrightarrow> h a \<noteq> None"
  by (induction as arbitrary: p) auto

lemma heap_list_insert:
  assumes l: "heap_list h p (as @ c # bs)"
    and c: "h c = Some n"
    and a: "h a = Some m" "a \<notin> set (as @ c # bs)"
    and h': "h' = h(a \<mapsto> m\<lparr>next_node := next_node n\<rparr>, c \<mapsto> n\<lparr>next_node := Some a\<rparr>)"
  shows "heap_list h' p (as @ c # a # bs)"
proof -
  have d: "distinct (as @ c # bs)"
    using l by (rule heap_list_distinct)
  from l obtain r where r: "heap_path h p as r" "heap_list h r (c # bs)"
    by (auto simp: heap_list_append)
  have bs: "heap_list h (next_node n) bs" and rc: "r = Some c"
    using r(2) c by auto
  have "heap_path h' p as r"
    using r(1) a(2) d by (subst heap_path_cong [of as h' h]) (auto simp: h')
  moreover have "heap_list h' (next_node n) bs"
    using bs a(2) d by (subst heap_list_cong [of bs h' h]) (auto simp: h')
  then have "heap_list h' r (c # a # bs)"
    using a(2) by (auto simp: rc h')
  ultimately show ?thesis
    by (auto simp: heap_list_append)
qed

lemma set_next_Some [simp]:
  "heap s a = Some n \<Longrightarrow> set_next (Some a) v s = Some (s\<lparr>heap := (heap s)(a \<mapsto> n\<lparr>next_node := v\<rparr>)\<rparr>)"
  by (simp add: set_next_def)

lemma heap_data_upd_next [simp]:
  "h a = Some n \<Longrightarrow> heap_data (h(a \<mapsto> n\<lparr>next_node := v\<rparr>)) = heap_data h"
  by (rule ext) (simp add: heap_data_def node_data_def)

lemma id_of_heap_data: "heap_data h' = heap_data h \<Longrightarrow> id_of h' = id_of h"
proof (rule ext)
  fix a
  assume e: "heap_data h' = heap_data h"
  have "heap_data h' a = heap_data h a"
    by (simp add: e)
  then show "id_of h' a = id_of h a"
    by (cases "h a"; cases "h' a") (auto simp: heap_data_def node_data_def id_of_def)
qed

lemma detached_upd_other [simp]: "b \<noteq> a \<Longrightarrow> detached (h(a \<mapsto> n)) b = detached h b"
  by (simp add: detached_def)

lemma heap_list_upd_notin [simp]:
  "a \<notin> set as \<Longrightarrow> heap_list (h(a \<mapsto> n)) p as = heap_list h p as"
  by (rule heap_list_cong) auto

lemma heap_list_last_next:
  "heap_list h p (as @ [a]) \<Longrightarrow> \<exists>n. h a = Some n \<and> next_node n = None"
  by (auto simp: heap_list_append)

lemma heap_list_snoc:
  assumes l: "heap_list h p (as @ [a])" and a: "h a = Some n"
    and b: "b \<notin> set (as @ [a])" "detached h b"
  shows "heap_list (h(a \<mapsto> n\<lparr>next_node := Some b\<rparr>)) p (as @ [a, b])"
proof -
  obtain m where m: "h b = Some m" "next_node m = None"
    using b(2) by (auto simp: detached_def split: option.splits)
  have "next_node n = None"
    using heap_list_last_next [OF l] a by simp
  then have "h(b \<mapsto> m\<lparr>next_node := next_node n\<rparr>) = h"
    using m by (auto simp: fun_upd_idem)
  then have "heap_list (h(b \<mapsto> m\<lparr>next_node := next_node n\<rparr>, a \<mapsto> n\<lparr>next_node := Some b\<rparr>)) p (as @ a # b # [])"
    using heap_list_insert [OF _ a m(1) _ refl, of p as "[]"] l b(1) by simp
  then show ?thesis
    using \<open>h(b \<mapsto> m\<lparr>next_node := next_node n\<rparr>) = h\<close> by simp
qed

section \<open>The queue functions on the sequences\<close>

lemma add_to_input_work_queue_refines:
  assumes q: "input_queue s xs" and a: "a \<notin> set xs" "detached (heap s) a"
  shows "\<exists>s'. add_to_input_work_queue a s = Some s' \<and> input_queue s' (xs @ [a])
         \<and> links_only s s' (set xs)
         \<and> output_head s' = output_head s
         \<and> size_output_work_queue s' = size_output_work_queue s"
proof (cases xs rule: rev_cases)
  case Nil
  then show ?thesis
    using q a by (auto simp: input_queue_def add_to_input_work_queue_def detached_def links_only_def
        split: option.splits)
next
  case (snoc zs z)
  have l: "heap_list (heap s) (input_head s) (zs @ [z])" and t: "input_tail s = Some z"
    and sz: "size_input_work_queue s \<noteq> 0" "size_input_work_queue s = int (length xs)"
    using q by (auto simp: input_queue_def snoc)
  obtain n where n: "heap s z = Some n"
    using heap_list_last_next [OF l] by auto
  have "heap_list ((heap s)(z \<mapsto> n\<lparr>next_node := Some a\<rparr>)) (input_head s) (zs @ [z, a])"
    using heap_list_snoc [OF l n] a by (simp add: snoc)
  then show ?thesis
    using sz t n
    by (auto simp: add_to_input_work_queue_def deref_def snoc input_queue_def links_only_def)
qed

lemma remove_from_input_work_queue_refines:
  assumes q: "input_queue s (x # xs)"
  shows "\<exists>s'. remove_from_input_work_queue s = Some (x, s') \<and> input_queue s' xs
         \<and> detached (heap s') x
         \<and> links_only s s' {x}
         \<and> output_head s' = output_head s
         \<and> size_output_work_queue s' = size_output_work_queue s"
proof -
  have l: "heap_list (heap s) (input_head s) (x # xs)"
    using q by (simp add: input_queue_def)
  then have x: "x \<notin> set xs"
    by (rule heap_list_hd_notin_tl)
  obtain n where n: "input_head s = Some x" "heap s x = Some n" "heap_list (heap s) (next_node n) xs"
    using l by auto
  show ?thesis
    using q n x
    by (auto simp: remove_from_input_work_queue_def input_queue_def links_only_def detached_def)
qed

lemma remove_from_output_work_queue_refines:
  assumes q: "output_queue s (y # ys)"
  shows "\<exists>s'. remove_from_output_work_queue s = Some (y, s') \<and> output_queue s' ys
         \<and> detached (heap s') y
         \<and> links_only s s' {y}
         \<and> input_head s' = input_head s \<and> input_tail s' = input_tail s
         \<and> size_input_work_queue s' = size_input_work_queue s"
proof -
  have l: "heap_list (heap s) (output_head s) (y # ys)"
    using q by (simp add: output_queue_def)
  then have y: "y \<notin> set ys"
    by (rule heap_list_hd_notin_tl)
  obtain n where n: "output_head s = Some y" "heap s y = Some n" "heap_list (heap s) (next_node n) ys"
    using l by auto
  show ?thesis
    using q n y
    by (auto simp: remove_from_output_work_queue_def output_queue_def links_only_def detached_def)
qed


lemma id_of_Some [simp]: "h a = Some n \<Longrightarrow> id_of h a = frame_number n"
  by (simp add: id_of_def)

lemma scan_output_work_queue_refines:
  assumes "heap_list (heap s) (Some c) (c # rest)" "a \<notin> set (c # rest)" "heap s a = Some n"
  shows "\<exists>s'. scan_output_work_queue a (frame_number n) c s = Some s'
         \<and> heap_list (heap s') (Some c) (c # insort_key (id_of (heap s)) a rest)
         \<and> links_only s s' (insert a (set (c # rest)))
         \<and> output_head s' = output_head s
         \<and> size_output_work_queue s' = size_output_work_queue s + 1
         \<and> input_head s' = input_head s \<and> input_tail s' = input_tail s
         \<and> size_input_work_queue s' = size_input_work_queue s"
  using assms
proof (induction rest arbitrary: c)
  case Nil
  then obtain cn where cn: "heap s c = Some cn" "next_node cn = None"
    by auto
  show ?case
    using cn Nil.prems(2,3)
    by (subst scan_output_work_queue.simps) (auto simp: links_only_def)
next
  case (Cons r rs)
  then obtain cn rn where cn: "heap s c = Some cn" "next_node cn = Some r"
    and rn: "heap s r = Some rn" and l: "heap_list (heap s) (Some r) (r # rs)"
    by auto
  have d: "distinct (c # r # rs)"
    using Cons.prems(1) by (rule heap_list_distinct)
  show ?case
  proof (cases "frame_number n \<le> frame_number rn")
    case True
    let ?h = "(heap s)(a \<mapsto> n\<lparr>next_node := next_node cn\<rparr>, c \<mapsto> cn\<lparr>next_node := Some a\<rparr>)"
    let ?s = "s\<lparr>heap := ?h, size_output_work_queue := size_output_work_queue s + 1\<rparr>"
    have "heap_list ?h (Some c) ([] @ c # a # r # rs)"
      by (rule heap_list_insert [OF _ cn(1) Cons.prems(3) _ refl])
        (use Cons.prems in simp_all)
    then have 1: "heap_list (heap ?s) (Some c) (c # insort_key (id_of (heap s)) a (r # rs))"
      using True rn Cons.prems(3) by simp
    have 2: "scan_output_work_queue a (frame_number n) c s = Some ?s"
      using True cn rn Cons.prems(2,3)
      by (subst scan_output_work_queue.simps) auto
    have 3: "links_only s ?s (insert a (set (c # r # rs)))"
      using cn Cons.prems(2,3) by (auto simp: links_only_def)
    show ?thesis
      by (intro exI [of _ ?s] conjI 1 2 3) simp_all
  next
    case False
    obtain s' where s': "scan_output_work_queue a (frame_number n) r s = Some s'"
      "heap_list (heap s') (Some r) (r # insort_key (id_of (heap s)) a rs)"
      "links_only s s' (insert a (set (r # rs)))"
      "output_head s' = output_head s"
      "size_output_work_queue s' = size_output_work_queue s + 1"
      "input_head s' = input_head s" "input_tail s' = input_tail s"
      "size_input_work_queue s' = size_input_work_queue s"
      using Cons.IH [OF l _ Cons.prems(3)] Cons.prems(2) by auto
    have c: "heap s' c = Some cn"
      using s'(3) d Cons.prems(2) cn by (auto simp: links_only_def)
    have "scan_output_work_queue a (frame_number n) c s = Some s'"
      using False cn rn s'(1) by (subst scan_output_work_queue.simps) simp
    moreover have "heap_list (heap s') (Some c) (c # insort_key (id_of (heap s)) a (r # rs))"
      using False c cn s'(2) rn Cons.prems(3) by simp
    moreover have "links_only s s' (insert a (set (c # r # rs)))"
      using s'(3) by (auto simp: links_only_def)
    ultimately show ?thesis
      using s' by simp
  qed
qed

lemma add_to_output_work_queue_refines:
  assumes q: "output_queue s ys" and a: "a \<notin> set ys" "detached (heap s) a"
  shows "\<exists>s'. add_to_output_work_queue a s = Some s'
         \<and> output_queue s' (insort_key (id_of (heap s)) a ys)
         \<and> links_only s s' (insert a (set ys))
         \<and> input_head s' = input_head s \<and> input_tail s' = input_tail s
         \<and> size_input_work_queue s' = size_input_work_queue s"
proof (cases ys)
  case Nil
  then show ?thesis
    using q a by (auto simp: output_queue_def add_to_output_work_queue_def detached_def
        links_only_def split: option.splits)
next
  case (Cons c rest)
  obtain n where n: "heap s a = Some n"
    using a(2) by (auto simp: detached_def split: option.splits)
  have l: "heap_list (heap s) (output_head s) (c # rest)" and oh: "output_head s = Some c"
    and sz: "size_output_work_queue s \<noteq> 0" "size_output_work_queue s = int (length ys)"
    using q by (auto simp: output_queue_def Cons)
  obtain cn where cn: "heap s c = Some cn"
    using l by auto
  show ?thesis
  proof (cases "frame_number n \<le> frame_number cn")
    case True
    have "heap_list ((heap s)(a \<mapsto> n\<lparr>next_node := Some c\<rparr>)) (Some a) (a # c # rest)"
      using l a(1) n by (simp add: Cons oh)
    then show ?thesis
      using True n cn oh sz a(1)
      by (auto simp: add_to_output_work_queue_def output_queue_def links_only_def Cons)
  next
    case False
    have l': "heap_list (heap s) (Some c) (c # rest)"
      using l oh by simp
    obtain s' where s': "scan_output_work_queue a (frame_number n) c s = Some s'"
      "heap_list (heap s') (Some c) (c # insort_key (id_of (heap s)) a rest)"
      "links_only s s' (insert a (set (c # rest)))"
      "output_head s' = output_head s"
      "size_output_work_queue s' = size_output_work_queue s + 1"
      "input_head s' = input_head s" "input_tail s' = input_tail s"
      "size_input_work_queue s' = size_input_work_queue s"
      using scan_output_work_queue_refines [OF l' _ n] a(1) by (auto simp: Cons)
    have "add_to_output_work_queue a s = Some s'"
      using False n cn oh sz s'(1) by (simp add: add_to_output_work_queue_def)
    moreover have "output_queue s' (insort_key (id_of (heap s)) a ys)"
      using False n cn s'(2,4,5) oh sz by (simp add: output_queue_def Cons)
    ultimately show ?thesis
      using s' by (simp add: Cons)
  qed
qed

lemma links_only_detached:
  "links_only s s' A \<Longrightarrow> detached (heap s) b \<Longrightarrow> b \<notin> A \<Longrightarrow> detached (heap s') b"
  by (simp add: links_only_def detached_def)

lemma links_only_heap_list:
  "links_only s s' A \<Longrightarrow> set as \<inter> A = {} \<Longrightarrow> heap_list (heap s') p as = heap_list (heap s) p as"
  by (rule heap_list_cong) (auto simp: links_only_def)

lemma input_queue_distinct: "input_queue s xs \<Longrightarrow> distinct xs"
  by (auto simp: input_queue_def dest: heap_list_distinct)

lemma output_queue_distinct: "output_queue s ys \<Longrightarrow> distinct ys"
  by (auto simp: output_queue_def dest: heap_list_distinct)

lemma input_queue_frame:
  assumes "input_queue s xs" "links_only s s' A" "set xs \<inter> A = {}"
    "input_head s' = input_head s" "input_tail s' = input_tail s"
    "size_input_work_queue s' = size_input_work_queue s"
  shows "input_queue s' xs"
  using assms links_only_heap_list [OF assms(2,3)] by (simp add: input_queue_def)

lemma output_queue_frame:
  assumes "output_queue s ys" "links_only s s' A" "set ys \<inter> A = {}"
    "output_head s' = output_head s"
    "size_output_work_queue s' = size_output_work_queue s"
  shows "output_queue s' ys"
  using assms links_only_heap_list [OF assms(2,3)] by (simp add: output_queue_def)

lemma exec_op_refines:
  assumes wf: "wf_queues s xs ys D"
    and sp: "spec_op (id_of (heap s)) x (xs, ys, D) = Some (r, (xs', ys', D'))"
  shows "\<exists>s'. exec_op x s = Some (r, s') \<and> wf_queues s' xs' ys' D'
           \<and> heap_data (heap s') = heap_data (heap s)"
proof (cases x)
  case (Add_input a)
  have a: "a \<in> D" and eq: "r = []" "xs' = xs @ [a]" "ys' = ys" "D' = D - {a}"
    using sp by (auto simp: Add_input split: if_splits)
  have q: "input_queue s xs" "a \<notin> set xs" "detached (heap s) a"
    using wf a by (auto simp: wf_queues_def)
  obtain s' where s': "add_to_input_work_queue a s = Some s'" "input_queue s' (xs @ [a])"
    "links_only s s' (set xs)" "output_head s' = output_head s"
    "size_output_work_queue s' = size_output_work_queue s"
    using add_to_input_work_queue_refines [OF q] by auto
  have "output_queue s' ys"
    using wf s' by (intro output_queue_frame [OF _ s'(3)]) (auto simp: wf_queues_def)
  moreover have "Ball (D - {a}) (detached (heap s'))"
    using wf links_only_detached [OF s'(3)] by (auto simp: wf_queues_def)
  ultimately have "wf_queues s' xs' ys' D'"
    using wf s'(2) a by (auto simp: wf_queues_def eq)
  then show ?thesis
    using s' by (auto simp: Add_input eq links_only_def)
next
  case (Add_output a)
  have a: "a \<in> D" and eq: "r = []" "xs' = xs" "ys' = insort_key (id_of (heap s)) a ys" "D' = D - {a}"
    using sp by (auto simp: Add_output split: if_splits)
  have q: "output_queue s ys" "a \<notin> set ys" "detached (heap s) a"
    using wf a by (auto simp: wf_queues_def)
  obtain s' where s': "add_to_output_work_queue a s = Some s'"
    "output_queue s' (insort_key (id_of (heap s)) a ys)"
    "links_only s s' (insert a (set ys))" "input_head s' = input_head s"
    "input_tail s' = input_tail s" "size_input_work_queue s' = size_input_work_queue s"
    using add_to_output_work_queue_refines [OF q] by auto
  have "input_queue s' xs"
    using wf s' a by (intro input_queue_frame [OF _ s'(3)]) (auto simp: wf_queues_def)
  moreover have "Ball (D - {a}) (detached (heap s'))"
    using wf links_only_detached [OF s'(3)] by (auto simp: wf_queues_def)
  ultimately have "wf_queues s' xs' ys' D'"
    using wf s'(2) a by (auto simp: wf_queues_def eq set_insort_key)
  then show ?thesis
    using s' by (auto simp: Add_output eq links_only_def)
next
  case Remove_input
  then obtain x0 where eq: "xs = x0 # xs'" "r = [x0]" "ys' = ys" "D' = insert x0 D"
    using sp by (auto split: list.splits)
  have q: "input_queue s (x0 # xs')"
    using wf by (simp add: wf_queues_def eq)
  obtain s' where s': "remove_from_input_work_queue s = Some (x0, s')" "input_queue s' xs'"
    "detached (heap s') x0" "links_only s s' {x0}" "output_head s' = output_head s"
    "size_output_work_queue s' = size_output_work_queue s"
    using remove_from_input_work_queue_refines [OF q] by auto
  have "output_queue s' ys"
    using wf s' by (intro output_queue_frame [OF _ s'(4)]) (auto simp: wf_queues_def eq)
  moreover have "Ball (insert x0 D) (detached (heap s'))"
    using wf links_only_detached [OF s'(4)] s'(3) by (auto simp: wf_queues_def eq)
  ultimately have "wf_queues s' xs' ys' D'"
    using wf s'(2) input_queue_distinct [OF q] by (auto simp: wf_queues_def eq)
  then show ?thesis
    using s' by (auto simp: Remove_input eq links_only_def)
next
  case Remove_output
  then obtain y0 where eq: "ys = y0 # ys'" "r = [y0]" "xs' = xs" "D' = insert y0 D"
    using sp by (auto split: list.splits)
  have q: "output_queue s (y0 # ys')"
    using wf by (simp add: wf_queues_def eq)
  obtain s' where s': "remove_from_output_work_queue s = Some (y0, s')" "output_queue s' ys'"
    "detached (heap s') y0" "links_only s s' {y0}" "input_head s' = input_head s"
    "input_tail s' = input_tail s" "size_input_work_queue s' = size_input_work_queue s"
    using remove_from_output_work_queue_refines [OF q] by auto
  have "input_queue s' xs"
    using wf s' by (intro input_queue_frame [OF _ s'(4)]) (auto simp: wf_queues_def eq)
  moreover have "Ball (insert y0 D) (detached (heap s'))"
    using wf links_only_detached [OF s'(4)] s'(3) by (auto simp: wf_queues_def eq)
  ultimately have "wf_queues s' xs' ys' D'"
    using wf s'(2) output_queue_distinct [OF q] by (auto simp: wf_queues_def eq)
  then show ?thesis
    using s' by (auto simp: Remove_output eq links_only_def)
qed

lemma run_ops_refines:
  assumes "wf_queues s xs ys D"
    and "spec_ops (id_of (heap s)) ops (xs, ys, D) = Some (out, (xs', ys', D'))"
  shows "\<exists>s'. run_ops ops s = Some (out, s') \<and> wf_queues s' xs' ys' D'
           \<and> heap_data (heap s') = heap_data (heap s)"
  using assms
proof (induction ops arbitrary: s xs ys D out)
  case Nil
  then show ?case by simp
next
  case (Cons x ops)
  from Cons.prems(2) obtain r c rs where
    1: "spec_op (id_of (heap s)) x (xs, ys, D) = Some (r, c)"
    and 2: "spec_ops (id_of (heap s)) ops c = Some (rs, (xs', ys', D'))" and out: "out = r @ rs"
    by (auto split: option.splits)
  obtain xs1 ys1 D1 where c: "c = (xs1, ys1, D1)"
    by (cases c)
  obtain s1 where s1: "exec_op x s = Some (r, s1)" "wf_queues s1 xs1 ys1 D1"
    "heap_data (heap s1) = heap_data (heap s)"
    using exec_op_refines [OF Cons.prems(1) 1 [unfolded c]] by auto
  have "id_of (heap s1) = id_of (heap s)"
    using s1(3) by (rule id_of_heap_data)
  then obtain s' where "run_ops ops s1 = Some (rs, s')" "wf_queues s' xs' ys' D'"
    "heap_data (heap s') = heap_data (heap s1)"
    using Cons.IH [OF s1(2), of rs] 2 by (auto simp: c)
  then show ?case
    using s1 by (simp add: out)
qed

section \<open>Sequences of operations\<close>

lemma spec_ops_append:
  "spec_ops idf (o1 @ o2) c =
     (case spec_ops idf o1 c of None \<Rightarrow> None
      | Some (r, c1) \<Rightarrow> map_option (\<lambda>(rs, c2). (r @ rs, c2)) (spec_ops idf o2 c1))"
proof (induction o1 arbitrary: c)
  case Nil
  show ?case by (simp add: option.map_ident case_prod_unfold flip: map_option.identity)
next
  case (Cons x o1)
  show ?case
    by (auto simp: Cons option.map_comp comp_def case_prod_unfold split: option.splits)
qed

lemma spec_ops_fifo:
  assumes "list_all is_input_op ops"
    and "spec_ops idf ops (xs, ys, D) = Some (out, (xs', ys', D'))"
  shows "out @ xs' = xs @ added_input ops \<and> ys' = ys"
  using assms
proof (induction ops arbitrary: xs D out)
  case Nil
  then show ?case by simp
next
  case (Cons x ops)
  show ?case
  proof (cases x)
    case (Add_input a)
    then show ?thesis
      using Cons.prems Cons.IH [of "xs @ [a]" "D - {a}" out]
      by (auto split: if_splits option.splits)
  next
    case Remove_input
    then show ?thesis
      using Cons.prems Cons.IH [of "tl xs" "insert (hd xs) D" "tl out"]
      by (auto split: list.splits option.splits)
  qed (use Cons.prems in simp_all)
qed

lemma spec_ops_sorted:
  assumes "sorted (map idf ys)"
    and "spec_ops idf ops (xs, ys, D) = Some (out, (xs', ys', D'))"
  shows "sorted (map idf ys')"
  using assms
proof (induction ops arbitrary: xs ys D out)
  case Nil
  then show ?case by simp
next
  case (Cons x ops)
  show ?case
  proof (cases x)
    case (Add_input a)
    then show ?thesis
      using Cons.prems Cons.IH [of ys "xs @ [a]" "D - {a}"]
      by (auto split: if_splits option.splits)
  next
    case (Add_output a)
    then show ?thesis
      using Cons.prems Cons.IH [of "insort_key idf a ys" xs "D - {a}"]
      by (auto simp: sorted_insort_key split: if_splits option.splits)
  next
    case Remove_input
    then show ?thesis
      using Cons.prems Cons.IH [of ys "tl xs" "insert (hd xs) D"]
      by (auto split: list.splits option.splits)
  next
    case Remove_output
    then show ?thesis
      using Cons.prems Cons.IH [of "tl ys" xs "insert (hd ys) D"]
      by (auto split: list.splits option.splits)
  qed
qed

lemma spec_ops_adds:
  "spec_ops idf (map Add_output as) (xs, ys, D) = Some (out, c)
     \<Longrightarrow> out = [] \<and> c = (xs, fold (insort_key idf) as ys, D - set as)"
proof (induction as arbitrary: ys D out)
  case Nil
  then show ?case by simp
next
  case (Cons a as)
  then show ?case
    using Cons.IH [of "insort_key idf a ys" "D - {a}" out]
    by (auto split: if_splits option.splits)
qed

lemma spec_ops_removes:
  "spec_ops idf (replicate n Remove_output) (xs, ys, D) = Some (out, c)
     \<Longrightarrow> n \<le> length ys \<and> out = take n ys"
proof (induction n arbitrary: ys D out)
  case 0
  then show ?case by simp
next
  case (Suc n)
  then show ?case
    using Suc.IH [of "tl ys" "insert (hd ys) D" "tl out"]
    by (auto split: list.splits option.splits)
qed

lemma fold_insort_key_sorted:
  "sorted (map idf ys) \<Longrightarrow> sorted (map idf (fold (insort_key idf) as ys))"
  by (induction as arbitrary: ys) (simp_all add: sorted_insort_key)

lemma fold_insort_key_mset:
  "mset (fold (insort_key idf) as ys) = mset as + mset ys"
  by (induction as arbitrary: ys) simp_all

lemma spec_ops_drain:
  assumes "spec_ops idf (map Add_output as @ replicate (length as) Remove_output) (xs, [], D)
     = Some (out, c)"
  shows "map idf out = sort (map idf as)"
proof -
  obtain r c1 rs where 1: "spec_ops idf (map Add_output as) (xs, [], D) = Some (r, c1)"
    and 2: "spec_ops idf (replicate (length as) Remove_output) c1 = Some (rs, c)"
    and out: "out = r @ rs"
    using assms by (auto simp: spec_ops_append split: option.splits)
  let ?ys = "fold (insort_key idf) as []"
  have r: "r = []" and c1: "c1 = (xs, ?ys, D - set as)"
    using spec_ops_adds [OF 1] by simp_all
  have len: "length ?ys = length as"
    using fold_insort_key_mset [of idf as "[]"] by (metis add.right_neutral mset.simps(1) size_mset)
  have "rs = take (length as) ?ys"
    using spec_ops_removes 2 [unfolded c1] by blast
  then have out': "out = ?ys"
    using len by (simp add: out r)
  have "sorted (map idf ?ys)"
    by (rule fold_insort_key_sorted) simp
  moreover have "mset (map idf ?ys) = mset (map idf as)"
    by (simp add: fold_insort_key_mset)
  ultimately have "sort (map idf as) = map idf ?ys"
    by (rule properties_for_sort [rotated])
  then show ?thesis
    by (simp add: out')
qed

lemma sorted_hd_Min:
  assumes "sorted (map idf ys)" "ys \<noteq> []"
  shows "idf (hd ys) = Min (idf ` set ys)"
proof -
  obtain y rest where ys: "ys = y # rest"
    using assms(2) by (cases ys) auto
  have "\<forall>z\<in>set rest. idf y \<le> idf z"
    using assms(1) by (simp add: ys)
  then have "Min (insert (idf y) (idf ` set rest)) = idf y"
    by (intro Min_eqI) auto
  then show ?thesis
    by (simp add: ys)
qed

lemma scan_output_work_queue_counter:
  "scan_output_work_queue a i c s = Some s'
     \<Longrightarrow> size_output_work_queue s' = size_output_work_queue s + 1
       \<and> size_input_work_queue s' = size_input_work_queue s"
proof (induction a i c s s' rule: scan_output_work_queue.raw_induct [rotated 1, consumes 1])
  case (1 scan a i c s s')
  then show ?case
    by (auto simp: set_next_def split: option.splits if_splits Option.bind_splits)
qed

lemma exec_op_counter:
  assumes "exec_op x s = Some (r, s')"
  shows "size_input_work_queue s' = size_input_work_queue s + fst (counter_change x)
       \<and> size_output_work_queue s' = size_output_work_queue s + snd (counter_change x)"
proof (cases x)
  case (Add_input a)
  then show ?thesis
    using assms
    by (auto simp: add_to_input_work_queue_def set_next_def deref_def
        split: option.splits if_splits Option.bind_splits)
next
  case (Add_output a)
  then show ?thesis
    using assms scan_output_work_queue_counter
    by (fastforce simp: add_to_output_work_queue_def set_next_def
        split: option.splits if_splits Option.bind_splits)
next
  case Remove_input
  then show ?thesis
    using assms
    by (auto simp: remove_from_input_work_queue_def set_next_def
        split: option.splits if_splits Option.bind_splits)
next
  case Remove_output
  then show ?thesis
    using assms
    by (auto simp: remove_from_output_work_queue_def set_next_def
        split: option.splits if_splits Option.bind_splits)
qed

section \<open>The claims about the queues\<close>

lemma wf_example_queues: "wf_queues example_queues [] [] {0, 1, 2}"
  by (simp add: wf_queues_def input_queue_def output_queue_def example_queues_def detached_def
      example_node_def)

lemma id_of_example_queues [simp]:
  "id_of (heap example_queues) 0 = 2" "id_of (heap example_queues) (Suc 0) = 0"
  "id_of (heap example_queues) 2 = 1"
  by (simp_all add: example_queues_def id_of_def example_node_def)

text \<open>
  Claim C6. The input queue is first-in first-out. On queues in a well-formed state,
  \<^verbatim>\<open>add_to_input_work_queue\<close> of a detached node appends it after the last node,
  \<^verbatim>\<open>remove_from_input_work_queue\<close> on a non-empty queue returns the first node and
  leaves the rest, and over every sequence of adds and removes that respects these
  preconditions the nodes come out in the order they went in: the nodes removed followed
  by the nodes still queued are the nodes queued at the start followed by the nodes added.
\<close>

theorem input_work_queue_fifo:
  assumes "wf_queues s xs ys D"
  shows "(\<forall>a\<in>D. \<exists>s'. add_to_input_work_queue a s = Some s' \<and> input_queue s' (xs @ [a]))
       \<and> (xs \<noteq> [] \<longrightarrow>
            (\<exists>s'. remove_from_input_work_queue s = Some (hd xs, s') \<and> input_queue s' (tl xs)))
       \<and> (list_all is_input_op ops
            \<and> spec_ops (id_of (heap s)) ops (xs, ys, D) = Some (out, (xs', ys', D')) \<longrightarrow>
            (\<exists>s'. run_ops ops s = Some (out, s') \<and> input_queue s' xs'
               \<and> out @ xs' = xs @ added_input ops))"
proof (intro conjI ballI impI)
  fix a
  assume "a \<in> D"
  then have "a \<notin> set xs" "detached (heap s) a" "input_queue s xs"
    using assms by (auto simp: wf_queues_def)
  then show "\<exists>s'. add_to_input_work_queue a s = Some s' \<and> input_queue s' (xs @ [a])"
    using add_to_input_work_queue_refines [of s xs a] by blast
next
  assume "xs \<noteq> []"
  then have "input_queue s (hd xs # tl xs)"
    using assms by (simp add: wf_queues_def)
  then show "\<exists>s'. remove_from_input_work_queue s = Some (hd xs, s') \<and> input_queue s' (tl xs)"
    using remove_from_input_work_queue_refines [of s "hd xs" "tl xs"] by blast
next
  assume a: "list_all is_input_op ops
    \<and> spec_ops (id_of (heap s)) ops (xs, ys, D) = Some (out, (xs', ys', D'))"
  then obtain s' where "run_ops ops s = Some (out, s')" "wf_queues s' xs' ys' D'"
    using run_ops_refines [OF assms, of ops out xs' ys' D'] by auto
  moreover have "out @ xs' = xs @ added_input ops"
    using spec_ops_fifo [of ops] a by blast
  ultimately show "\<exists>s'. run_ops ops s = Some (out, s') \<and> input_queue s' xs'
      \<and> out @ xs' = xs @ added_input ops"
    by (auto simp: wf_queues_def)
qed

theorem input_work_queue_fifo_witness:
  "wf_queues example_queues [] [] {0, 1, 2}
   \<and> (\<exists>s'. add_to_input_work_queue 1 example_queues = Some s' \<and> input_queue s' [1])
   \<and> (\<exists>s'. run_ops [Add_input 0, Add_input 1, Remove_input, Add_input 2, Remove_input, Remove_input]
              example_queues = Some ([0, 1, 2], s') \<and> input_queue s' [])"
proof -
  have sp: "spec_ops (id_of (heap example_queues))
      [Add_input 0, Add_input 1, Remove_input, Add_input 2, Remove_input, Remove_input]
      ([], [], {0, 1, 2}) = Some ([0, 1, 2], ([], [], {0, 1, 2}))"
    by auto
  show ?thesis
    using input_work_queue_fifo [OF wf_example_queues,
        of "[Add_input 0, Add_input 1, Remove_input, Add_input 2, Remove_input, Remove_input]"
        "[0, 1, 2]" "[]" "[]" "{0, 1, 2}"] sp wf_example_queues
    by simp
qed

lemma spec_op_lengths:
  assumes "spec_op idf x (xs, ys, D) = Some (r, (xs', ys', D'))"
  shows "length xs' \<le> Suc (length xs) \<and> length ys' \<le> Suc (length ys)"
  using assms by (cases x) (auto split: if_splits list.splits)

lemma spec_ops_lengths:
  assumes "spec_ops idf ops (xs, ys, D) = Some (out, (xs', ys', D'))"
  shows "length xs' \<le> length xs + length ops \<and> length ys' \<le> length ys + length ops"
  using assms
proof (induction ops arbitrary: xs ys D out)
  case Nil
  then show ?case by simp
next
  case (Cons x ops)
  from Cons.prems obtain r xs1 ys1 D1 rs where
    1: "spec_op idf x (xs, ys, D) = Some (r, (xs1, ys1, D1))"
    and 2: "spec_ops idf ops (xs1, ys1, D1) = Some (rs, (xs', ys', D'))"
    by (auto split: option.splits)
  show ?case
    using spec_op_lengths [OF 1] Cons.IH [OF 2] by simp
qed

lemma spec_ops_take:
  assumes "spec_ops idf ops c = Some (out, c')"
  shows "\<exists>r c1. spec_ops idf (take k ops) c = Some (r, c1)"
proof -
  have "spec_ops idf (take k ops @ drop k ops) c = Some (out, c')"
    using assms by simp
  then show ?thesis
    unfolding spec_ops_append by (auto split: option.splits)
qed

lemma run_ops_counters_in_range:
  assumes wf: "wf_queues s xs ys D"
    and sp: "spec_ops (id_of (heap s)) ops (xs, ys, D) = Some (out, c')"
    and bx: "int (length xs) + int (length ops) \<le> 2147483647"
    and ly: "int (length ys) + int (length ops) \<le> 2147483647"
  shows "\<exists>r t. run_ops (take k ops) s = Some (r, t)
           \<and> c_int_range (size_input_work_queue t) \<and> c_int_range (size_output_work_queue t)"
proof -
  obtain r xs1 ys1 D1 where
    1: "spec_ops (id_of (heap s)) (take k ops) (xs, ys, D) = Some (r, (xs1, ys1, D1))"
    using spec_ops_take [OF sp, of k] by (metis prod_cases3)
  obtain t where t: "run_ops (take k ops) s = Some (r, t)" "wf_queues t xs1 ys1 D1"
    using run_ops_refines [OF wf 1] by auto
  have "length xs1 \<le> length xs + length (take k ops)" "length ys1 \<le> length ys + length (take k ops)"
    using spec_ops_lengths [OF 1] by simp_all
  then have "int (length xs1) \<le> 2147483647" "int (length ys1) \<le> 2147483647"
    using bx ly by simp_all
  then have "c_int_range (size_input_work_queue t) \<and> c_int_range (size_output_work_queue t)"
    using t(2) by (simp add: c_int_range_def wf_queues_def input_queue_def output_queue_def)
  then show ?thesis
    using t(1) by blast
qed

text \<open>
  Claim C10. The size counters are the numbers of nodes in the lists, as long as the
  counters stay values of the type \<^verbatim>\<open>int\<close>. From a well-formed state, over every
  sequence of the four queue functions used within their preconditions, and with lists
  short enough that neither counter can pass 2147483647 during the sequence: the run
  succeeds, the nodes reachable from \<open>input_head\<close> are the expected sequence and
  \<open>size_input_work_queue\<close> is its length, and likewise for \<open>output_head\<close> and
  \<open>size_output_work_queue\<close>; after every prefix of the sequence both counters are
  values of the type. Whenever one of the functions returns and the counters before and
  after are values of the type, an add has moved its own counter up by one, a remove has
  moved it down by one, and the other counter is unchanged.
\<close>

theorem size_counters_count_nodes:
  assumes "wf_queues s xs ys D"
    and "spec_ops (id_of (heap s)) ops (xs, ys, D) = Some (out, (xs', ys', D'))"
    and "int (length xs) + int (length ops) \<le> 2147483647"
    and "int (length ys) + int (length ops) \<le> 2147483647"
  shows "(\<exists>s'. run_ops ops s = Some (out, s')
            \<and> heap_list (heap s') (input_head s') xs'
            \<and> size_input_work_queue s' = int (length xs')
            \<and> heap_list (heap s') (output_head s') ys'
            \<and> size_output_work_queue s' = int (length ys'))
       \<and> (\<forall>k\<le>length ops. \<exists>r t. run_ops (take k ops) s = Some (r, t)
            \<and> c_int_range (size_input_work_queue t) \<and> c_int_range (size_output_work_queue t))
       \<and> (\<forall>x t r t'. exec_op x t = Some (r, t')
              \<and> c_int_range (size_input_work_queue t) \<and> c_int_range (size_output_work_queue t)
              \<and> c_int_range (size_input_work_queue t + fst (counter_change x))
              \<and> c_int_range (size_output_work_queue t + snd (counter_change x)) \<longrightarrow>
            size_input_work_queue t' = size_input_work_queue t + fst (counter_change x)
            \<and> size_output_work_queue t' = size_output_work_queue t + snd (counter_change x)
            \<and> c_int_range (size_input_work_queue t') \<and> c_int_range (size_output_work_queue t'))"
proof -
  obtain s' where "run_ops ops s = Some (out, s')" "wf_queues s' xs' ys' D'"
    using run_ops_refines [OF assms(1,2)] by auto
  then have "\<exists>s'. run_ops ops s = Some (out, s')
            \<and> heap_list (heap s') (input_head s') xs'
            \<and> size_input_work_queue s' = int (length xs')
            \<and> heap_list (heap s') (output_head s') ys'
            \<and> size_output_work_queue s' = int (length ys')"
    by (auto simp: wf_queues_def input_queue_def output_queue_def)
  moreover have "\<forall>k\<le>length ops. \<exists>r t. run_ops (take k ops) s = Some (r, t)
            \<and> c_int_range (size_input_work_queue t) \<and> c_int_range (size_output_work_queue t)"
    using run_ops_counters_in_range [OF assms] by blast
  moreover have "size_input_work_queue t' = size_input_work_queue t + fst (counter_change x)
            \<and> size_output_work_queue t' = size_output_work_queue t + snd (counter_change x)
            \<and> c_int_range (size_input_work_queue t') \<and> c_int_range (size_output_work_queue t')"
    if "exec_op x t = Some (r, t')"
      "c_int_range (size_input_work_queue t + fst (counter_change x))"
      "c_int_range (size_output_work_queue t + snd (counter_change x))" for x t r t'
    using exec_op_counter [OF that(1)] that(2,3) by simp
  ultimately show ?thesis
    by blast
qed

theorem size_counters_count_nodes_witness:
  "(\<exists>s'. run_ops [Add_input 0, Add_input 1, Remove_input, Add_output 0, Add_input 2,
              Remove_input, Add_output 1] example_queues = Some ([0, 1], s')
       \<and> heap_list (heap s') (input_head s') [2] \<and> size_input_work_queue s' = 1
       \<and> heap_list (heap s') (output_head s') [1, 0] \<and> size_output_work_queue s' = 2)
   \<and> (\<exists>r t. run_ops (take 3 [Add_input 0, Add_input 1, Remove_input, Add_output 0, Add_input 2,
              Remove_input, Add_output 1]) example_queues = Some (r, t)
         \<and> c_int_range (size_input_work_queue t) \<and> c_int_range (size_output_work_queue t))
   \<and> (\<exists>t'. exec_op (Add_input 0) example_queues = Some ([], t')
         \<and> size_input_work_queue t' = 1 \<and> size_output_work_queue t' = 0)"
proof -
  have sp: "spec_ops (id_of (heap example_queues))
      [Add_input 0, Add_input 1, Remove_input, Add_output 0, Add_input 2, Remove_input,
       Add_output 1]
      ([], [], {0, 1, 2}) = Some ([0, 1], ([2], [1, 0], {}))"
    by auto
  have ex: "\<exists>t'. exec_op (Add_input 0) example_queues = Some ([], t')"
    by (simp add: add_to_input_work_queue_def example_queues_def)
  have sz: "size_input_work_queue example_queues = 0" "size_output_work_queue example_queues = 0"
    by (simp_all add: example_queues_def)
  have b: "int (length ([] :: addr list)) + int (length [Add_input 0, Add_input 1, Remove_input,
      Add_output 0, Add_input 2, Remove_input, Add_output (1::nat)]) \<le> 2147483647"
    by simp
  note inst = size_counters_count_nodes [OF wf_example_queues sp b b]
  have 1: "\<exists>s'. run_ops [Add_input 0, Add_input 1, Remove_input, Add_output 0, Add_input 2,
              Remove_input, Add_output 1] example_queues = Some ([0, 1], s')
       \<and> heap_list (heap s') (input_head s') [2] \<and> size_input_work_queue s' = 1
       \<and> heap_list (heap s') (output_head s') [1, 0] \<and> size_output_work_queue s' = 2"
    using inst [THEN conjunct1] by (simp del: run_ops.simps)
  have 2: "\<exists>r t. run_ops (take 3 [Add_input 0, Add_input 1, Remove_input, Add_output 0, Add_input 2,
              Remove_input, Add_output 1]) example_queues = Some (r, t)
         \<and> c_int_range (size_input_work_queue t) \<and> c_int_range (size_output_work_queue t)"
    using inst [THEN conjunct2, THEN conjunct1, THEN spec, of 3]
    by (simp del: run_ops.simps take_Cons_numeral)
  obtain t' where t': "exec_op (Add_input 0) example_queues = Some ([], t')"
    using ex by blast
  have "size_input_work_queue t' = 1 \<and> size_output_work_queue t' = 0"
    using inst [THEN conjunct2, THEN conjunct2, THEN spec, THEN spec, THEN spec, THEN spec,
        of "Add_input 0" example_queues "[]" t'] t' sz
    by (simp add: c_int_range_def del: exec_op.simps)
  then show ?thesis
    using 1 2 t' by blast
qed

text \<open>
  Claim C4. The output queue is kept in ascending order of frame number.
  \<^verbatim>\<open>add_to_output_work_queue\<close> puts a detached node where the scan from the head first
  meets a frame number that is not smaller (\<open>insort_key\<close>); over every sequence of the
  queue functions used within their preconditions a sorted queue stays sorted and its
  head carries the least frame number present; and nodes added to an empty output queue
  in any order and then removed from the head come out in ascending order of frame
  number. The nodes numbered 2, 0, 1 in the witness come out as 0, 1, 2.
\<close>

theorem output_work_queue_sorted:
  assumes "wf_queues s xs ys D" and "sorted (map (id_of (heap s)) ys)"
    and "spec_ops (id_of (heap s)) ops (xs, ys, D) = Some (out, (xs', ys', D'))"
  shows "(\<forall>a\<in>D. \<exists>s'. add_to_output_work_queue a s = Some s'
            \<and> output_queue s' (insort_key (id_of (heap s)) a ys))
       \<and> (\<exists>s'. run_ops ops s = Some (out, s') \<and> output_queue s' ys'
            \<and> sorted (map (id_of (heap s')) ys')
            \<and> (ys' \<noteq> [] \<longrightarrow> output_head s' = Some (hd ys')
                 \<and> get_head_id_from_output_work_queue s' = Some (Min (id_of (heap s') ` set ys'))))
       \<and> (ys = [] \<and> ops = map Add_output as @ replicate (length as) Remove_output \<longrightarrow>
            map (id_of (heap s)) out = sort (map (id_of (heap s)) as))"
proof (intro conjI ballI impI)
  fix a
  assume "a \<in> D"
  then have "a \<notin> set ys" "detached (heap s) a" "output_queue s ys"
    using assms(1) by (auto simp: wf_queues_def)
  then show "\<exists>s'. add_to_output_work_queue a s = Some s'
      \<and> output_queue s' (insort_key (id_of (heap s)) a ys)"
    using add_to_output_work_queue_refines [of s ys a] by blast
next
  obtain s' where s': "run_ops ops s = Some (out, s')" "wf_queues s' xs' ys' D'"
    "heap_data (heap s') = heap_data (heap s)"
    using run_ops_refines [OF assms(1,3)] by auto
  have ids: "id_of (heap s') = id_of (heap s)"
    using s'(3) by (rule id_of_heap_data)
  have q: "output_queue s' ys'"
    using s'(2) by (simp add: wf_queues_def)
  have srt: "sorted (map (id_of (heap s')) ys')"
    using spec_ops_sorted [OF assms(2,3)] by (simp add: ids)
  have "output_head s' = Some (hd ys')
      \<and> get_head_id_from_output_work_queue s' = Some (Min (id_of (heap s') ` set ys'))"
    if ne: "ys' \<noteq> []"
  proof -
    obtain y rest where ys': "ys' = y # rest"
      using ne by (cases ys') auto
    obtain n where n: "output_head s' = Some y" "heap s' y = Some n"
      using q by (auto simp: output_queue_def ys')
    have "id_of (heap s') (hd ys') = Min (id_of (heap s') ` set ys')"
      using srt ne by (rule sorted_hd_Min)
    then show ?thesis
      using n by (simp add: get_head_id_from_output_work_queue_def deref_def ys')
  qed
  then show "\<exists>s'. run_ops ops s = Some (out, s') \<and> output_queue s' ys'
            \<and> sorted (map (id_of (heap s')) ys')
            \<and> (ys' \<noteq> [] \<longrightarrow> output_head s' = Some (hd ys')
                 \<and> get_head_id_from_output_work_queue s' = Some (Min (id_of (heap s') ` set ys')))"
    using s'(1) q srt by blast
next
  assume "ys = [] \<and> ops = map Add_output as @ replicate (length as) Remove_output"
  then show "map (id_of (heap s)) out = sort (map (id_of (heap s)) as)"
    using assms(3) spec_ops_drain [of "id_of (heap s)" as xs D out] by simp
qed

theorem output_work_queue_sorted_witness:
  "(\<exists>s'. add_to_output_work_queue 2 example_queues = Some s' \<and> output_queue s' [2])
   \<and> (\<exists>s'. run_ops [Add_output 0, Add_output 1, Add_output 2,
                Remove_output, Remove_output, Remove_output] example_queues
            = Some ([1, 2, 0], s'))
   \<and> map (id_of (heap example_queues)) [1, 2, 0] = [0, 1, 2]"
proof -
  have sp: "spec_ops (id_of (heap example_queues))
      [Add_output 0, Add_output 1, Add_output 2, Remove_output, Remove_output, Remove_output]
      ([], [], {0, 1, 2}) = Some ([1, 2, 0], ([], [], {0, 1, 2}))"
    by auto
  have srt: "sorted (map (id_of (heap example_queues)) [])"
    by simp
  show ?thesis
    using output_work_queue_sorted [OF wf_example_queues srt sp, of "[0, 1, 2]"]
    by (simp del: run_ops.simps, blast)
qed

section \<open>The flow invariant under the operations of a pipeline\<close>

lemma id_of_ident: "id_of h = ident (heap_data h)"
  by (rule ext) (simp add: id_of_def ident_def heap_data_def node_data_def split: option.splits)

lemma ident_upd [simp]: "ident (d(a \<mapsto> x)) b = (if b = a then fst (snd x) else ident d b)"
  by (simp add: ident_def)

lemma terminal_upd [simp]: "terminal (d(a \<mapsto> x)) b = (if b = a then snd (snd x) else terminal d b)"
  by (simp add: terminal_def)

lemma ident_items [simp]:
  "d a = Some (raw_item fs j) \<Longrightarrow> ident d a = int j + 1"
  "d a = Some (done_item process fs j) \<Longrightarrow> ident d a = int j + 1"
  "d a = Some (sentinel_item fs) \<Longrightarrow> ident d a = int (length fs) + 1"
  by (simp_all add: ident_def raw_item_def done_item_def sentinel_item_def)

lemma terminal_items [simp]:
  "d a = Some (raw_item fs j) \<Longrightarrow> \<not> terminal d a"
  "d a = Some (done_item process fs j) \<Longrightarrow> \<not> terminal d a"
  "d a = Some (sentinel_item fs) \<Longrightarrow> terminal d a"
  by (simp_all add: terminal_def raw_item_def done_item_def sentinel_item_def)

lemma heap_data_new_node [simp]:
  "heap_data (heap (new_node a fr i l q)) = (heap_data (heap q))(a \<mapsto> (fr, i, l))"
  by (rule ext) (simp add: heap_data_def new_node_def node_data_def)

lemma wf_queues_new_node:
  assumes "wf_queues q xs ys D" "heap q a = None"
  shows "wf_queues (new_node a fr i l q) xs ys (insert a D)"
proof -
  have a: "a \<notin> set xs \<union> set ys \<union> D"
    using assms heap_list_allocated [of "heap q" _ _ a]
    by (auto simp: wf_queues_def input_queue_def output_queue_def detached_def)
  have "heap_list (heap (new_node a fr i l q)) p as = heap_list (heap q) p as" if "a \<notin> set as" for p as
    using that by (simp add: new_node_def)
  then show ?thesis
    using assms a
    by (auto simp: wf_queues_def input_queue_def output_queue_def detached_def new_node_def)
qed


lemma dom_heap_data [simp]: "dom (heap_data h) = dom h"
  by (auto simp: heap_data_def)

lemma frames_in_cong: "(\<And>a. a \<in> A \<Longrightarrow> d' a = d a) \<Longrightarrow> frames_in d' A = frames_in d A"
  by (auto simp: frames_in_def terminal_def)

lemma ident_cong: "d' a = d a \<Longrightarrow> ident d' a = ident d a"
  by (simp add: ident_def)

lemma terminal_cong: "d' a = d a \<Longrightarrow> terminal d' a = terminal d a"
  by (simp add: terminal_def)

lemma flow_nodes_cong:
  assumes "\<And>a. a \<in> R \<union> Dn \<union> set ys \<union> E \<Longrightarrow> d' a = d a"
  shows "flow_nodes process fs d' ys R Dn E = flow_nodes process fs d ys R Dn E"
  using assms terminal_cong [of d' _ d] by (auto simp: flow_nodes_def)

lemma frames_in_cong':
  "(\<And>a. a \<in> A \<Longrightarrow> terminal d' a = terminal d a) \<Longrightarrow> frames_in d' A = frames_in d A"
  by (auto simp: frames_in_def)

lemma flow_order_cong:
  assumes "\<And>a. a \<in> set ys \<union> E \<Longrightarrow> ident d' a = ident d a"
  shows "flow_order d' ys E k = flow_order d ys E k"
proof -
  have 1: "map (ident d') ys = map (ident d) ys"
    using assms by auto
  have 2: "(\<forall>a\<in>E. ident d' a = int k + 1) = (\<forall>a\<in>E. ident d a = int k + 1)"
    using assms by auto
  show ?thesis
    by (simp only: flow_order_def 1 2)
qed

lemma flow_frames_cong:
  assumes "\<And>a. a \<in> R \<union> Dn \<union> set ys \<union> E \<Longrightarrow> ident d' a = ident d a \<and> terminal d' a = terminal d a"
  shows "flow_frames d' ys R Dn E k P = flow_frames d ys R Dn E k P"
proof -
  let ?A = "R \<union> Dn \<union> set ys \<union> E"
  have F: "frames_in d' ?A = frames_in d ?A"
    using assms by (intro frames_in_cong') blast
  have i: "ident d' a = ident d a" if "a \<in> frames_in d ?A" for a
    using that assms by (auto simp: frames_in_def)
  have "inj_on (ident d') (frames_in d ?A) = inj_on (ident d) (frames_in d ?A)"
    using i by (auto simp: inj_on_def)
  moreover have "ident d' ` frames_in d ?A = ident d ` frames_in d ?A"
    using i by (auto simp: image_iff)
  ultimately show ?thesis
    by (simp add: flow_frames_def F)
qed

lemma flow_transformed_cong:
  assumes "\<And>a. a \<in> R \<Longrightarrow> ident d' a = ident d a \<and> terminal d' a = terminal d a"
  shows "flow_transformed d' tr R P = flow_transformed d tr R P"
proof -
  have F: "frames_in d' R = frames_in d R"
    using assms by (intro frames_in_cong') blast
  have "ident d' ` frames_in d R = ident d ` frames_in d R"
    using assms by (auto simp: image_iff frames_in_def)
  then show ?thesis
    by (simp add: flow_transformed_def F)
qed

lemma flow_input_upd:
  assumes "a \<notin> set xs"
  shows "flow_input fs (d(a := v)) xs P K S C = flow_input fs d xs P K S C"
proof -
  have m: "map (d(a := v)) xs = map d xs"
    using assms by simp
  show ?thesis
    unfolding flow_input_def m ..
qed

lemma flow_nodes_upd:
  "a \<notin> R \<union> Dn \<union> set ys \<union> E
     \<Longrightarrow> flow_nodes process fs (d(a := v)) ys R Dn E = flow_nodes process fs d ys R Dn E"
  by (rule flow_nodes_cong) auto

lemma flow_order_upd:
  "a \<notin> set ys \<union> E \<Longrightarrow> flow_order (d(a := v)) ys E k = flow_order d ys E k"
  by (rule flow_order_cong) (auto intro: ident_cong)

lemma flow_frames_upd:
  "a \<notin> R \<union> Dn \<union> set ys \<union> E
     \<Longrightarrow> flow_frames (d(a := v)) ys R Dn E k P = flow_frames d ys R Dn E k P"
  by (rule flow_frames_cong) (auto simp: ident_def terminal_def)

lemma flow_transformed_upd:
  "a \<notin> R \<Longrightarrow> flow_transformed (d(a := v)) tr R P = flow_transformed d tr R P"
  by (rule flow_transformed_cong) (auto simp: ident_def terminal_def)

lemma wf_queues_allocated:
  "wf_queues q xs ys D \<Longrightarrow> a \<in> set xs \<union> set ys \<union> D \<Longrightarrow> heap q a \<noteq> None"
  using heap_list_allocated [of "heap q" _ _ a]
  by (auto simp: wf_queues_def input_queue_def output_queue_def detached_def split: option.splits)

lemma add_input_new_node:
  assumes wf: "wf_queues q xs ys D" and fresh: "heap q a = None"
  shows "\<exists>q'. add_to_input_work_queue a (new_node a fr i l q) = Some q'
           \<and> wf_queues q' (xs @ [a]) ys D
           \<and> heap_data (heap q') = (heap_data (heap q))(a \<mapsto> (fr, i, l))
           \<and> a \<notin> set xs \<union> set ys \<union> D"
proof -
  have a: "a \<notin> set xs \<union> set ys \<union> D"
    using wf_queues_allocated [OF wf, of a] fresh by blast
  have wf1: "wf_queues (new_node a fr i l q) xs ys (insert a D)"
    using wf fresh by (rule wf_queues_new_node)
  have "spec_op (id_of (heap (new_node a fr i l q))) (Add_input a) (xs, ys, insert a D)
      = Some ([], (xs @ [a], ys, D))"
    using a by simp
  from exec_op_refines [OF wf1 this] show ?thesis
    using a by auto
qed

lemma flow_push_frame:
  assumes f: "flow_at process fs s R Dn E 0 xs ys P S K k"
    and cap: "capture s = img # rest" and fresh: "heap (queues s) a = None"
  shows "\<exists>q'. add_to_input_work_queue a (new_node a (Some img) (int K + 1) False (queues s)) = Some q'
           \<and> heap_data (heap q') = (heap_data (heap (queues s)))(a \<mapsto> raw_item fs K)
           \<and> flow_at process fs
                (s\<lparr>capture := rest, queues := q', enqueued := enqueued s @ [(int K + 1, False)]\<rparr>)
                R Dn E 0 (xs @ [a]) ys P 0 (Suc K) k"
proof -
  let ?d = "heap_data (heap (queues s))"
  let ?d' = "?d(a \<mapsto> raw_item fs K)"
  have wf: "wf_queues (queues s) xs ys (R \<union> Dn \<union> E)"
    using f by (simp add: flow_at_def flow_wf_def)
  have capd: "capture s = drop K fs" and KM: "K \<le> length fs"
    using f by (simp_all add: flow_at_def flow_input_def)
  have K: "K < length fs"
    using capd cap KM by (cases "K = length fs") auto
  have img: "img = fs ! K" and rest: "rest = drop (Suc K) fs"
    using capd cap K by (metis Cons_nth_drop_Suc list.inject)+
  have it: "(Some img, int K + 1, False) = raw_item fs K"
    by (simp add: raw_item_def img)
  obtain q' where q': "add_to_input_work_queue a (new_node a (Some img) (int K + 1) False (queues s)) = Some q'"
    "wf_queues q' (xs @ [a]) ys (R \<union> Dn \<union> E)"
    "heap_data (heap q') = ?d'"
    "a \<notin> set xs \<union> set ys \<union> (R \<union> Dn \<union> E)"
    using add_input_new_node [OF wf fresh, of "Some img" "int K + 1" False] unfolding it by blast
  have S: "S = 0"
    using f by (simp add: flow_at_def flow_input_def)
  have a: "a \<notin> R \<union> Dn \<union> set ys \<union> E" "a \<notin> set ys \<union> E" "a \<notin> R"
    using q'(4) by auto
  have 1: "flow_wf q' (xs @ [a]) ys R Dn E"
    using f q'(2,3) by (auto simp: flow_at_def flow_wf_def simp flip: dom_heap_data)
  have mx: "map ?d' xs = map ?d xs"
    using q'(4) by simp
  have inp: "map ?d xs = map (\<lambda>j. Some (raw_item fs j)) [P..<K]" "P \<le> K"
    using f by (simp_all add: flow_at_def flow_input_def S)
  have "map ?d' (xs @ [a]) = map ?d' xs @ [Some (raw_item fs K)]"
    by simp
  also have "\<dots> = map (\<lambda>j. Some (raw_item fs j)) [P..<Suc K]"
    unfolding mx inp(1) using inp(2) by simp
  finally have 2: "flow_input fs ?d' (xs @ [a]) P (Suc K) 0 0"
    using K inp(2) by (simp add: flow_input_def)
  have 3: "flow_log fs (dequeued s) P 0 0"
    using f by (simp add: flow_at_def flow_log_def S)
  have 8: "flow_sent fs (enqueued s @ [(int K + 1, False)]) (Suc K) 0"
    using f by (simp add: flow_at_def flow_sent_def)
  have 9: "flow_payload ?d'"
    using f by (simp add: flow_at_def flow_payload_def raw_item_def)
  show ?thesis
    using f 1 2 3 8 9 q'(1,3) rest
    by (simp add: flow_at_def flow_nodes_upd [OF a(1)] flow_order_upd [OF a(2)]
        flow_frames_upd [OF a(1)] flow_transformed_upd [OF a(3)])
qed


lemma flow_push_sentinel:
  assumes f: "flow_at process fs s R Dn E C xs ys P S K k"
    and cap: "capture s = []" and fresh: "heap (queues s) a = None"
  shows "\<exists>q'. add_to_input_work_queue a
                (new_node a None (int (length fs) + 1) True (queues s)) = Some q'
           \<and> heap_data (heap q') = (heap_data (heap (queues s)))(a \<mapsto> sentinel_item fs)
           \<and> flow_at process fs
                (s\<lparr>queues := q', enqueued := enqueued s @ [(int (length fs) + 1, True)]\<rparr>)
                R Dn E (Suc C) (xs @ [a]) ys P (Suc S) K k"
proof -
  let ?d = "heap_data (heap (queues s))"
  let ?d' = "?d(a \<mapsto> sentinel_item fs)"
  have wf: "wf_queues (queues s) xs ys (R \<union> Dn \<union> E)"
    using f by (simp add: flow_at_def flow_wf_def)
  have K: "K = length fs"
    using f cap by (simp add: flow_at_def flow_input_def)
  have it: "(None, int (length fs) + 1, True) = sentinel_item fs"
    by (simp add: sentinel_item_def)
  obtain q' where q': "add_to_input_work_queue a
      (new_node a None (int (length fs) + 1) True (queues s)) = Some q'"
    "wf_queues q' (xs @ [a]) ys (R \<union> Dn \<union> E)"
    "heap_data (heap q') = ?d'"
    "a \<notin> set xs \<union> set ys \<union> (R \<union> Dn \<union> E)"
    using add_input_new_node [OF wf fresh, of None "int (length fs) + 1" True] unfolding it
    by blast
  have a: "a \<notin> R \<union> Dn \<union> set ys \<union> E" "a \<notin> set ys \<union> E" "a \<notin> R"
    using q'(4) by auto
  have 1: "flow_wf q' (xs @ [a]) ys R Dn E"
    using f q'(2,3) by (auto simp: flow_at_def flow_wf_def simp flip: dom_heap_data)
  have mx: "map ?d' xs = map ?d xs"
    using q'(4) by simp
  have inp: "map ?d xs = map (\<lambda>j. Some (raw_item fs j)) [P..<K]
      @ replicate S (Some (sentinel_item fs))" "P \<le> K" "S \<le> C" "P < K \<longrightarrow> S = C"
    using f by (simp_all add: flow_at_def flow_input_def)
  have "map ?d' (xs @ [a]) = map ?d' xs @ [Some (sentinel_item fs)]"
    by simp
  also have "\<dots> = map (\<lambda>j. Some (raw_item fs j)) [P..<K]
      @ replicate (Suc S) (Some (sentinel_item fs))"
    unfolding mx inp(1) by (simp add: replicate_append_same)
  finally have 2: "flow_input fs ?d' (xs @ [a]) P K (Suc S) (Suc C)"
    using K inp(2,3,4) by (simp add: flow_input_def)
  have 3: "flow_log fs (dequeued s) P (Suc S) (Suc C)"
    using f by (simp add: flow_at_def flow_log_def)
  have 8: "flow_sent fs (enqueued s @ [(int (length fs) + 1, True)]) K (Suc C)"
    using f by (simp add: flow_at_def flow_sent_def replicate_append_same)
  have 9: "flow_payload ?d'"
    using f by (simp add: flow_at_def flow_payload_def sentinel_item_def)
  show ?thesis
    using f 1 2 3 8 9 q'(1,3)
    by (simp add: flow_at_def flow_nodes_upd [OF a(1)] flow_order_upd [OF a(2)]
        flow_frames_upd [OF a(1)] flow_transformed_upd [OF a(3)])
qed

lemma remove_input_flow:
  assumes wf: "wf_queues q (x # xs) ys D"
  shows "\<exists>q'. remove_from_input_work_queue q = Some (x, q')
           \<and> wf_queues q' xs ys (insert x D)
           \<and> heap_data (heap q') = heap_data (heap q) \<and> x \<notin> D"
proof -
  have "spec_op (id_of (heap q)) Remove_input (x # xs, ys, D) = Some ([x], (xs, ys, insert x D))"
    by simp
  from exec_op_refines [OF wf this] show ?thesis
    using wf by (auto simp: wf_queues_def)
qed

lemma input_queue_nonempty:
  "input_queue q xs \<Longrightarrow> size_input_work_queue q \<noteq> 0 \<Longrightarrow> xs \<noteq> []"
  by (auto simp: input_queue_def)

lemma frames_in_insert:
  "frames_in d (insert a A) = (if terminal d a then frames_in d A else insert a (frames_in d A))"
  by (auto simp: frames_in_def)

lemma dequeue_entry_data:
  "heap_data (heap q) a = Some (fr, i, l) \<Longrightarrow> dequeue_entry w q a = [(w, i, l)]"
  for fr :: "'f option"
  by (auto simp: dequeue_entry_def heap_data_def node_data_def)

lemma flow_pop:
  assumes f: "flow_at process fs s R Dn E C xs ys P S K k"
    and ne: "size_input_work_queue (queues s) \<noteq> 0"
  shows "\<exists>x q' xs'. remove_from_input_work_queue (queues s) = Some (x, q') \<and> xs = x # xs'
           \<and> x \<notin> R \<union> Dn \<union> E
           \<and> heap_data (heap q') = heap_data (heap (queues s))
           \<and> ((P < K \<and> heap_data (heap q') x = Some (raw_item fs P)
                 \<and> flow_at process fs (s\<lparr>queues := q', dequeued := dequeued s @ dequeue_entry w q' x\<rparr>)
                      (insert x R) Dn E C xs' ys (Suc P) S K k)
               \<or> (P = K \<and> 0 < S \<and> heap_data (heap q') x = Some (sentinel_item fs)
                 \<and> flow_at process fs (s\<lparr>queues := q', dequeued := dequeued s @ dequeue_entry w q' x\<rparr>)
                      (insert x R) Dn E C xs' ys P (S - 1) K k))"
proof -
  let ?d = "heap_data (heap (queues s))"
  have wf: "wf_queues (queues s) xs ys (R \<union> Dn \<union> E)"
    using f by (simp add: flow_at_def flow_wf_def)
  obtain x xs' where xs: "xs = x # xs'"
    using input_queue_nonempty [OF _ ne, of xs] wf by (cases xs) (auto simp: wf_queues_def)
  obtain q' where q': "remove_from_input_work_queue (queues s) = Some (x, q')"
    "wf_queues q' xs' ys (insert x (R \<union> Dn \<union> E))"
    "heap_data (heap q') = ?d" "x \<notin> R \<union> Dn \<union> E"
    using remove_input_flow [OF wf [unfolded xs]] by blast
  have x: "x \<notin> set ys"
    using wf by (auto simp: wf_queues_def xs)
  have 1: "flow_wf q' xs' ys (insert x R) Dn E"
    using f q'(2,3,4) by (auto simp: flow_at_def flow_wf_def simp flip: dom_heap_data)
  have inp: "map ?d (x # xs') = map (\<lambda>j. Some (raw_item fs j)) [P..<K]
      @ replicate S (Some (sentinel_item fs))" "P \<le> K" "S \<le> C" "P < K \<longrightarrow> S = C"
    "K \<le> length fs" "0 < C \<longrightarrow> K = length fs"
    using f by (simp_all add: flow_at_def flow_input_def xs)
  have lg: "map snd (dequeued s) = map (\<lambda>j. (int j + 1, False)) [0..<P]
        @ replicate (C - S) (int (length fs) + 1, True)"
    using f by (simp add: flow_at_def flow_log_def)
  have nodes: "flow_nodes process fs ?d ys R Dn E" and order: "flow_order ?d ys E k"
    and frames: "flow_frames ?d ys R Dn E k P" and tr: "flow_transformed ?d (transformed s) R P"
    using f by (simp_all add: flow_at_def)
  show ?thesis
  proof (cases "P < K")
    case True
    have dx: "?d x = Some (raw_item fs P)"
      and rest: "map ?d xs' = map (\<lambda>j. Some (raw_item fs j)) [Suc P..<K]
        @ replicate S (Some (sentinel_item fs))"
      using inp(1) True by (simp_all add: upt_conv_Cons)
    have SC: "C - S = 0"
      using inp(4) True by simp
    have 2: "flow_input fs ?d xs' (Suc P) K S C"
      using rest inp True by (simp add: flow_input_def)
    have "dequeue_entry w q' x = [(w, int P + 1, False)]"
      using dx by (intro dequeue_entry_data) (simp add: q'(3) raw_item_def)
    then have 3: "flow_log fs (dequeued s @ dequeue_entry w q' x) (Suc P) S C"
      using lg SC by (simp add: flow_log_def)
    have "P < length fs"
      using True inp(5) by simp
    then have 4: "flow_nodes process fs ?d ys (insert x R) Dn E"
      using nodes dx unfolding flow_nodes_def by blast
    have idx: "ident ?d x = int P + 1" and ntx: "\<not> terminal ?d x"
      using dx by simp_all
    let ?A = "R \<union> Dn \<union> set ys \<union> E"
    have FA: "frames_in ?d (insert x R \<union> Dn \<union> set ys \<union> E) = insert x (frames_in ?d ?A)"
      using ntx by (auto simp: frames_in_def)
    have img: "ident ?d ` frames_in ?d ?A = {int k + 1..int P}"
      and inj: "inj_on (ident ?d) (frames_in ?d ?A)" and kP: "k \<le> P"
      using frames by (simp_all add: flow_frames_def)
    have le: "ident ?d b \<le> int P" if "b \<in> frames_in ?d ?A" for b
      using that img by (metis atLeastAtMost_iff imageI)
    have "inj_on (ident ?d) (insert x (frames_in ?d ?A))"
      using inj le by (fastforce simp: inj_on_insert idx)
    moreover have "ident ?d ` insert x (frames_in ?d ?A) = {int k + 1..int (Suc P)}"
      using kP by (auto simp: img idx)
    ultimately have 5: "flow_frames ?d ys (insert x R) Dn E k (Suc P)"
      using kP unfolding flow_frames_def FA by simp
    have FR: "frames_in ?d (insert x R) = insert x (frames_in ?d R)"
      using ntx by (auto simp: frames_in_def)
    have "ident ?d b \<le> int P" if "b \<in> frames_in ?d R" for b
      using that le [of b] by (auto simp: frames_in_def)
    then have "int P + 1 \<notin> ident ?d ` frames_in ?d R"
      by fastforce
    then have 6: "flow_transformed ?d (transformed s) (insert x R) (Suc P)"
      using tr unfolding flow_transformed_def FR
      by (auto simp: idx)
    show ?thesis
      using q' xs True dx 1 2 3 4 5 6 f order by (simp add: flow_at_def)
  next
    case False
    then have PK: "P = K"
      using inp(2) by simp
    have S: "0 < S"
      using inp(1) by (cases S) (simp_all add: PK)
    have dx: "?d x = Some (sentinel_item fs)"
      and rest: "map ?d xs' = replicate (S - 1) (Some (sentinel_item fs))"
      using inp(1) S by (cases S; simp add: PK)+
    have 2: "flow_input fs ?d xs' P K (S - 1) C"
      using rest inp S by (simp add: flow_input_def PK)
    have "C - (S - 1) = Suc (C - S)"
      using S inp(3) by simp
    moreover have "dequeue_entry w q' x = [(w, int (length fs) + 1, True)]"
      using dx by (intro dequeue_entry_data) (simp add: q'(3) sentinel_item_def)
    ultimately have 3: "flow_log fs (dequeued s @ dequeue_entry w q' x) P (S - 1) C"
      using lg by (simp add: flow_log_def replicate_append_same)
    have 4: "flow_nodes process fs ?d ys (insert x R) Dn E"
      using nodes dx by (auto simp: flow_nodes_def)
    have tx: "terminal ?d x"
      using dx by simp
    let ?A = "R \<union> Dn \<union> set ys \<union> E"
    have FA: "frames_in ?d (insert x R \<union> Dn \<union> set ys \<union> E) = frames_in ?d ?A"
      using tx by (auto simp: frames_in_def)
    have 5: "flow_frames ?d ys (insert x R) Dn E k P"
      using frames unfolding flow_frames_def FA by simp
    have FR: "frames_in ?d (insert x R) = frames_in ?d R"
      using tx by (auto simp: frames_in_def)
    have 6: "flow_transformed ?d (transformed s) (insert x R) P"
      using tr unfolding flow_transformed_def FR by simp
    show ?thesis
      using q' xs PK S dx 1 2 3 4 5 6 f order by (simp add: flow_at_def)
  qed
qed


lemma wf_queues_frame_update:
  assumes "wf_queues q xs ys D" "heap q a = Some n"
  shows "wf_queues (q\<lparr>heap := (heap q)(a \<mapsto> n\<lparr>frame := x\<rparr>)\<rparr>) xs ys D"
proof -
  have "heap_list ((heap q)(a \<mapsto> n\<lparr>frame := x\<rparr>)) p as = heap_list (heap q) p as" for p as
    using assms(2) by (intro heap_list_cong) auto
  moreover have "detached ((heap q)(a \<mapsto> n\<lparr>frame := x\<rparr>)) b = detached (heap q) b" for b
    using assms(2) by (auto simp: detached_def)
  ultimately show ?thesis
    using assms(1) by (simp add: wf_queues_def input_queue_def output_queue_def)
qed

lemma wf_queues_free:
  assumes "wf_queues q xs ys D" "a \<in> D"
  shows "wf_queues (q\<lparr>heap := (heap q)(a := None)\<rparr>) xs ys (D - {a})"
proof -
  have a: "a \<notin> set xs" "a \<notin> set ys"
    using assms by (auto simp: wf_queues_def)
  have "heap_list ((heap q)(a := None)) p as = heap_list (heap q) p as" if "a \<notin> set as" for p as
    using that by (intro heap_list_cong) auto
  then show ?thesis
    using assms a by (auto simp: wf_queues_def input_queue_def output_queue_def detached_def)
qed

lemma wf_queues_mono: "wf_queues q xs ys D \<Longrightarrow> D' \<subseteq> D \<Longrightarrow> wf_queues q xs ys D'"
  by (auto simp: wf_queues_def)

lemma flow_process:
  assumes f: "flow_at process fs s R Dn E C xs ys P S K k"
    and a: "a \<in> R" "\<not> terminal (heap_data (heap (queues s))) a"
  shows "\<exists>q'. process_frame process a (queues s) = Some q'
           \<and> (\<forall>b. terminal (heap_data (heap q')) b = terminal (heap_data (heap (queues s))) b)
           \<and> flow_at process fs
                (s\<lparr>queues := q', transformed := transformed s @ [id_of (heap (queues s)) a]\<rparr>)
                (R - {a}) (insert a Dn) E C xs ys P S K k"
proof -
  let ?d = "heap_data (heap (queues s))"
  have wf: "wf_queues (queues s) xs ys (R \<union> Dn \<union> E)"
    and disj: "R \<inter> Dn = {}" "(R \<union> Dn) \<inter> E = {}"
    using f by (simp_all add: flow_at_def flow_wf_def)
  have nodes: "flow_nodes process fs ?d ys R Dn E" and order: "flow_order ?d ys E k"
    and frames: "flow_frames ?d ys R Dn E k P" and tr: "flow_transformed ?d (transformed s) R P"
    using f by (simp_all add: flow_at_def)
  obtain j where j: "j < length fs" "?d a = Some (raw_item fs j)"
    using nodes a by (auto simp: flow_nodes_def)
  obtain n where n: "heap (queues s) a = Some n" "frame n = Some (fs ! j)"
    "frame_number n = int j + 1" "\<not> is_the_last_node n"
    using j(2) by (auto simp: heap_data_def node_data_def raw_item_def)
  let ?q = "(queues s)\<lparr>heap := (heap (queues s))(a \<mapsto> n\<lparr>frame := Some (process (fs ! j))\<rparr>)\<rparr>"
  let ?d' = "?d(a \<mapsto> done_item process fs j)"
  have pf: "process_frame process a (queues s) = Some ?q"
    using n by (simp add: process_frame_def)
  have d': "heap_data ((heap (queues s))(a \<mapsto> n\<lparr>frame := Some (process (fs ! j))\<rparr>)) = ?d'"
    using n by (auto simp: heap_data_def node_data_def done_item_def)
  have ida: "id_of (heap (queues s)) a = int j + 1"
    using n by simp
  have notin: "a \<notin> set xs" "a \<notin> set ys" "a \<notin> Dn" "a \<notin> E"
    using wf a(1) disj by (auto simp: wf_queues_def)
  have same: "ident ?d' b = ident ?d b \<and> terminal ?d' b = terminal ?d b" for b
    using j(2) by (simp add: ident_def terminal_def raw_item_def done_item_def)
  have U: "R - {a} \<union> insert a Dn \<union> E = R \<union> Dn \<union> E"
    using a(1) by auto
  have fin: "finite (dom (heap (queues s)))"
    using f by (simp add: flow_at_def flow_wf_def)
  have 1: "flow_wf ?q xs ys (R - {a}) (insert a Dn) E"
    unfolding flow_wf_def U
  proof (intro conjI)
    show "wf_queues ?q xs ys (R \<union> Dn \<union> E)"
      by (rule wf_queues_frame_update [OF wf n(1)])
    show "finite (dom (heap ?q))"
      using fin n(1) by (simp add: insert_absorb domI)
    show "(R - {a}) \<inter> insert a Dn = {}" "(R - {a} \<union> insert a Dn) \<inter> E = {}"
      using disj notin by auto
  qed
  have 2: "flow_input fs ?d' xs P K S C"
    using f notin(1) by (simp add: flow_at_def flow_input_upd)
  have 4: "flow_nodes process fs ?d' ys (R - {a}) (insert a Dn) E"
    using nodes notin j(1) by (auto simp: flow_nodes_def done_item_def)
  have 5: "flow_order ?d' ys E k"
    using order flow_order_cong [of ys E ?d' ?d k] same by simp
  have 6: "flow_frames ?d' ys (R - {a}) (insert a Dn) E k P"
  proof -
    have "flow_frames ?d' ys R Dn E k P"
      using frames flow_frames_cong [of R Dn ys E ?d' ?d k P] same by simp
    moreover have "R - {a} \<union> insert a Dn \<union> set ys \<union> E = R \<union> Dn \<union> set ys \<union> E"
      using a(1) by auto
    ultimately show ?thesis
      by (simp add: flow_frames_def)
  qed
  let ?A = "R \<union> Dn \<union> set ys \<union> E"
  have img: "ident ?d ` frames_in ?d ?A = {int k + 1..int P}"
    and inj: "inj_on (ident ?d) (frames_in ?d ?A)"
    using frames by (simp_all add: flow_frames_def)
  have aF: "a \<in> frames_in ?d R" "a \<in> frames_in ?d ?A"
    using a by (auto simp: frames_in_def)
  have FR: "frames_in ?d R \<subseteq> frames_in ?d ?A"
    by (auto simp: frames_in_def)
  have ja: "ident ?d a = int j + 1"
    using j(2) by simp
  have "int j + 1 \<in> {int k + 1..int P}"
    using aF(2) img ja by (metis imageI)
  then have jP: "int j + 1 \<in> {1..int P}"
    by auto
  have "ident ?d ` (frames_in ?d R - {a}) = ident ?d ` frames_in ?d R - {int j + 1}"
    using inj_on_image_set_diff [OF inj, of "frames_in ?d R" "{a}"] aF FR
    by (auto simp: ja)
  moreover have "frames_in ?d (R - {a}) = frames_in ?d R - {a}"
    by (auto simp: frames_in_def)
  moreover have "distinct (transformed s)"
    "set (transformed s) = {1..int P} - ident ?d ` frames_in ?d R"
    using tr by (simp_all add: flow_transformed_def)
  moreover have "int j + 1 \<in> ident ?d ` frames_in ?d R"
    using aF(1) ja by (metis imageI)
  ultimately have "flow_transformed ?d (transformed s @ [int j + 1]) (R - {a}) P"
    using jP unfolding flow_transformed_def by auto
  then have 7: "flow_transformed ?d' (transformed s @ [int j + 1]) (R - {a}) P"
    using flow_transformed_cong [of "R - {a}" ?d' ?d] same by simp
  have 9: "flow_payload ?d'"
    using f by (simp add: flow_at_def flow_payload_def done_item_def)
  show ?thesis
    using f 1 2 4 5 6 7 9 pf same by (simp add: flow_at_def d' ida)
qed


lemma insert_interval_int:
  fixes x p :: int
  assumes "insert x B = {x..p}" "x \<notin> B"
  shows "B = {x + 1..p} \<and> x \<le> p"
proof -
  have "x \<in> {x..p}"
    using assms(1) by blast
  then have xp: "x \<le> p"
    by simp
  have "B = {x..p} - {x}"
    using assms by blast
  also have "\<dots> = {x + 1..p}"
    by auto
  finally show ?thesis
    using xp by simp
qed

lemma flow_frames_union:
  "R' \<union> Dn' \<union> set ys' \<union> E' = R \<union> Dn \<union> set ys \<union> E
     \<Longrightarrow> flow_frames d ys' R' Dn' E' k P = flow_frames d ys R Dn E k P"
  by (simp add: flow_frames_def)

lemma flow_add_output:
  assumes f: "flow_at process fs s R Dn E C xs ys P S K k"
    and a: "a \<in> Dn \<or> a \<in> R \<and> terminal (heap_data (heap (queues s))) a"
  shows "\<exists>q'. add_to_output_work_queue a (queues s) = Some q'
           \<and> heap_data (heap q') = heap_data (heap (queues s))
           \<and> flow_at process fs (s\<lparr>queues := q'\<rparr>) (R - {a}) (Dn - {a}) E C xs
                (insort_key (id_of (heap (queues s))) a ys) P S K k"
proof -
  let ?d = "heap_data (heap (queues s))"
  let ?ys = "insort_key (id_of (heap (queues s))) a ys"
  have wf: "wf_queues (queues s) xs ys (R \<union> Dn \<union> E)"
    and disj: "R \<inter> Dn = {}" "(R \<union> Dn) \<inter> E = {}"
    and fin: "finite (dom (heap (queues s)))"
    using f by (simp_all add: flow_at_def flow_wf_def)
  have nodes: "flow_nodes process fs ?d ys R Dn E" and order: "flow_order ?d ys E k"
    and frames: "flow_frames ?d ys R Dn E k P" and tr: "flow_transformed ?d (transformed s) R P"
    using f by (simp_all add: flow_at_def)
  have aD: "a \<in> R \<union> Dn \<union> E" and aE: "a \<notin> E" and ays: "a \<notin> set ys"
    using a disj wf by (auto simp: wf_queues_def)
  have D: "(R \<union> Dn \<union> E) - {a} = (R - {a}) \<union> (Dn - {a}) \<union> E"
    using aE by auto
  have sp: "spec_op (id_of (heap (queues s))) (Add_output a) (xs, ys, R \<union> Dn \<union> E)
      = Some ([], (xs, ?ys, (R \<union> Dn \<union> E) - {a}))"
    using aD by simp
  obtain q' where q': "add_to_output_work_queue a (queues s) = Some q'"
    "wf_queues q' xs ?ys ((R - {a}) \<union> (Dn - {a}) \<union> E)" "heap_data (heap q') = ?d"
    using exec_op_refines [OF wf sp] unfolding D exec_op.simps by blast
  have "finite (dom (heap q'))"
    using fin q'(3) by (metis dom_heap_data)
  moreover have "(R - {a}) \<inter> (Dn - {a}) = {}" "(R - {a} \<union> (Dn - {a})) \<inter> E = {}"
    using disj by auto
  ultimately have 1: "flow_wf q' xs ?ys (R - {a}) (Dn - {a}) E"
    using q'(2) by (simp add: flow_wf_def)
  have ty: "?d a = Some (sentinel_item fs) \<or> (\<exists>j<length fs. ?d a = Some (done_item process fs j))"
    using a nodes by (auto simp: flow_nodes_def)
  have 4: "flow_nodes process fs ?d ?ys (R - {a}) (Dn - {a}) E"
    unfolding flow_nodes_def set_insort_key
  proof (intro conjI ballI)
    fix b
    assume "b \<in> R - {a}"
    then show "?d b = Some (sentinel_item fs) \<or> (\<exists>j<length fs. ?d b = Some (raw_item fs j))"
      using nodes by (simp add: flow_nodes_def)
  next
    fix b
    assume b: "b \<in> Dn - {a} \<union> insert a (set ys) \<union> E"
    show "?d b = Some (sentinel_item fs) \<or> (\<exists>j<length fs. ?d b = Some (done_item process fs j))"
    proof (cases "b = a")
      case True
      then show ?thesis using ty by simp
    next
      case False
      then have "b \<in> Dn \<union> set ys \<union> E"
        using b by auto
      then show ?thesis
        using nodes unfolding flow_nodes_def by blast
    qed
  next
    fix b
    assume "b \<in> Dn - {a}"
    then show "\<not> terminal ?d b"
      using nodes by (simp add: flow_nodes_def)
  qed
  have 5: "flow_order ?d ?ys E k"
    using order by (simp add: flow_order_def id_of_ident sorted_insort_key)
  have "R - {a} \<union> (Dn - {a}) \<union> set ?ys \<union> E = R \<union> Dn \<union> set ys \<union> E"
    using aD aE by (auto simp: set_insort_key)
  then have 6: "flow_frames ?d ?ys (R - {a}) (Dn - {a}) E k P"
    using frames flow_frames_union [of "R - {a}" "Dn - {a}" ?ys E R Dn ys E ?d k P] by blast
  have "frames_in ?d (R - {a}) = frames_in ?d R"
    using a disj by (auto simp: frames_in_def)
  then have 7: "flow_transformed ?d (transformed s) (R - {a}) P"
    using tr by (simp add: flow_transformed_def)
  show ?thesis
    using f 1 4 5 6 7 q'(1,3) by (simp add: flow_at_def)
qed

lemma output_queue_nonempty:
  "output_queue q ys \<Longrightarrow> size_output_work_queue q \<noteq> 0 \<Longrightarrow> ys \<noteq> []"
  by (auto simp: output_queue_def)

lemma get_head_id_output:
  "output_queue q (y # ys) \<Longrightarrow> get_head_id_from_output_work_queue q = Some (id_of (heap q) y)"
  by (auto simp: output_queue_def get_head_id_from_output_work_queue_def deref_def)

lemma flow_remove_output:
  assumes f: "flow_at process fs s R Dn {} C xs ys P S K k"
    and ne: "size_output_work_queue (queues s) \<noteq> 0"
  shows "\<exists>y ys'. ys = y # ys'
           \<and> get_head_id_from_output_work_queue (queues s) = Some (id_of (heap (queues s)) y)
           \<and> (id_of (heap (queues s)) y = int k + 1 \<longrightarrow>
                (\<exists>q'. remove_from_output_work_queue (queues s) = Some (y, q')
                   \<and> heap_data (heap q') = heap_data (heap (queues s))
                   \<and> flow_at process fs (s\<lparr>queues := q'\<rparr>) R Dn {y} C xs ys' P S K k))"
proof -
  let ?d = "heap_data (heap (queues s))"
  have wf: "wf_queues (queues s) xs ys (R \<union> Dn)"
    and disj: "R \<inter> Dn = {}" and fin: "finite (dom (heap (queues s)))"
    using f by (simp_all add: flow_at_def flow_wf_def)
  have nodes: "flow_nodes process fs ?d ys R Dn {}" and order: "flow_order ?d ys {} k"
    and frames: "flow_frames ?d ys R Dn {} k P" and tr: "flow_transformed ?d (transformed s) R P"
    using f by (simp_all add: flow_at_def)
  obtain y ys' where ys: "ys = y # ys'"
    using output_queue_nonempty [OF _ ne, of ys] wf by (cases ys) (auto simp: wf_queues_def)
  have hd: "get_head_id_from_output_work_queue (queues s) = Some (id_of (heap (queues s)) y)"
    using wf by (intro get_head_id_output [of _ _ ys']) (simp add: wf_queues_def ys)
  have "\<exists>q'. remove_from_output_work_queue (queues s) = Some (y, q')
      \<and> heap_data (heap q') = heap_data (heap (queues s))
      \<and> flow_at process fs (s\<lparr>queues := q'\<rparr>) R Dn {y} C xs ys' P S K k"
    if idy: "id_of (heap (queues s)) y = int k + 1"
  proof -
    have "spec_op (id_of (heap (queues s))) Remove_output (xs, y # ys', R \<union> Dn)
        = Some ([y], (xs, ys', insert y (R \<union> Dn)))"
      by simp
    from exec_op_refines [OF wf [unfolded ys] this]
    obtain q' where q': "remove_from_output_work_queue (queues s) = Some (y, q')"
      "wf_queues q' xs ys' (insert y (R \<union> Dn))" "heap_data (heap q') = ?d"
      by auto
    have y: "y \<notin> R \<union> Dn" "y \<notin> set ys'"
      using wf output_queue_distinct [of "queues s" ys] by (auto simp: wf_queues_def ys)
    have 1: "flow_wf q' xs ys' R Dn {y}"
      using q'(2,3) disj fin y by (auto simp: flow_wf_def simp flip: dom_heap_data)
    have 4: "flow_nodes process fs ?d ys' R Dn {y}"
      using nodes by (auto simp: flow_nodes_def ys)
    have 5: "flow_order ?d ys' {y} k"
      using order idy by (simp add: flow_order_def ys id_of_ident)
    have "R \<union> Dn \<union> set ys' \<union> {y} = R \<union> Dn \<union> set ys \<union> {}"
      by (auto simp: ys)
    then have 6: "flow_frames ?d ys' R Dn {y} k P"
      using frames flow_frames_union [of R Dn ys' "{y}" R Dn ys "{}" ?d k P] by blast
    show ?thesis
      using f 1 4 5 6 q'(1,3) by (simp add: flow_at_def)
  qed
  then show ?thesis
    by (intro exI [of _ y] exI [of _ ys'] conjI ys hd impI)
qed

lemma flow_emit_typing:
  assumes f: "flow_at process fs s R Dn {a} C xs ys P S K k"
  shows "(terminal (heap_data (heap (queues s))) a \<longrightarrow> k = length fs)
       \<and> (\<not> terminal (heap_data (heap (queues s))) a \<longrightarrow>
            k < length fs \<and> heap_data (heap (queues s)) a = Some (done_item process fs k))"
proof -
  let ?d = "heap_data (heap (queues s))"
  have "?d a = Some (sentinel_item fs) \<or> (\<exists>j<length fs. ?d a = Some (done_item process fs j))"
    and "ident ?d a = int k + 1"
    using f by (auto simp: flow_at_def flow_nodes_def flow_order_def)
  then show ?thesis
    by auto
qed

lemma flow_sentinel_seen:
  assumes f: "flow_at process fs s R Dn {a} C xs ys P S K k"
    and a: "terminal (heap_data (heap (queues s))) a"
  shows "flow_at process fs s R Dn {} C xs ys P S K k \<and> k = length fs"
proof -
  let ?d = "heap_data (heap (queues s))"
  have 1: "flow_wf (queues s) xs ys R Dn {}"
    using f wf_queues_mono [of "queues s" xs ys "R \<union> Dn \<union> {a}" "R \<union> Dn"]
    by (auto simp: flow_at_def flow_wf_def)
  have 4: "flow_nodes process fs ?d ys R Dn {}"
    using f by (auto simp: flow_at_def flow_nodes_def)
  have 5: "flow_order ?d ys {} k"
    using f by (auto simp: flow_at_def flow_order_def)
  have "frames_in ?d (R \<union> Dn \<union> set ys \<union> {}) = frames_in ?d (R \<union> Dn \<union> set ys \<union> {a})"
    using a by (auto simp: frames_in_def)
  then have 6: "flow_frames ?d ys R Dn {} k P"
    using f by (simp add: flow_at_def flow_frames_def)
  show ?thesis
    using f 1 4 5 6 flow_emit_typing [OF f] a by (simp add: flow_at_def)
qed

lemma flow_display:
  assumes f: "flow_at process fs s R Dn {a} C xs ys P S K k"
    and a: "\<not> terminal (heap_data (heap (queues s))) a"
  shows "\<exists>n. heap (queues s) a = Some n \<and> \<not> is_the_last_node n
           \<and> frame n = Some (process (fs ! k)) \<and> frame_number n = int k + 1 \<and> k < length fs
           \<and> flow_at process fs
                (s\<lparr>oVideoWriter := oVideoWriter s @ [process (fs ! k)],
                   queues := (queues s)\<lparr>heap := (heap (queues s))(a := None)\<rparr>\<rparr>)
                R Dn {} C xs ys P S K (Suc k)"
proof -
  let ?d = "heap_data (heap (queues s))"
  let ?d' = "?d(a := None)"
  have wf: "wf_queues (queues s) xs ys (R \<union> Dn \<union> {a})"
    and disj: "R \<inter> Dn = {}" "(R \<union> Dn) \<inter> {a} = {}"
    and fin: "finite (dom (heap (queues s)))"
    using f by (simp_all add: flow_at_def flow_wf_def)
  have nodes: "flow_nodes process fs ?d ys R Dn {a}" and order: "flow_order ?d ys {a} k"
    and frames: "flow_frames ?d ys R Dn {a} k P" and tr: "flow_transformed ?d (transformed s) R P"
    using f by (simp_all add: flow_at_def)
  have k: "k < length fs" and da: "?d a = Some (done_item process fs k)"
    using flow_emit_typing [OF f] a by simp_all
  obtain n where n: "heap (queues s) a = Some n" "\<not> is_the_last_node n"
    "frame n = Some (process (fs ! k))" "frame_number n = int k + 1"
    using da by (auto simp: heap_data_def node_data_def done_item_def)
  have d': "heap_data ((heap (queues s))(a := None)) = ?d'"
    by (rule ext) (simp add: heap_data_def)
  have notin: "a \<notin> set xs" "a \<notin> set ys" "a \<notin> R" "a \<notin> Dn"
    using wf disj by (auto simp: wf_queues_def)
  have D: "(R \<union> Dn \<union> {a}) - {a} = R \<union> Dn \<union> {}"
    using notin by auto
  have 1: "flow_wf ((queues s)\<lparr>heap := (heap (queues s))(a := None)\<rparr>) xs ys R Dn {}"
    using wf_queues_free [OF wf, of a] disj fin unfolding D by (simp add: flow_wf_def)
  have 2: "flow_input fs ?d' xs P K S C"
    using f notin(1) by (simp add: flow_at_def flow_input_upd)
  have 3: "oVideoWriter s @ [process (fs ! k)] = map process (take (Suc k) fs)"
    using f k by (simp add: flow_at_def take_Suc_conv_app_nth)
  have "flow_nodes process fs ?d ys R Dn {}"
    using nodes by (auto simp: flow_nodes_def)
  then have 4: "flow_nodes process fs ?d' ys R Dn {}"
    using notin by (simp add: flow_nodes_upd)
  have 5: "flow_order ?d' ys {} (Suc k)"
    using order notin flow_order_upd [of a ys "{}" ?d None] by (simp add: flow_order_def)
  let ?A = "R \<union> Dn \<union> set ys"
  have img: "ident ?d ` frames_in ?d (insert a ?A) = {int k + 1..int P}"
    and inj: "inj_on (ident ?d) (frames_in ?d (insert a ?A))" and kP: "k \<le> P"
    using frames by (simp_all add: flow_frames_def)
  have Fa: "frames_in ?d (insert a ?A) = insert a (frames_in ?d ?A)" "a \<notin> frames_in ?d ?A"
    using a notin by (auto simp: frames_in_def)
  have ida: "ident ?d a = int k + 1"
    using da by simp
  have inj': "inj_on (ident ?d) (frames_in ?d ?A)" and na: "int k + 1 \<notin> ident ?d ` frames_in ?d ?A"
    using inj Fa by (auto simp: ida)
  have "insert (int k + 1) (ident ?d ` frames_in ?d ?A) = {int k + 1..int P}"
    using img by (simp add: Fa ida)
  then have img': "ident ?d ` frames_in ?d ?A = {int (Suc k) + 1..int P}" and kP': "Suc k \<le> P"
    using insert_interval_int [OF _ na, of "int P"] by auto
  have "flow_frames ?d ys R Dn {} (Suc k) P"
    using inj' img' kP' by (simp add: flow_frames_def)
  then have 6: "flow_frames ?d' ys R Dn {} (Suc k) P"
    using notin by (simp add: flow_frames_upd)
  have 7: "flow_transformed ?d' (transformed s) R P"
    using tr notin by (simp add: flow_transformed_upd)
  have 9: "flow_payload ?d'"
    using f by (simp add: flow_at_def flow_payload_def)
  show ?thesis
    using f n k 1 2 3 4 5 6 7 9 by (simp add: flow_at_def d')
qed

section \<open>The three stages keep their invariant\<close>

lemma flow_at_cong:
  assumes "queues s' = queues s" "capture s' = capture s" "oVideoWriter s' = oVideoWriter s"
    "dequeued s' = dequeued s" "enqueued s' = enqueued s" "transformed s' = transformed s"
  shows "flow_at process fs s' R Dn E C xs ys P S K k = flow_at process fs s R Dn E C xs ys P S K k"
  using assms by (simp add: flow_at_def)

lemma flow_at_transfer:
  assumes "flow_at process fs s R Dn E C xs ys P S K k"
    and "queues s' = queues s" "capture s' = capture s" "oVideoWriter s' = oVideoWriter s"
    "dequeued s' = dequeued s" "enqueued s' = enqueued s" "transformed s' = transformed s"
  shows "flow_at process fs s' R Dn E C xs ys P S K k"
  using assms by (simp add: flow_at_def)

lemma raw_held_take:
  assumes "int w < n" "pc w = Two_wait"
  shows "raw_held n (pc(w := Two_holds a)) = insert a (raw_held n pc)"
    and "done_held n (pc(w := Two_holds a)) = done_held n pc"
  using assms unfolding raw_held_def done_held_def
  by (auto split: if_splits) (metis two_pc.distinct(1,3))+

lemma held_unique:
  assumes "\<forall>w w'. int w < n \<longrightarrow> int w' < n \<longrightarrow> w \<noteq> w' \<longrightarrow>
      holds (pc w) = None \<or> holds (pc w) \<noteq> holds (pc w')"
    and "int w < n" "holds (pc w) = Some a" "int w' < n" "w' \<noteq> w"
  shows "pc w' \<noteq> Two_holds a" "pc w' \<noteq> Two_processed a"
  using assms by (metis holds.simps(1) option.distinct(1), metis holds.simps(2) option.distinct(1))

lemma raw_held_release:
  assumes u: "\<forall>w w'. int w < n \<longrightarrow> int w' < n \<longrightarrow> w \<noteq> w' \<longrightarrow>
      holds (pc w) = None \<or> holds (pc w) \<noteq> holds (pc w')"
    and w: "int w < n" "holds (pc w) = Some a" and p: "holds p = None"
  shows "raw_held n (pc(w := p)) = raw_held n pc - {a}"
    and "done_held n (pc(w := p)) = done_held n pc - {a}"
proof -
  have other: "pc w' \<noteq> Two_holds a \<and> pc w' \<noteq> Two_processed a" if "int w' < n" "w' \<noteq> w" for w'
    using held_unique [OF u w that] by simp
  have own: "pc w = Two_holds a \<or> pc w = Two_processed a"
    using w(2) by (cases "pc w") auto
  have pn: "p \<noteq> Two_holds b \<and> p \<noteq> Two_processed b" for b
    using p by (cases p) auto
  show "raw_held n (pc(w := p)) = raw_held n pc - {a}"
    using other own pn w(1) unfolding raw_held_def
    by (auto split: if_splits) (metis two_pc.inject two_pc.distinct)+
  show "done_held n (pc(w := p)) = done_held n pc - {a}"
    using other own pn w(1) unfolding done_held_def
    by (auto split: if_splits) (metis two_pc.inject two_pc.distinct)+
qed

lemma raw_held_processed:
  assumes u: "\<forall>w w'. int w < n \<longrightarrow> int w' < n \<longrightarrow> w \<noteq> w' \<longrightarrow>
      holds (pc w) = None \<or> holds (pc w) \<noteq> holds (pc w')"
    and w: "int w < n" "pc w = Two_holds a"
  shows "raw_held n (pc(w := Two_processed a)) = raw_held n pc - {a}"
    and "done_held n (pc(w := Two_processed a)) = insert a (done_held n pc)"
proof -
  have other: "pc w' \<noteq> Two_holds a \<and> pc w' \<noteq> Two_processed a" if "int w' < n" "w' \<noteq> w" for w'
    using held_unique [OF u w(1) _ that] w(2) by simp
  show "raw_held n (pc(w := Two_processed a)) = raw_held n pc - {a}"
    using other w unfolding raw_held_def
    by (auto split: if_splits) (metis two_pc.inject two_pc.distinct)+
  show "done_held n (pc(w := Two_processed a)) = insert a (done_held n pc)"
    using other w unfolding done_held_def
    by (auto split: if_splits) (metis two_pc.inject two_pc.distinct)+
qed

lemma wf_empty_queues: "wf_queues empty_queues [] [] {}"
  by (simp add: wf_queues_def input_queue_def output_queue_def empty_queues_def)

lemma stages_inv_init: "stages_inv process fs n (stages_init fs n)"
proof -
  have "flow_at process fs (stages_init fs n) {} {} {} 0 [] [] 0 0 0 0"
    using wf_empty_queues [where ?'a = 'a]
    by (simp add: flow_at_def flow_wf_def flow_input_def flow_log_def flow_sent_def
        flow_payload_def flow_nodes_def flow_order_def flow_frames_def flow_transformed_def
        frames_in_def stages_init_def)
      (simp add: empty_queues_def heap_data_def)
  then have "stages_inv_at process fs n (stages_init fs n) [] [] 0 0 0 0"
    by (simp add: stages_inv_at_def two_ok_def raw_held_def done_held_def sentinel_count_def
        one_ok_def three_ok_def sent_ok_def)
      (simp add: stages_init_def)
  then show ?thesis
    unfolding stages_inv_def by blast
qed

lemma two_ok_cong:
  assumes "two_ok n s" "pc_two s' = pc_two s" "dequeued s' = dequeued s"
    and "\<And>b. b \<in> raw_held n (pc_two s)
           \<Longrightarrow> terminal (heap_data (heap (queues s'))) b = terminal (heap_data (heap (queues s))) b"
  shows "two_ok n s'"
proof -
  have "took_sentinel (heap_data (heap (queues s'))) (pc_two s w)
      = took_sentinel (heap_data (heap (queues s))) (pc_two s w)" if "int w < n" for w
    using that assms(4) by (cases "pc_two s w") (auto simp: raw_held_def)
  then show ?thesis
    using assms(1-3) by (simp add: two_ok_def)
qed

lemma flow_at_held_allocated:
  assumes "flow_at process fs s R Dn E C xs ys P S K k" "heap (queues s) a = None"
  shows "a \<notin> R \<union> Dn \<union> E \<union> set xs \<union> set ys"
  using assms wf_queues_allocated [of "queues s" xs ys "R \<union> Dn \<union> E" a]
  by (auto simp: flow_at_def flow_wf_def)

lemma flow_at_capture_empty:
  assumes "flow_at process fs s R Dn E C xs ys P S K k" "capture s = []"
  shows "K = length fs"
  using assms by (simp add: flow_at_def flow_input_def)

lemma one_ok_simps:
  "pc_one s = One_capture \<Longrightarrow> one_ok fs n s K = (nframes s = int K)"
  "pc_one s = One_sentinels i \<Longrightarrow> one_ok fs n s K =
     (capture s = [] \<and> nframes s = int (length fs) + 1 \<and> 0 \<le> i \<and> (i \<le> n \<or> i = 0))"
  "pc_one s = One_done \<Longrightarrow> one_ok fs n s K = (capture s = [] \<and> nframes s = int (length fs) + 1)"
  by (simp_all add: one_ok_def)

lemma one_ok_cong:
  "pc_one s' = pc_one s \<Longrightarrow> nframes s' = nframes s \<Longrightarrow> capture s' = capture s
     \<Longrightarrow> one_ok fs n s' K = one_ok fs n s K"
  by (simp add: one_ok_def split: one_pc.splits)

lemma three_ok_cong:
  "pc_three s' = pc_three s \<Longrightarrow> current_frame s' = current_frame s
     \<Longrightarrow> three_ok fs s' ys k = three_ok fs s ys k"
  by (simp add: three_ok_def split: three_pc.splits)

lemma three_ok_grow:
  "three_ok fs s ys k \<Longrightarrow> pc_three s' = pc_three s \<Longrightarrow> current_frame s' = current_frame s
     \<Longrightarrow> (ys \<noteq> [] \<longrightarrow> ys' \<noteq> []) \<Longrightarrow> three_ok fs s' ys' k"
  by (auto simp: three_ok_def split: three_pc.splits)

lemma sent_ok_cong:
  assumes "sent_ok n s ys" "pc_two s' = pc_two s"
    and "pc_three s' = pc_three s \<or> (pc_three s \<noteq> Three_done \<and> pc_three s' \<noteq> Three_done
           \<and> emit_held (pc_three s) = {} \<and> emit_held (pc_three s') = {})"
    and "set ys \<subseteq> set ys'"
    and "\<And>b. b \<in> set ys \<union> emit_held (pc_three s)
           \<Longrightarrow> terminal (heap_data (heap (queues s'))) b = terminal (heap_data (heap (queues s))) b"
  shows "sent_ok n s' ys'"
proof -
  have h: "pc_three s' = Three_holds a \<Longrightarrow> pc_three s = Three_holds a" for a
    using assms(3) by auto
  have h': "pc_three s = Three_holds a \<Longrightarrow> pc_three s' = Three_holds a" for a
    using assms(3) by auto
  have d: "pc_three s = Three_done \<longleftrightarrow> pc_three s' = Three_done"
    using assms(3) by auto
  show ?thesis
    unfolding sent_ok_def
  proof (intro impI)
    assume a: "(\<exists>w. int w < n \<and> pc_two s' w = Two_done) \<and> pc_three s' \<noteq> Three_done
        \<and> (\<forall>a. pc_three s' = Three_holds a \<longrightarrow> \<not> terminal (heap_data (heap (queues s'))) a)"
    have "\<not> terminal (heap_data (heap (queues s))) b" if "pc_three s = Three_holds b" for b
      using a h' [OF that] assms(5) [of b] that by simp
    then obtain b where "b \<in> set ys" "terminal (heap_data (heap (queues s))) b"
      using assms(1) a d unfolding sent_ok_def assms(2) by blast
    then show "\<exists>a\<in>set ys'. terminal (heap_data (heap (queues s'))) a"
      using assms(4,5) by blast
  qed
qed

lemma sent_ok_worker:
  assumes "sent_ok n s ys" "pc_two s' = (pc_two s)(w := p)" "pc_three s' = pc_three s"
    and "p = Two_done \<longrightarrow> (\<exists>a\<in>set ys'. terminal (heap_data (heap (queues s'))) a)"
    and "set ys \<subseteq> set ys'"
    and "\<And>b. terminal (heap_data (heap (queues s'))) b = terminal (heap_data (heap (queues s))) b"
  shows "sent_ok n s' ys'"
  unfolding sent_ok_def
proof (intro impI)
  assume a: "(\<exists>w. int w < n \<and> pc_two s' w = Two_done) \<and> pc_three s' \<noteq> Three_done
      \<and> (\<forall>a. pc_three s' = Three_holds a \<longrightarrow> \<not> terminal (heap_data (heap (queues s'))) a)"
  show "\<exists>a\<in>set ys'. terminal (heap_data (heap (queues s'))) a"
  proof (cases "p = Two_done")
    case True
    then show ?thesis using assms(4) by simp
  next
    case False
    then have "\<exists>w. int w < n \<and> pc_two s w = Two_done"
      using a by (auto simp: assms(2) split: if_splits)
    then obtain b where "b \<in> set ys" "terminal (heap_data (heap (queues s))) b"
      using assms(1) a unfolding sent_ok_def assms(3,6) by blast
    then show ?thesis
      using assms(5,6) by blast
  qed
qed

lemma stage_one_inv:
  assumes inv: "stages_inv_at process fs n s xs ys P S K k"
  shows "stage_one a s \<noteq> Crash \<and> (\<forall>s'. stage_one a s = Next s' \<longrightarrow> stages_inv process fs n s')"
proof -
  let ?R = "raw_held n (pc_two s)" and ?Dn = "done_held n (pc_two s)"
  let ?E = "emit_held (pc_three s)"
  let ?d = "heap_data (heap (queues s))"
  have tn: "threads_number s = n"
    and f: "flow_at process fs s ?R ?Dn ?E (sentinels_created n (pc_one s)) xs ys P S K k"
    and one: "one_ok fs n s K" and three: "three_ok fs s ys k" and two: "two_ok n s"
    and sent: "sent_ok n s ys"
    using inv by (simp_all add: stages_inv_at_def)
  have fresh: "b \<noteq> a" if "heap (queues s) a = None" "b \<in> ?R \<union> set ys \<union> ?E" for b
    using flow_at_held_allocated [OF f that(1)] that(2) by auto
  show ?thesis
  proof (cases "pc_one s")
    case One_capture
    have nf: "nframes s = int K"
      using one by (simp add: one_ok_simps One_capture)
    have f0: "flow_at process fs s ?R ?Dn ?E 0 xs ys P S K k"
      using f by (simp add: One_capture)
    show ?thesis
    proof (cases "capture s")
      case Nil
      let ?s = "s\<lparr>nframes := nframes s + 1, pc_one := One_sentinels 0\<rparr>"
      have K: "K = length fs"
        using flow_at_capture_empty [OF f Nil] .
      have "flow_at process fs ?s ?R ?Dn ?E 0 xs ys P S K k"
        using f0 by (simp add: flow_at_cong [of ?s s])
      moreover have "two_ok n ?s"
        using two by (rule two_ok_cong) simp_all
      moreover have "three_ok fs ?s ys k"
        using three by (simp add: three_ok_cong [of ?s s])
      moreover have "one_ok fs n ?s K"
        using nf Nil by (simp add: one_ok_simps(2) [of _ 0] K)
      moreover have "sent_ok n ?s ys"
        by (rule sent_ok_cong [OF sent]) simp_all
      ultimately have "stages_inv_at process fs n ?s xs ys P S K k"
        using tn by (simp add: stages_inv_at_def)
      then have "stages_inv process fs n ?s"
        unfolding stages_inv_def by blast
      then show ?thesis
        by (simp add: stage_one_def One_capture Nil)
    next
      case (Cons img rest)
      show ?thesis
      proof (cases "heap (queues s) a")
        case (Some x)
        then show ?thesis
          by (simp add: stage_one_def One_capture Cons)
      next
        case None
        obtain q' where q': "add_to_input_work_queue a
            (new_node a (Some img) (int K + 1) False (queues s)) = Some q'"
          and d': "heap_data (heap q') = ?d(a \<mapsto> raw_item fs K)"
          and f': "flow_at process fs
            (s\<lparr>capture := rest, queues := q', enqueued := enqueued s @ [(int K + 1, False)]\<rparr>)
            ?R ?Dn ?E 0 (xs @ [a]) ys P 0 (Suc K) k"
          using flow_push_frame [OF f0 Cons None] by blast
        let ?s = "s\<lparr>capture := rest, nframes := nframes s + 1, queues := q',
          enqueued := enqueued s @ [(nframes s + 1, False)]\<rparr>"
        have "flow_at process fs ?s ?R ?Dn ?E 0 (xs @ [a]) ys P 0 (Suc K) k"
          by (rule flow_at_transfer [OF f']) (simp_all add: nf)
        moreover have "two_ok n ?s"
        proof (rule two_ok_cong [OF two])
          fix b
          assume "b \<in> raw_held n (pc_two s)"
          then show "terminal (heap_data (heap (queues ?s))) b = terminal ?d b"
            using fresh [OF None, of b] by (simp add: d')
        qed simp_all
        moreover have "sent_ok n ?s ys"
        proof (rule sent_ok_cong [OF sent])
          fix b
          assume "b \<in> set ys \<union> emit_held (pc_three s)"
          then show "terminal (heap_data (heap (queues ?s))) b = terminal ?d b"
            using fresh [OF None, of b] by (simp add: d')
        qed simp_all
        moreover have "three_ok fs ?s ys k"
          using three by (simp add: three_ok_cong [of ?s s])
        moreover have "one_ok fs n ?s (Suc K)"
          using nf by (simp add: one_ok_simps(1) One_capture)
        ultimately have "stages_inv_at process fs n ?s (xs @ [a]) ys P 0 (Suc K) k"
          using tn by (simp add: stages_inv_at_def One_capture)
        then have "stages_inv process fs n ?s"
          unfolding stages_inv_def by blast
        then show ?thesis
          using q' by (simp add: stage_one_def One_capture Cons None nf)
      qed
    qed
  next
    case (One_sentinels i)
    have o: "capture s = []" "nframes s = int (length fs) + 1" "0 \<le> i" "i \<le> n \<or> i = 0"
      using one by (simp_all add: one_ok_simps(2) [OF One_sentinels])
    have fi: "flow_at process fs s ?R ?Dn ?E (nat i) xs ys P S K k"
      using f by (simp add: One_sentinels)
    show ?thesis
    proof (cases "i < n")
      case False
      let ?s = "s\<lparr>pc_one := One_done\<rparr>"
      have "nat i = nat n"
        using False o(3,4) by auto
      then have "flow_at process fs ?s ?R ?Dn ?E (nat n) xs ys P S K k"
        using fi by (simp add: flow_at_cong [of ?s s])
      moreover have "two_ok n ?s"
        using two by (rule two_ok_cong) simp_all
      moreover have "three_ok fs ?s ys k"
        using three by (simp add: three_ok_cong [of ?s s])
      moreover have "one_ok fs n ?s K"
        using o by (simp add: one_ok_simps(3))
      moreover have "sent_ok n ?s ys"
        by (rule sent_ok_cong [OF sent]) simp_all
      ultimately have "stages_inv_at process fs n ?s xs ys P S K k"
        using tn by (simp add: stages_inv_at_def)
      then have "stages_inv process fs n ?s"
        unfolding stages_inv_def by blast
      then show ?thesis
        using False by (simp add: stage_one_def One_sentinels tn)
    next
      case True
      show ?thesis
      proof (cases "heap (queues s) a")
        case (Some x)
        then show ?thesis
          using True by (simp add: stage_one_def One_sentinels tn)
      next
        case None
        obtain q' where q': "add_to_input_work_queue a
            (new_node a None (int (length fs) + 1) True (queues s)) = Some q'"
          and d': "heap_data (heap q') = ?d(a \<mapsto> sentinel_item fs)"
          and f': "flow_at process fs
            (s\<lparr>queues := q', enqueued := enqueued s @ [(int (length fs) + 1, True)]\<rparr>)
            ?R ?Dn ?E (Suc (nat i)) (xs @ [a]) ys P (Suc S) K k"
          using flow_push_sentinel [OF fi o(1) None] by blast
        let ?s = "s\<lparr>queues := q', enqueued := enqueued s @ [(nframes s, True)],
          pc_one := One_sentinels (i + 1)\<rparr>"
        have "Suc (nat i) = nat (i + 1)"
          using o(3) by simp
        then have "flow_at process fs ?s ?R ?Dn ?E (nat (i + 1)) (xs @ [a]) ys P (Suc S) K k"
          using flow_at_transfer [OF f', of ?s] by (simp add: o(2))
        moreover have "two_ok n ?s"
        proof (rule two_ok_cong [OF two])
          fix b
          assume "b \<in> raw_held n (pc_two s)"
          then show "terminal (heap_data (heap (queues ?s))) b = terminal ?d b"
            using fresh [OF None, of b] by (simp add: d')
        qed simp_all
        moreover have "sent_ok n ?s ys"
        proof (rule sent_ok_cong [OF sent])
          fix b
          assume "b \<in> set ys \<union> emit_held (pc_three s)"
          then show "terminal (heap_data (heap (queues ?s))) b = terminal ?d b"
            using fresh [OF None, of b] by (simp add: d')
        qed simp_all
        moreover have "three_ok fs ?s ys k"
          using three by (simp add: three_ok_cong [of ?s s])
        moreover have "one_ok fs n ?s K"
          using o True by (simp add: one_ok_simps(2) [of _ "i + 1"])
        ultimately have "stages_inv_at process fs n ?s (xs @ [a]) ys P (Suc S) K k"
          using tn by (simp add: stages_inv_at_def)
        then have "stages_inv process fs n ?s"
          unfolding stages_inv_def by blast
        then show ?thesis
          using q' True by (simp add: stage_one_def One_sentinels None tn o(2))
      qed
    qed
  next
    case One_done
    then show ?thesis
      by (simp add: stage_one_def)
  qed
qed

lemma insort_key_ne: "insort_key f x xs \<noteq> []"
  by (cases xs) auto

lemma sentinel_count_append [simp]:
  "sentinel_count w' (dq @ [(w, i, l)]) = sentinel_count w' dq + (if w' = w \<and> l then 1 else 0)"
  by (simp add: sentinel_count_def)

lemma took_sentinel_cong:
  "(\<And>b. terminal d' b = terminal d b) \<Longrightarrow> took_sentinel d' p = took_sentinel d p"
  by (cases p) simp_all

lemma two_ok_take:
  assumes two: "two_ok n s" and w: "int w < n" "pc_two s w = Two_wait"
    and x: "x \<notin> raw_held n (pc_two s) \<union> done_held n (pc_two s)"
    and s': "pc_two s' = (pc_two s)(w := Two_holds x)" "dequeued s' = dequeued s @ [(w, i, l)]"
      "heap_data (heap (queues s')) = heap_data (heap (queues s))"
    and l: "l = terminal (heap_data (heap (queues s))) x"
  shows "two_ok n s'"
  unfolding two_ok_def
proof (intro conjI allI impI)
  fix v v'
  assume v: "int v < n" "int v' < n" "v \<noteq> v'"
  have other: "holds (pc_two s u) \<noteq> Some x" if "int u < n" for u
    using x that by (cases "pc_two s u") (auto simp: raw_held_def done_held_def)
  show "holds (pc_two s' v) = None \<or> holds (pc_two s' v) \<noteq> holds (pc_two s' v')"
    using two v other [of v] other [of v'] w(2)
    by (auto simp: two_ok_def s'(1))
next
  fix v
  assume v: "int v < n"
  show "sentinel_count v (dequeued s')
      = (if took_sentinel (heap_data (heap (queues s'))) (pc_two s' v) then 1 else 0)"
    using two v w by (auto simp: two_ok_def s' l)
next
  show "\<forall>e\<in>set (dequeued s'). int (fst e) < n"
    using two w(1) by (simp add: two_ok_def s'(2))
qed

lemma two_ok_move:
  assumes two: "two_ok n s" and w: "int w < n"
    and p: "holds p = None \<or> holds p = holds (pc_two s w)"
      "took_sentinel (heap_data (heap (queues s))) p
         = took_sentinel (heap_data (heap (queues s))) (pc_two s w)"
    and s': "pc_two s' = (pc_two s)(w := p)" "dequeued s' = dequeued s"
      "\<And>b. terminal (heap_data (heap (queues s'))) b = terminal (heap_data (heap (queues s))) b"
  shows "two_ok n s'"
  unfolding two_ok_def
proof (intro conjI allI impI)
  fix v v'
  assume v: "int v < n" "int v' < n" "v \<noteq> v'"
  have u: "holds (pc_two s v) = None \<or> holds (pc_two s v) \<noteq> holds (pc_two s v')"
    "holds (pc_two s v') = None \<or> holds (pc_two s v') \<noteq> holds (pc_two s v)"
    using two v by (auto simp: two_ok_def)
  show "holds (pc_two s' v) = None \<or> holds (pc_two s' v) \<noteq> holds (pc_two s' v')"
    using u p(1) v(3) by (auto simp: s'(1))
next
  fix v
  assume v: "int v < n"
  have "took_sentinel (heap_data (heap (queues s'))) (pc_two s' v)
      = took_sentinel (heap_data (heap (queues s))) (pc_two s v)"
    using p(2) took_sentinel_cong [OF s'(3)] by (simp add: s'(1))
  then show "sentinel_count v (dequeued s')
      = (if took_sentinel (heap_data (heap (queues s'))) (pc_two s' v) then 1 else 0)"
    using two v by (simp add: two_ok_def s'(2))
next
  show "\<forall>e\<in>set (dequeued s'). int (fst e) < n"
    using two by (simp add: two_ok_def s'(2))
qed

lemma terminal_heap_data:
  "heap q a = Some n \<Longrightarrow> terminal (heap_data (heap q)) a = is_the_last_node n"
  by (simp add: terminal_def heap_data_def node_data_def)

lemma stage_two_inv:
  assumes inv: "stages_inv_at process fs n s xs ys P S K k"
  shows "stage_two process w s \<noteq> Crash
       \<and> (\<forall>s'. stage_two process w s = Next s' \<longrightarrow> stages_inv process fs n s')"
proof (cases "int w < n")
  case False
  then show ?thesis
    using inv by (simp add: stage_two_def stages_inv_at_def)
next
  case w: True
  let ?R = "raw_held n (pc_two s)" and ?Dn = "done_held n (pc_two s)"
  let ?E = "emit_held (pc_three s)" and ?C = "sentinels_created n (pc_one s)"
  let ?d = "heap_data (heap (queues s))"
  have tn: "threads_number s = n"
    and f: "flow_at process fs s ?R ?Dn ?E ?C xs ys P S K k"
    and one: "one_ok fs n s K" and three: "three_ok fs s ys k" and two: "two_ok n s"
    and sent: "sent_ok n s ys"
    using inv by (simp_all add: stages_inv_at_def)
  have uniq: "\<forall>w w'. int w < n \<longrightarrow> int w' < n \<longrightarrow> w \<noteq> w' \<longrightarrow>
      holds (pc_two s w) = None \<or> holds (pc_two s w) \<noteq> holds (pc_two s w')"
    using two by (simp add: two_ok_def)
  have wt: "int w < threads_number s"
    using w tn by simp
  show ?thesis
  proof (cases "pc_two s w")
    case Two_wait
    show ?thesis
    proof (cases "size_input_work_queue (queues s) = 0")
      case True
      then show ?thesis
        using wt by (simp add: stage_two_def Two_wait)
    next
      case False
      obtain x q' xs' where q': "remove_from_input_work_queue (queues s) = Some (x, q')"
        and xs: "xs = x # xs'" and x: "x \<notin> ?R \<union> ?Dn \<union> ?E"
        and d': "heap_data (heap q') = ?d"
        and alt: "(P < K \<and> heap_data (heap q') x = Some (raw_item fs P)
                 \<and> flow_at process fs (s\<lparr>queues := q', dequeued := dequeued s @ dequeue_entry w q' x\<rparr>)
                      (insert x ?R) ?Dn ?E ?C xs' ys (Suc P) S K k)
               \<or> (P = K \<and> 0 < S \<and> heap_data (heap q') x = Some (sentinel_item fs)
                 \<and> flow_at process fs (s\<lparr>queues := q', dequeued := dequeued s @ dequeue_entry w q' x\<rparr>)
                      (insert x ?R) ?Dn ?E ?C xs' ys P (S - 1) K k)"
        using flow_pop [OF f False, of w] by blast
      let ?s = "s\<lparr>queues := q', dequeued := dequeued s @ dequeue_entry w q' x,
        pc_two := (pc_two s)(w := Two_holds x)\<rparr>"
      have held: "raw_held n (pc_two ?s) = insert x ?R" "done_held n (pc_two ?s) = ?Dn"
        using raw_held_take [where pc = "pc_two s", OF w Two_wait] by simp_all
      obtain i l where e: "dequeue_entry w q' x = [(w, i, l)]" "l = terminal ?d x"
        and P': "\<exists>P' S'. flow_at process fs
            (s\<lparr>queues := q', dequeued := dequeued s @ dequeue_entry w q' x\<rparr>)
            (insert x ?R) ?Dn ?E ?C xs' ys P' S' K k"
        using alt
      proof
        assume a: "P < K \<and> heap_data (heap q') x = Some (raw_item fs P)
                 \<and> flow_at process fs (s\<lparr>queues := q', dequeued := dequeued s @ dequeue_entry w q' x\<rparr>)
                      (insert x ?R) ?Dn ?E ?C xs' ys (Suc P) S K k"
        then have "dequeue_entry w q' x = [(w, int P + 1, False)]" "False = terminal ?d x"
          using d' by (auto simp: raw_item_def intro!: dequeue_entry_data)
        then show ?thesis
          using that a by blast
      next
        assume a: "P = K \<and> 0 < S \<and> heap_data (heap q') x = Some (sentinel_item fs)
                 \<and> flow_at process fs (s\<lparr>queues := q', dequeued := dequeued s @ dequeue_entry w q' x\<rparr>)
                      (insert x ?R) ?Dn ?E ?C xs' ys P (S - 1) K k"
        then have "dequeue_entry w q' x = [(w, int (length fs) + 1, True)]" "True = terminal ?d x"
          using d' by (auto simp: sentinel_item_def intro!: dequeue_entry_data)
        then show ?thesis
          using that a by blast
      qed
      obtain P' S' where f': "flow_at process fs
            (s\<lparr>queues := q', dequeued := dequeued s @ dequeue_entry w q' x\<rparr>)
            (insert x ?R) ?Dn ?E ?C xs' ys P' S' K k"
        using P' by blast
      have "flow_at process fs ?s (raw_held n (pc_two ?s)) (done_held n (pc_two ?s))
          ?E ?C xs' ys P' S' K k"
        unfolding held by (rule flow_at_transfer [OF f']) simp_all
      moreover have "two_ok n ?s"
        using x by (intro two_ok_take [OF two w Two_wait, of x ?s i l]) (simp_all add: e d')
      moreover have "sent_ok n ?s ys"
        by (rule sent_ok_worker [OF sent, of _ w "Two_holds x"]) (simp_all add: d')
      moreover have "three_ok fs ?s ys k"
        using three by (simp add: three_ok_cong [of ?s s])
      moreover have "one_ok fs n ?s K"
        using one by (simp add: one_ok_cong [of ?s s])
      ultimately have "stages_inv_at process fs n ?s xs' ys P' S' K k"
        using tn by (simp add: stages_inv_at_def)
      then have "stages_inv process fs n ?s"
        unfolding stages_inv_def by blast
      then show ?thesis
        using wt False q' by (simp add: stage_two_def Two_wait)
    qed
  next
    case (Two_holds a)
    have aR: "a \<in> ?R"
      using w Two_holds by (auto simp: raw_held_def)
    obtain nd where nd: "heap (queues s) a = Some nd"
      using wf_queues_allocated [of "queues s" xs ys "?R \<union> ?Dn \<union> ?E" a] f aR
      by (auto simp: flow_at_def flow_wf_def)
    have ta: "terminal ?d a = is_the_last_node nd"
      using nd by (rule terminal_heap_data)
    have hw: "holds (pc_two s w) = Some a"
      by (simp add: Two_holds)
    show ?thesis
    proof (cases "is_the_last_node nd")
      case True
      obtain q' where q': "add_to_output_work_queue a (queues s) = Some q'"
        and d': "heap_data (heap q') = ?d"
        and f': "flow_at process fs (s\<lparr>queues := q'\<rparr>) (?R - {a}) (?Dn - {a}) ?E ?C xs
                (insort_key (id_of (heap (queues s))) a ys) P S K k"
        using flow_add_output [OF f, of a] aR ta True by blast
      let ?s = "s\<lparr>queues := q', pc_two := (pc_two s)(w := Two_done)\<rparr>"
      let ?ys = "insort_key (id_of (heap (queues s))) a ys"
      have held: "raw_held n (pc_two ?s) = ?R - {a}" "done_held n (pc_two ?s) = ?Dn - {a}"
        using raw_held_release [where pc = "pc_two s" and p = Two_done, OF uniq w hw] by simp_all
      have "flow_at process fs ?s (raw_held n (pc_two ?s)) (done_held n (pc_two ?s))
          ?E ?C xs ?ys P S K k"
        unfolding held by (rule flow_at_transfer [OF f']) simp_all
      moreover have "two_ok n ?s"
        using ta True by (intro two_ok_move [OF two w, of Two_done]) (simp_all add: Two_holds d')
      moreover have "sent_ok n ?s ?ys"
        using ta True
        by (intro sent_ok_worker [OF sent, of _ w Two_done]) (auto simp: d' set_insort_key)
      moreover have "three_ok fs ?s ?ys k"
        using three by (rule three_ok_grow) (simp_all add: insort_key_ne)
      moreover have "one_ok fs n ?s K"
        using one by (simp add: one_ok_cong [of ?s s])
      ultimately have "stages_inv_at process fs n ?s xs ?ys P S K k"
        using tn by (simp add: stages_inv_at_def)
      then have "stages_inv process fs n ?s"
        unfolding stages_inv_def by blast
      then show ?thesis
        using wt nd True q' by (simp add: stage_two_def Two_holds)
    next
      case False
      obtain q' where q': "process_frame process a (queues s) = Some q'"
        and t': "\<forall>b. terminal (heap_data (heap q')) b = terminal ?d b"
        and f': "flow_at process fs
                (s\<lparr>queues := q', transformed := transformed s @ [id_of (heap (queues s)) a]\<rparr>)
                (?R - {a}) (insert a ?Dn) ?E ?C xs ys P S K k"
        using flow_process [OF f aR] ta False by blast
      let ?s = "s\<lparr>queues := q', transformed := transformed s @ [frame_number nd],
        pc_two := (pc_two s)(w := Two_processed a)\<rparr>"
      have held: "raw_held n (pc_two ?s) = ?R - {a}" "done_held n (pc_two ?s) = insert a ?Dn"
        using raw_held_processed [where pc = "pc_two s", OF uniq w Two_holds] by simp_all
      have "flow_at process fs ?s (raw_held n (pc_two ?s)) (done_held n (pc_two ?s))
          ?E ?C xs ys P S K k"
        unfolding held by (rule flow_at_transfer [OF f']) (simp_all add: nd)
      moreover have "two_ok n ?s"
        using ta False t'
        by (intro two_ok_move [OF two w, of "Two_processed a"]) (simp_all add: Two_holds)
      moreover have "sent_ok n ?s ys"
        using t' by (intro sent_ok_worker [OF sent, of _ w "Two_processed a"]) simp_all
      moreover have "three_ok fs ?s ys k"
        using three by (simp add: three_ok_cong [of ?s s])
      moreover have "one_ok fs n ?s K"
        using one by (simp add: one_ok_cong [of ?s s])
      ultimately have "stages_inv_at process fs n ?s xs ys P S K k"
        using tn by (simp add: stages_inv_at_def)
      then have "stages_inv process fs n ?s"
        unfolding stages_inv_def by blast
      then show ?thesis
        using wt nd False q' by (simp add: stage_two_def Two_holds)
    qed
  next
    case (Two_processed a)
    have aD: "a \<in> ?Dn"
      using w Two_processed by (auto simp: done_held_def)
    have hw: "holds (pc_two s w) = Some a"
      by (simp add: Two_processed)
    obtain q' where q': "add_to_output_work_queue a (queues s) = Some q'"
      and d': "heap_data (heap q') = ?d"
      and f': "flow_at process fs (s\<lparr>queues := q'\<rparr>) (?R - {a}) (?Dn - {a}) ?E ?C xs
              (insort_key (id_of (heap (queues s))) a ys) P S K k"
      using flow_add_output [OF f, of a] aD by blast
    let ?s = "s\<lparr>queues := q', pc_two := (pc_two s)(w := Two_wait)\<rparr>"
    let ?ys = "insort_key (id_of (heap (queues s))) a ys"
    have held: "raw_held n (pc_two ?s) = ?R - {a}" "done_held n (pc_two ?s) = ?Dn - {a}"
      using raw_held_release [where pc = "pc_two s" and p = Two_wait, OF uniq w hw] by simp_all
    have "flow_at process fs ?s (raw_held n (pc_two ?s)) (done_held n (pc_two ?s))
        ?E ?C xs ?ys P S K k"
      unfolding held by (rule flow_at_transfer [OF f']) simp_all
    moreover have "two_ok n ?s"
      by (intro two_ok_move [OF two w, of Two_wait]) (simp_all add: Two_processed d')
    moreover have "sent_ok n ?s ?ys"
      by (intro sent_ok_worker [OF sent, of _ w Two_wait]) (auto simp: d' set_insort_key)
    moreover have "three_ok fs ?s ?ys k"
      using three by (rule three_ok_grow) (simp_all add: insort_key_ne)
    moreover have "one_ok fs n ?s K"
      using one by (simp add: one_ok_cong [of ?s s])
    ultimately have "stages_inv_at process fs n ?s xs ?ys P S K k"
      using tn by (simp add: stages_inv_at_def)
    then have "stages_inv process fs n ?s"
      unfolding stages_inv_def by blast
    then show ?thesis
      using wt q' by (simp add: stage_two_def Two_processed)
  next
    case Two_done
    then show ?thesis
      using wt by (simp add: stage_two_def)
  qed
qed

lemma three_ok_simps:
  "pc_three s = Three_top \<Longrightarrow> three_ok fs s ys k = (current_frame s = int k)"
  "pc_three s = Three_wait_nonempty \<Longrightarrow> three_ok fs s ys k = (current_frame s = int k + 1)"
  "pc_three s = Three_wait_head \<Longrightarrow> three_ok fs s ys k = (current_frame s = int k + 1 \<and> ys \<noteq> [])"
  "pc_three s = Three_holds a \<Longrightarrow> three_ok fs s ys k = (current_frame s = int k + 1)"
  "pc_three s = Three_done \<Longrightarrow> three_ok fs s ys k = (k = length fs)"
  by (simp_all add: three_ok_def)

lemma heap_data_free: "heap_data (h(a := None)) = (heap_data h)(a := None)"
  by (rule ext) (simp add: heap_data_def)

lemma stage_three_inv:
  assumes inv: "stages_inv_at process fs n s xs ys P S K k"
  shows "stage_three s \<noteq> Crash \<and> (\<forall>s'. stage_three s = Next s' \<longrightarrow> stages_inv process fs n s')"
proof -
  let ?R = "raw_held n (pc_two s)" and ?Dn = "done_held n (pc_two s)"
  let ?E = "emit_held (pc_three s)" and ?C = "sentinels_created n (pc_one s)"
  let ?d = "heap_data (heap (queues s))"
  have tn: "threads_number s = n"
    and f: "flow_at process fs s ?R ?Dn ?E ?C xs ys P S K k"
    and one: "one_ok fs n s K" and three: "three_ok fs s ys k" and two: "two_ok n s"
    and sent: "sent_ok n s ys"
    using inv by (simp_all add: stages_inv_at_def)
  show ?thesis
  proof (cases "pc_three s")
    case Three_top
    let ?s = "s\<lparr>current_frame := current_frame s + 1, pc_three := Three_wait_nonempty\<rparr>"
    have f0: "flow_at process fs s ?R ?Dn {} ?C xs ys P S K k"
      using f by (simp add: Three_top)
    have "flow_at process fs ?s ?R ?Dn {} ?C xs ys P S K k"
      by (rule flow_at_transfer [OF f0]) simp_all
    moreover have "two_ok n ?s"
      using two by (rule two_ok_cong) simp_all
    moreover have "three_ok fs ?s ys k"
      using three by (simp add: three_ok_simps Three_top)
    moreover have "sent_ok n ?s ys"
      by (rule sent_ok_cong [OF sent]) (simp_all add: Three_top)
    moreover have "one_ok fs n ?s K"
      using one by (simp add: one_ok_cong [of ?s s])
    ultimately have "stages_inv_at process fs n ?s xs ys P S K k"
      using tn by (simp add: stages_inv_at_def)
    then have "stages_inv process fs n ?s"
      unfolding stages_inv_def by blast
    then show ?thesis
      by (simp add: stage_three_def Three_top)
  next
    case Three_wait_nonempty
    show ?thesis
    proof (cases "size_output_work_queue (queues s) = 0")
      case True
      then show ?thesis
        by (simp add: stage_three_def Three_wait_nonempty)
    next
      case False
      let ?s = "s\<lparr>pc_three := Three_wait_head\<rparr>"
      have "ys \<noteq> []"
        using f False output_queue_nonempty [of "queues s" ys]
        by (simp add: flow_at_def flow_wf_def wf_queues_def)
      then have "three_ok fs ?s ys k"
        using three by (simp add: three_ok_simps Three_wait_nonempty)
      moreover have "sent_ok n ?s ys"
        by (rule sent_ok_cong [OF sent]) (simp_all add: Three_wait_nonempty)
      moreover have "flow_at process fs s ?R ?Dn {} ?C xs ys P S K k"
        using f by (simp add: Three_wait_nonempty)
      then have "flow_at process fs ?s ?R ?Dn {} ?C xs ys P S K k"
        by (rule flow_at_transfer) simp_all
      moreover have "two_ok n ?s"
        using two by (rule two_ok_cong) simp_all
      moreover have "one_ok fs n ?s K"
        using one by (simp add: one_ok_cong [of ?s s])
      ultimately have "stages_inv_at process fs n ?s xs ys P S K k"
        using tn by (simp add: stages_inv_at_def)
      then have "stages_inv process fs n ?s"
        unfolding stages_inv_def by blast
      then show ?thesis
        using False by (simp add: stage_three_def Three_wait_nonempty)
    qed
  next
    case Three_wait_head
    have cf: "current_frame s = int k + 1" and ne: "ys \<noteq> []"
      using three by (simp_all add: three_ok_simps Three_wait_head)
    have f0: "flow_at process fs s ?R ?Dn {} ?C xs ys P S K k"
      using f by (simp add: Three_wait_head)
    have sz: "size_output_work_queue (queues s) \<noteq> 0"
      using f ne by (auto simp: flow_at_def flow_wf_def wf_queues_def output_queue_def)
    obtain y ys' where ys: "ys = y # ys'"
      and hd: "get_head_id_from_output_work_queue (queues s) = Some (id_of (heap (queues s)) y)"
      and rm: "id_of (heap (queues s)) y = int k + 1 \<longrightarrow>
                (\<exists>q'. remove_from_output_work_queue (queues s) = Some (y, q')
                   \<and> heap_data (heap q') = ?d
                   \<and> flow_at process fs (s\<lparr>queues := q'\<rparr>) ?R ?Dn {y} ?C xs ys' P S K k)"
      using flow_remove_output [OF f0 sz] by blast
    show ?thesis
    proof (cases "id_of (heap (queues s)) y = int k + 1")
      case False
      then show ?thesis
        by (simp add: stage_three_def Three_wait_head hd cf)
    next
      case True
      obtain q' where q': "remove_from_output_work_queue (queues s) = Some (y, q')"
        and d': "heap_data (heap q') = ?d"
        and f': "flow_at process fs (s\<lparr>queues := q'\<rparr>) ?R ?Dn {y} ?C xs ys' P S K k"
        using rm True by blast
      let ?s = "s\<lparr>queues := q', pc_three := Three_holds y\<rparr>"
      have "flow_at process fs ?s ?R ?Dn {y} ?C xs ys' P S K k"
        by (rule flow_at_transfer [OF f']) simp_all
      moreover have "two_ok n ?s"
        using two by (rule two_ok_cong) (simp_all add: d')
      moreover have "three_ok fs ?s ys' k"
        using cf by (simp add: three_ok_simps(4) [of _ y])
      moreover have "sent_ok n ?s ys'"
        unfolding sent_ok_def
      proof (intro impI)
        assume a: "(\<exists>w. int w < n \<and> pc_two ?s w = Two_done) \<and> pc_three ?s \<noteq> Three_done
          \<and> (\<forall>a. pc_three ?s = Three_holds a \<longrightarrow> \<not> terminal (heap_data (heap (queues ?s))) a)"
        then have ny: "\<not> terminal ?d y"
          by (simp add: d')
        obtain b where b: "b \<in> set ys" "terminal ?d b"
          using sent a unfolding sent_ok_def by (auto simp: Three_wait_head)
        then have "b \<in> set ys'"
          using ny by (auto simp: ys)
        then show "\<exists>a\<in>set ys'. terminal (heap_data (heap (queues ?s))) a"
          using b(2) by (auto simp: d')
      qed
      moreover have "one_ok fs n ?s K"
        using one by (simp add: one_ok_cong [of ?s s])
      ultimately have "stages_inv_at process fs n ?s xs ys' P S K k"
        using tn by (simp add: stages_inv_at_def)
      then have "stages_inv process fs n ?s"
        unfolding stages_inv_def by blast
      then show ?thesis
        using True q' by (simp add: stage_three_def Three_wait_head hd cf)
    qed
  next
    case (Three_holds a)
    have cf: "current_frame s = int k + 1"
      using three by (simp add: three_ok_simps(4) [OF Three_holds])
    have fa: "flow_at process fs s ?R ?Dn {a} ?C xs ys P S K k"
      using f by (simp add: Three_holds)
    obtain nd where nd: "heap (queues s) a = Some nd"
      using wf_queues_allocated [of "queues s" xs ys "?R \<union> ?Dn \<union> {a}" a] fa
      by (auto simp: flow_at_def flow_wf_def)
    have ta: "terminal ?d a = is_the_last_node nd"
      using nd by (rule terminal_heap_data)
    show ?thesis
    proof (cases "is_the_last_node nd")
      case True
      let ?s = "s\<lparr>pc_three := Three_done\<rparr>"
      have tt: "terminal ?d a"
        using ta True by simp
      have f': "flow_at process fs s ?R ?Dn {} ?C xs ys P S K k" and k: "k = length fs"
        using flow_sentinel_seen [OF fa tt] by blast+
      have "flow_at process fs ?s ?R ?Dn {} ?C xs ys P S K k"
        by (rule flow_at_transfer [OF f']) simp_all
      moreover have "two_ok n ?s"
        using two by (rule two_ok_cong) simp_all
      moreover have "three_ok fs ?s ys k"
        using k by (simp add: three_ok_simps(5))
      moreover have "sent_ok n ?s ys"
        by (simp add: sent_ok_def)
      moreover have "one_ok fs n ?s K"
        using one by (simp add: one_ok_cong [of ?s s])
      ultimately have "stages_inv_at process fs n ?s xs ys P S K k"
        using tn by (simp add: stages_inv_at_def)
      then have "stages_inv process fs n ?s"
        unfolding stages_inv_def by blast
      then show ?thesis
        using nd True by (simp add: stage_three_def Three_holds)
    next
      case False
      obtain nd' where nd': "heap (queues s) a = Some nd'"
        "frame nd' = Some (process (fs ! k))"
        and f': "flow_at process fs
                (s\<lparr>oVideoWriter := oVideoWriter s @ [process (fs ! k)],
                   queues := (queues s)\<lparr>heap := (heap (queues s))(a := None)\<rparr>\<rparr>)
                ?R ?Dn {} ?C xs ys P S K (Suc k)"
        using flow_display [OF fa] ta False by blast
      let ?t = "s\<lparr>oVideoWriter := oVideoWriter s @ [process (fs ! k)],
                   queues := (queues s)\<lparr>heap := (heap (queues s))(a := None)\<rparr>\<rparr>"
      let ?s = "?t\<lparr>pc_three := Three_top\<rparr>"
      have send: "send_frame_to_display a s = Some ?t"
        using nd' by (simp add: send_frame_to_display_def)
      have aR: "a \<notin> ?R"
        using fa by (auto simp: flow_at_def flow_wf_def)
      have "flow_at process fs ?s ?R ?Dn {} ?C xs ys P S K (Suc k)"
        by (rule flow_at_transfer [OF f']) simp_all
      moreover have "two_ok n ?s"
      proof (rule two_ok_cong [OF two])
        fix b
        assume "b \<in> raw_held n (pc_two s)"
        then have "b \<noteq> a"
          using aR by auto
        then show "terminal (heap_data (heap (queues ?s))) b = terminal ?d b"
          by (simp add: heap_data_free terminal_def)
      qed simp_all
      moreover have "three_ok fs ?s ys (Suc k)"
        using cf by (simp add: three_ok_simps(1))
      moreover have "sent_ok n ?s ys"
        unfolding sent_ok_def
      proof (intro impI)
        assume a: "(\<exists>w. int w < n \<and> pc_two ?s w = Two_done) \<and> pc_three ?s \<noteq> Three_done
          \<and> (\<forall>a. pc_three ?s = Three_holds a \<longrightarrow> \<not> terminal (heap_data (heap (queues ?s))) a)"
        obtain b where b: "b \<in> set ys" "terminal ?d b"
          using sent a ta False unfolding sent_ok_def by (auto simp: Three_holds)
        have "a \<notin> set ys"
          using fa by (auto simp: flow_at_def flow_wf_def wf_queues_def)
        then have "b \<noteq> a"
          using b(1) by auto
        then show "\<exists>a\<in>set ys. terminal (heap_data (heap (queues ?s))) a"
          using b by (auto simp: heap_data_free terminal_def)
      qed
      moreover have "one_ok fs n ?s K"
        using one by (simp add: one_ok_cong [of ?s s])
      ultimately have "stages_inv_at process fs n ?s xs ys P S K (Suc k)"
        using tn by (simp add: stages_inv_at_def)
      then have "stages_inv process fs n ?s"
        unfolding stages_inv_def by blast
      then show ?thesis
        using nd False send by (simp add: stage_three_def Three_holds)
    qed
  next
    case Three_done
    then show ?thesis
      by (simp add: stage_three_def)
  qed
qed

lemma stages_step_inv:
  assumes "stages_inv process fs n s"
  shows "stages_step process l s \<noteq> Crash
       \<and> (\<forall>s'. stages_step process l s = Next s' \<longrightarrow> stages_inv process fs n s')"
proof -
  obtain xs ys P S K k where "stages_inv_at process fs n s xs ys P S K k"
    using assms unfolding stages_inv_def by blast
  then show ?thesis
    using stage_one_inv [of process fs n s xs ys P S K k]
      stage_two_inv [of process fs n s xs ys P S K k]
      stage_three_inv [of process fs n s xs ys P S K k]
    by (cases l) simp_all
qed

lemma stages_run_inv:
  assumes "stages_inv process fs n s"
  shows "stages_run process ls s \<noteq> Crash
       \<and> (\<forall>s'. stages_run process ls s = Next s' \<longrightarrow> stages_inv process fs n s')"
  using assms
proof (induction ls arbitrary: s)
  case Nil
  then show ?case by simp
next
  case (Cons l ls)
  show ?case
    using stages_step_inv [OF Cons.prems, of l] Cons.IH
    by (cases "stages_step process l s") auto
qed

lemma drain_output_work_queue_empties:
  assumes "wf_queues q xs ys D"
  shows "\<exists>q'. drain_output_work_queue q = Some q' \<and> output_queue q' [] \<and> input_queue q' xs"
  using assms
proof (induction ys arbitrary: q D)
  case Nil
  then show ?case
    by (subst drain_output_work_queue.simps) (simp add: wf_queues_def output_queue_def)
next
  case (Cons y ys)
  have "spec_op (id_of (heap q)) Remove_output (xs, y # ys, D) = Some ([y], (xs, ys, insert y D))"
    by simp
  from exec_op_refines [OF Cons.prems this]
  obtain q1 where q1: "remove_from_output_work_queue q = Some (y, q1)"
    "wf_queues q1 xs ys (insert y D)"
    by auto
  have "wf_queues (q1\<lparr>heap := (heap q1)(y := None)\<rparr>) xs ys (insert y D - {y})"
    using q1(2) by (rule wf_queues_free) simp
  from Cons.IH [OF this]
  obtain q' where "drain_output_work_queue (q1\<lparr>heap := (heap q1)(y := None)\<rparr>) = Some q'"
    "output_queue q' []" "input_queue q' xs"
    by blast
  moreover have "size_output_work_queue q > 0"
    using Cons.prems by (simp add: wf_queues_def output_queue_def)
  ultimately show ?case
    using q1(1) by (subst drain_output_work_queue.simps) simp
qed

lemma sentinel_total:
  assumes "\<forall>e\<in>set dq. fst e < m"
  shows "length (filter (\<lambda>e. snd (snd e)) dq) = (\<Sum>w<m. sentinel_count w dq)"
  using assms
proof (induction dq rule: rev_induct)
  case Nil
  show ?case by (simp add: sentinel_count_def)
next
  case (snoc e dq)
  obtain w i l where e: "e = (w, i, l)"
    by (cases e)
  have w: "w < m"
    using snoc.prems by (simp add: e)
  have "(\<Sum>v<m. sentinel_count v (dq @ [e]))
      = (\<Sum>v<m. sentinel_count v dq) + (\<Sum>v<m. if v = w \<and> l then 1 else 0)"
    by (simp add: e sum.distrib)
  also have "(\<Sum>v<m. if v = w \<and> l then 1 else 0) = (if l then 1 else (0::nat))"
    using w by (cases l) (simp_all add: sum.delta)
  finally show ?case
    using snoc by (simp add: e)
qed

lemma flow_log_sentinels:
  assumes "flow_log fs dq P S C"
  shows "length (filter (\<lambda>e. snd (snd e)) dq) = C - S"
proof -
  have "length (filter (\<lambda>e. snd (snd e)) dq) = length (filter snd (map snd dq))"
    by (simp add: filter_map comp_def)
  also have "\<dots> = C - S"
    using assms unfolding flow_log_def by (simp add: filter_map comp_def)
  finally show ?thesis .
qed

text \<open>What the invariant says once every thread has returned.\<close>

lemma stages_final_facts:
  assumes inv: "stages_inv process fs n s" and fin: "stages_final s" and n: "1 \<le> n"
  shows "oVideoWriter s = map process fs"
    and "distinct (transformed s)" and "set (transformed s) = {1..int (length fs)}"
    and "map snd (dequeued s) = map (\<lambda>j. (int j + 1, False)) [0..<length fs]
           @ replicate (nat n) (int (length fs) + 1, True)"
    and "enqueued s = map (\<lambda>j. (int j + 1, False)) [0..<length fs]
           @ replicate (nat n) (int (length fs) + 1, True)"
    and "\<forall>w<nat n. sentinel_count w (dequeued s) = 1"
    and "input_queue (queues s) []"
    and "\<exists>q'. drain_output_work_queue (queues s) = Some q' \<and> output_queue q' []"
proof -
  obtain xs ys P S K k where at: "stages_inv_at process fs n s xs ys P S K k"
    using inv unfolding stages_inv_def by blast
  have tn: "threads_number s = n"
    using at by (simp add: stages_inv_at_def)
  have pcs: "pc_one s = One_done" "pc_three s = Three_done"
    "\<And>w. w < nat n \<Longrightarrow> pc_two s w = Two_done"
    using fin tn by (simp_all add: stages_final_def)
  have R: "raw_held n (pc_two s) = {}" and Dn: "done_held n (pc_two s) = {}"
    using pcs(3) by (auto simp: raw_held_def done_held_def)
  have f: "flow_at process fs s {} {} {} (nat n) xs ys P S K k" and two: "two_ok n s"
    using at by (simp_all add: stages_inv_at_def R Dn pcs)
  have k: "k = length fs"
    using at by (simp add: stages_inv_at_def pcs three_ok_def)
  let ?d = "heap_data (heap (queues s))"
  have kP: "k \<le> P" and inp: "flow_input fs ?d xs P K S (nat n)"
    and lg: "flow_log fs (dequeued s) P S (nat n)" and st: "flow_sent fs (enqueued s) K (nat n)"
    and tr: "flow_transformed ?d (transformed s) {} P"
    and wf: "wf_queues (queues s) xs ys {}"
    using f by (simp_all add: flow_at_def flow_frames_def flow_wf_def)
  have PK: "P = length fs" "K = length fs"
    using kP k inp by (simp_all add: flow_input_def)
  have cnt: "sentinel_count w (dequeued s) = 1" if "w < nat n" for w
    using two pcs(3) [OF that] that by (simp add: two_ok_def)
  have "\<forall>e\<in>set (dequeued s). fst e < nat n"
    using two by (auto simp: two_ok_def)
  then have "length (filter (\<lambda>e. snd (snd e)) (dequeued s)) = (\<Sum>w<nat n. sentinel_count w (dequeued s))"
    by (rule sentinel_total)
  also have "\<dots> = nat n"
    using cnt by simp
  finally have "nat n - S = nat n"
    using flow_log_sentinels [OF lg] by simp
  moreover have "S \<le> nat n"
    using inp by (simp add: flow_input_def)
  ultimately have S: "S = 0"
    using n by simp
  have xs: "xs = []"
    using inp by (simp add: flow_input_def PK S)
  show "oVideoWriter s = map process fs"
    using f k by (simp add: flow_at_def)
  show "distinct (transformed s)" "set (transformed s) = {1..int (length fs)}"
    using tr by (simp_all add: flow_transformed_def frames_in_def PK)
  show "map snd (dequeued s) = map (\<lambda>j. (int j + 1, False)) [0..<length fs]
           @ replicate (nat n) (int (length fs) + 1, True)"
    using lg by (simp add: flow_log_def PK S)
  show "enqueued s = map (\<lambda>j. (int j + 1, False)) [0..<length fs]
           @ replicate (nat n) (int (length fs) + 1, True)"
    using st by (simp add: flow_sent_def PK)
  show "\<forall>w<nat n. sentinel_count w (dequeued s) = 1"
    using cnt by simp
  show "input_queue (queues s) []"
    using wf by (simp add: wf_queues_def xs)
  show "\<exists>q'. drain_output_work_queue (queues s) = Some q' \<and> output_queue q' []"
    using drain_output_work_queue_empties [OF wf] by blast
qed

lemma stages_safe_facts:
  assumes inv: "stages_inv process fs n s"
  shows "\<exists>k\<le>length fs. oVideoWriter s = map process (take k fs)"
    and "\<forall>a x. heap_data (heap (queues s)) a = Some x \<longrightarrow> (fst x = None) = snd (snd x)"
proof -
  obtain xs ys P S K k where at: "stages_inv_at process fs n s xs ys P S K k"
    using inv unfolding stages_inv_def by blast
  then have f: "flow_at process fs s (raw_held n (pc_two s)) (done_held n (pc_two s))
      (emit_held (pc_three s)) (sentinels_created n (pc_one s)) xs ys P S K k"
    by (simp add: stages_inv_at_def)
  have "k \<le> length fs"
    using f by (simp add: flow_at_def flow_frames_def flow_input_def)
  then show "\<exists>k\<le>length fs. oVideoWriter s = map process (take k fs)"
    using f by (auto simp: flow_at_def)
  show "\<forall>a x. heap_data (heap (queues s)) a = Some x \<longrightarrow> (fst x = None) = snd (snd x)"
    using f by (simp add: flow_at_def flow_payload_def)
qed

lemma sum_two_left_upd:
  fixes w m :: nat
  assumes "w < m"
  shows "(\<Sum>v<m. two_left ((pc(w := p)) v)) = (\<Sum>v<m. two_left (pc v)) - two_left (pc w) + two_left p"
proof -
  have "(\<Sum>v<m. two_left ((pc(w := p)) v))
      = (\<Sum>v<m. two_left (pc v) + (if v = w then two_left p - two_left (pc w) else 0))"
    by (intro sum.cong) auto
  also have "\<dots> = (\<Sum>v<m. two_left (pc v))
      + (\<Sum>v<m. if v = w then two_left p - two_left (pc w) else 0)"
    by (simp add: sum.distrib)
  also have "(\<Sum>v<m. if v = w then two_left p - two_left (pc w) else 0)
      = two_left p - two_left (pc w)"
    by (subst sum.delta) (use assms in auto)
  finally show ?thesis
    by simp
qed

lemma sum_two_left_if:
  fixes w m :: nat
  assumes "w < m"
  shows "(\<Sum>v<m. two_left (if v = w then p else pc v))
      = (\<Sum>v<m. two_left (pc v)) - two_left (pc w) + two_left p"
  using sum_two_left_upd [OF assms, of pc p] by (simp add: fun_upd_def)

lemma remove_from_input_allocated:
  "remove_from_input_work_queue q = Some (a, q') \<Longrightarrow> heap q' a \<noteq> None"
  by (auto simp: remove_from_input_work_queue_def set_next_def
      split: option.splits Option.bind_splits)

lemma length_dequeue_entry:
  "remove_from_input_work_queue q = Some (a, q') \<Longrightarrow> length (dequeue_entry w q' a) = 1"
  using remove_from_input_allocated [of q a q'] by (auto simp: dequeue_entry_def)

lemma stage_one_measure:
  assumes "stage_one a s = Next s'"
  shows "stages_measure M s' < stages_measure M s \<and> threads_number s' = threads_number s"
proof (cases "pc_one s")
  case One_capture
  then show ?thesis
    using assms
    by (auto simp: stage_one_def stages_measure_def 
        split: list.splits if_splits option.splits)
next
  case (One_sentinels i)
  then show ?thesis
    using assms
    by (auto simp: stage_one_def stages_measure_def 
        split: list.splits if_splits option.splits)
next
  case One_done
  then show ?thesis
    using assms by (simp add: stage_one_def)
qed

lemma stage_two_measure:
  assumes "stage_two process w s = Next s'"
  shows "stages_measure M s' < stages_measure M s \<and> threads_number s' = threads_number s"
proof -
  have w: "w < nat (threads_number s)"
    using assms by (auto simp: stage_two_def split: if_splits)
  note upd = sum_two_left_if [OF w, of _ "pc_two s"]
  show ?thesis
  proof (cases "pc_two s w")
    case Two_wait
    then show ?thesis
      using assms w length_dequeue_entry [of "queues s" _ _ w]
      by (auto simp: stage_two_def stages_measure_def upd
          split: if_splits option.splits)
  next
    case (Two_holds a)
    then show ?thesis
      using assms w
      by (auto simp: stage_two_def stages_measure_def upd
          split: if_splits option.splits)
  next
    case (Two_processed a)
    then show ?thesis
      using assms w
      by (auto simp: stage_two_def stages_measure_def upd
          split: if_splits option.splits)
  next
    case Two_done
    then show ?thesis
      using assms by (auto simp: stage_two_def split: if_splits)
  qed
qed

lemma stage_three_measure:
  assumes "stage_three s = Next s'"
  shows "stages_measure M s' < stages_measure M s \<and> threads_number s' = threads_number s"
  using assms
  by (cases "pc_three s")
    (auto simp: stage_three_def stages_measure_def 
      send_frame_to_display_def split: if_splits option.splits)

lemma stages_step_measure:
  "stages_step process l s = Next s'
     \<Longrightarrow> stages_measure M s' < stages_measure M s \<and> threads_number s' = threads_number s"
  using stage_one_measure [of _ s s' M] stage_two_measure [of process _ s s' M]
    stage_three_measure [of s s' M]
  by (cases l) simp_all

lemma stages_run_measure:
  "stages_run process ls s = Next s' \<Longrightarrow> stages_measure M s' + int (length ls) \<le> stages_measure M s"
proof (induction ls arbitrary: s)
  case Nil
  then show ?case by simp
next
  case (Cons l ls)
  then obtain s1 where s1: "stages_step process l s = Next s1" "stages_run process ls s1 = Next s'"
    by (auto split: step_result.splits)
  show ?case
    using stages_step_measure [OF s1(1), of M] Cons.IH [OF s1(2)] by simp
qed

lemma stages_measure_nonneg:
  assumes "stages_inv process fs n s"
  shows "0 \<le> stages_measure (length fs) s"
proof -
  obtain xs ys P S K k where at: "stages_inv_at process fs n s xs ys P S K k"
    using assms unfolding stages_inv_def by blast
  let ?C = "sentinels_created n (pc_one s)"
  have f: "flow_at process fs s (raw_held n (pc_two s)) (done_held n (pc_two s))
      (emit_held (pc_three s)) ?C xs ys P S K k"
    using at by (simp add: stages_inv_at_def)
  have "length (map snd (dequeued s)) = P + (?C - S)" "length (enqueued s) = K + ?C"
    "P \<le> K" "k \<le> P" "K \<le> length fs" "length (oVideoWriter s) = k"
    using f by (simp_all add: flow_at_def flow_log_def flow_sent_def flow_input_def flow_frames_def)
  then have 1: "0 \<le> int (length (enqueued s)) - int (length (dequeued s))"
    and 2: "0 \<le> int (length fs) - int (length (oVideoWriter s))"
    by simp_all
  have 3: "0 \<le> (\<Sum>w<nat (threads_number s). two_left (pc_two s w))"
  proof (rule sum_nonneg)
    fix w
    show "0 \<le> two_left (pc_two s w)"
      by (cases "pc_two s w") simp_all
  qed
  have 4: "0 \<le> three_left (pc_three s)"
    by (cases "pc_three s") simp_all
  have 5: "0 \<le> one_left (length (capture s)) (pc_one s)"
    "0 \<le> sentinels_to_come (threads_number s) (pc_one s)"
    by (cases "pc_one s"; simp)+
  show ?thesis
    using 1 2 3 4 5 by (simp add: stages_measure_def)
qed

lemma stage_one_not_blocked:
  "pc_one s \<noteq> One_done \<Longrightarrow> heap (queues s) a = None \<Longrightarrow> stage_one a s \<noteq> Blocked"
  by (auto simp: stage_one_def split: one_pc.splits list.splits option.splits)

lemma stage_two_not_blocked:
  assumes "int w < threads_number s"
    and "pc_two s w = Two_holds a \<or> pc_two s w = Two_processed a
       \<or> (pc_two s w = Two_wait \<and> size_input_work_queue (queues s) \<noteq> 0)"
  shows "stage_two process w s \<noteq> Blocked"
  using assms by (auto simp: stage_two_def split: option.splits if_splits prod.splits)

lemma step_result_Next: "r \<noteq> Crash \<Longrightarrow> r \<noteq> Blocked \<Longrightarrow> \<exists>x. r = Next x"
  by (cases r) auto

lemma fresh_address:
  assumes "finite (dom (h :: addr \<Rightarrow> 'a option))"
  shows "\<exists>a. h a = None"
proof -
  have "\<exists>a. a \<notin> dom h"
    using assms ex_new_if_finite [of "dom h"] by simp
  then show ?thesis
    by auto
qed

lemma sentinel_count_strict:
  fixes m :: nat
  assumes le: "\<And>w. w < m \<Longrightarrow> c w \<le> (1::nat)" and w0: "w0 < m" "c w0 = 0"
  shows "(\<Sum>w<m. c w) < m"
proof -
  have "(\<Sum>w<m. c w) \<le> (\<Sum>w<m. if w = w0 then 0 else 1)"
    using le w0 by (intro sum_mono) auto
  also have "\<dots> = (\<Sum>w\<in>{..<m} - {w0}. 1)"
    by (simp add: sum.If_cases Diff_eq Int_commute flip: Collect_neg_eq)
  also have "\<dots> < m"
    using w0(1) by simp
  finally show ?thesis .
qed

lemma stages_progress:
  assumes inv: "stages_inv process fs n s" and n: "1 \<le> n" and nf: "\<not> stages_final s"
  shows "\<exists>l s'. stages_step process l s = Next s'"
proof -
  obtain xs ys P S K k where at: "stages_inv_at process fs n s xs ys P S K k"
    using inv unfolding stages_inv_def by blast
  let ?R = "raw_held n (pc_two s)" and ?Dn = "done_held n (pc_two s)"
  let ?E = "emit_held (pc_three s)" and ?C = "sentinels_created n (pc_one s)"
  let ?d = "heap_data (heap (queues s))"
  have tn: "threads_number s = n"
    and f: "flow_at process fs s ?R ?Dn ?E ?C xs ys P S K k"
    and one: "one_ok fs n s K" and three: "three_ok fs s ys k" and two: "two_ok n s"
    and sent: "sent_ok n s ys"
    using at by (simp_all add: stages_inv_at_def)
  have nc: "stages_step process l s \<noteq> Crash" for l
    using stages_step_inv [OF inv] by blast
  have go: "\<exists>l s'. stages_step process l s = Next s'" if "stages_step process l s \<noteq> Blocked" for l
    using step_result_Next [OF nc that] by blast
  show ?thesis
  proof (cases "pc_one s = One_done")
    case False
    obtain a where "heap (queues s) a = None"
      using fresh_address [of "heap (queues s)"] f by (auto simp: flow_at_def flow_wf_def)
    then have "stages_step process (Run_one a) s \<noteq> Blocked"
      using stage_one_not_blocked [OF False] by simp
    then show ?thesis
      by (rule go)
  next
    case done1: True
    show ?thesis
    proof (cases "\<exists>w a. int w < n \<and> (pc_two s w = Two_holds a \<or> pc_two s w = Two_processed a
        \<or> (pc_two s w = Two_wait \<and> size_input_work_queue (queues s) \<noteq> 0))")
      case True
      then obtain w a where "int w < threads_number s"
        "pc_two s w = Two_holds a \<or> pc_two s w = Two_processed a
          \<or> (pc_two s w = Two_wait \<and> size_input_work_queue (queues s) \<noteq> 0)"
        using tn by blast
      then have "stages_step process (Run_two w) s \<noteq> Blocked"
        using stage_two_not_blocked [of w s a process] by simp
      then show ?thesis
        by (rule go)
    next
      case idle: False
      have pcw: "pc_two s w = Two_done \<or> (pc_two s w = Two_wait \<and> size_input_work_queue (queues s) = 0)"
        if "int w < n" for w
        using idle that by (cases "pc_two s w") auto
      have C: "?C = nat n" and K: "K = length fs"
        using one flow_at_capture_empty [OF f] by (simp_all add: done1 one_ok_simps(3))
      have inp: "flow_input fs ?d xs P K S (nat n)" and lg: "flow_log fs (dequeued s) P S (nat n)"
        and inq: "input_queue (queues s) xs"
        using f by (simp_all add: flow_at_def C flow_wf_def wf_queues_def)
      have cnt: "sentinel_count w (dequeued s) = (if pc_two s w = Two_done then 1 else 0)"
        if "w < nat n" for w
      proof -
        have w: "int w < n"
          using that by simp
        have "took_sentinel ?d (pc_two s w) = (pc_two s w = Two_done)"
          using pcw [OF w] by auto
        then show ?thesis
          using two w by (simp add: two_ok_def)
      qed
      have "\<forall>e\<in>set (dequeued s). fst e < nat n"
        using two by (auto simp: two_ok_def)
      then have total: "(\<Sum>w<nat n. sentinel_count w (dequeued s)) = nat n - S"
        using sentinel_total [of "dequeued s" "nat n"] flow_log_sentinels [OF lg] by simp
      have alldone: "pc_two s w = Two_done" if w: "w < nat n" for w
      proof (rule ccontr)
        assume nd: "pc_two s w \<noteq> Two_done"
        then have "size_input_work_queue (queues s) = 0"
          using pcw [of w] w by auto
        then have "xs = []"
          using inq by (simp add: input_queue_def)
        then have "S = 0"
          using inp by (simp add: flow_input_def)
        moreover have "(\<Sum>w<nat n. sentinel_count w (dequeued s)) < nat n"
          using cnt nd w by (intro sentinel_count_strict [of _ _ w]) auto
        ultimately show False
          using total by simp
      qed
      have "(\<Sum>w<nat n. sentinel_count w (dequeued s)) = nat n"
        using cnt alldone by simp
      then have S: "S = 0"
        using total inp n by (simp add: flow_input_def)
      have PK: "P = K"
        using inp n S by (auto simp: flow_input_def)
      have R: "?R = {}" and Dn: "?Dn = {}"
        using alldone by (auto simp: raw_held_def done_held_def)
      have w0: "int 0 < n \<and> pc_two s 0 = Two_done"
        using n alldone [of 0] by simp
      show ?thesis
      proof (cases "pc_three s")
        case Three_top
        then have "stages_step process Run_three s \<noteq> Blocked"
          by (simp add: stage_three_def)
        then show ?thesis by (rule go)
      next
        case (Three_holds a)
        then have "stages_step process Run_three s \<noteq> Blocked"
          by (simp add: stage_three_def split: option.splits)
        then show ?thesis by (rule go)
      next
        case Three_done
        then have "stages_final s"
          using done1 alldone tn by (simp add: stages_final_def)
        then show ?thesis
          using nf by simp
      next
        case Three_wait_nonempty
        obtain b where "b \<in> set ys"
          using sent w0 unfolding sent_ok_def by (auto simp: Three_wait_nonempty)
        then have "size_output_work_queue (queues s) \<noteq> 0"
          using f by (auto simp: flow_at_def flow_wf_def wf_queues_def output_queue_def)
        then have "stages_step process Run_three s \<noteq> Blocked"
          by (simp add: stage_three_def Three_wait_nonempty)
        then show ?thesis by (rule go)
      next
        case Three_wait_head
        have cf: "current_frame s = int k + 1"
          using three by (simp add: three_ok_simps Three_wait_head)
        obtain b where b: "b \<in> set ys" "terminal ?d b"
          using sent w0 unfolding sent_ok_def by (auto simp: Three_wait_head)
        obtain y ys' where ys: "ys = y # ys'"
          using b(1) by (cases ys) auto
        have oq: "output_queue (queues s) (y # ys')"
          using f by (simp add: flow_at_def flow_wf_def wf_queues_def ys)
        have hd: "get_head_id_from_output_work_queue (queues s) = Some (ident ?d y)"
          using get_head_id_output [OF oq] by (simp add: id_of_ident)
        have nodes: "flow_nodes process fs ?d ys {} {} {}"
          and frames: "flow_frames ?d ys {} {} {} k P"
          and srt: "sorted (map (ident ?d) ys)"
          using f by (simp_all add: flow_at_def R Dn Three_wait_head flow_order_def)
        have img: "ident ?d ` frames_in ?d (set ys) = {int k + 1..int P}" and kP: "k \<le> P"
          using frames by (simp_all add: flow_frames_def)
        have PM: "P = length fs"
          using PK K by simp
        have ty: "?d c = Some (sentinel_item fs) \<or> (\<exists>j<length fs. ?d c = Some (done_item process fs j))"
          if "c \<in> set ys" for c
          using nodes that by (simp add: flow_nodes_def)
        have lo: "int k + 1 \<le> ident ?d c" if c: "c \<in> set ys" for c
        proof (cases "terminal ?d c")
          case True
          then have "?d c = Some (sentinel_item fs)"
            using ty [OF c] by auto
          then show ?thesis
            using kP PM by simp
        next
          case False
          then have "ident ?d c \<in> {int k + 1..int P}"
            using c img by (auto simp: frames_in_def)
          then show ?thesis
            by simp
        qed
        have "\<exists>c\<in>set ys. ident ?d c = int k + 1"
        proof (cases "k < P")
          case True
          then have "int k + 1 \<in> ident ?d ` frames_in ?d (set ys)"
            unfolding img by simp
          then show ?thesis
            by (auto simp: frames_in_def)
        next
          case False
          then have "k = length fs"
            using kP PM by simp
          moreover have "?d b = Some (sentinel_item fs)"
            using ty [OF b(1)] b(2) by auto
          ultimately show ?thesis
            using b(1) by (intro bexI [of _ b]) simp_all
        qed
        then obtain c where c: "c \<in> set ys" "ident ?d c = int k + 1"
          by blast
        have "ident ?d y \<le> ident ?d c"
          using srt c(1) by (auto simp: ys)
        then have "ident ?d y = int k + 1"
          using lo [of y] c(2) by (simp add: ys)
        then have "stages_step process Run_three s \<noteq> Blocked"
          by (simp add: stage_three_def Three_wait_head hd cf split: option.splits)
        then show ?thesis by (rule go)
      qed
    qed
  qed
qed

lemma sum_two_holding_if:
  fixes w m :: nat
  assumes "w < m"
  shows "(\<Sum>v<m. two_holding (if v = w then p else pc v))
      = (\<Sum>v<m. two_holding (pc v)) - two_holding (pc w) + two_holding p"
proof -
  have "(\<Sum>v<m. two_holding (if v = w then p else pc v))
      = (\<Sum>v<m. two_holding (pc v) + (if v = w then two_holding p - two_holding (pc w) else 0))"
    by (intro sum.cong) auto
  also have "\<dots> = (\<Sum>v<m. two_holding (pc v))
      + (\<Sum>v<m. if v = w then two_holding p - two_holding (pc w) else 0)"
    by (simp add: sum.distrib)
  also have "(\<Sum>v<m. if v = w then two_holding p - two_holding (pc w) else 0)
      = two_holding p - two_holding (pc w)"
    by (subst sum.delta) (use assms in auto)
  finally show ?thesis
    by simp
qed

lemma add_to_input_work_queue_sizes:
  assumes "add_to_input_work_queue a q = Some q'"
  shows "size_input_work_queue q' = size_input_work_queue q + 1
       \<and> size_output_work_queue q' = size_output_work_queue q"
  using exec_op_counter [of "Add_input a" q "[]" q'] assms by simp

lemma add_to_output_work_queue_sizes:
  assumes "add_to_output_work_queue a q = Some q'"
  shows "size_input_work_queue q' = size_input_work_queue q
       \<and> size_output_work_queue q' = size_output_work_queue q + 1"
  using exec_op_counter [of "Add_output a" q "[]" q'] assms by simp

lemma remove_from_input_work_queue_sizes:
  assumes "remove_from_input_work_queue q = Some (a, q')"
  shows "size_input_work_queue q' = size_input_work_queue q - 1
       \<and> size_output_work_queue q' = size_output_work_queue q"
  using exec_op_counter [of Remove_input q "[a]" q'] assms by simp

lemma remove_from_output_work_queue_sizes:
  assumes "remove_from_output_work_queue q = Some (a, q')"
  shows "size_input_work_queue q' = size_input_work_queue q
       \<and> size_output_work_queue q' = size_output_work_queue q - 1"
  using exec_op_counter [of Remove_output q "[a]" q'] assms by simp

lemma process_frame_sizes:
  assumes "process_frame process a q = Some q'"
  shows "size_input_work_queue q' = size_input_work_queue q
       \<and> size_output_work_queue q' = size_output_work_queue q"
  using assms by (auto simp: process_frame_def split: option.splits)

lemma stage_one_counters:
  assumes "stage_one a s = Next s'" and "counters_ok s"
  shows "counters_ok s'"
  using assms
  by (cases "pc_one s")
    (auto simp: stage_one_def counters_ok_def nodes_in_flight_def new_node_def
      dest!: add_to_input_work_queue_sizes split: list.splits if_splits option.splits)

lemma stage_two_counters:
  assumes "stage_two process w s = Next s'" and "counters_ok s"
  shows "counters_ok s'"
proof -
  have w: "w < nat (threads_number s)"
    using assms by (auto simp: stage_two_def split: if_splits)
  note upd = sum_two_holding_if [OF w, of _ "pc_two s"]
  show ?thesis
    using assms w
    by (cases "pc_two s w")
      (auto simp: stage_two_def counters_ok_def nodes_in_flight_def upd
        dest!: add_to_output_work_queue_sizes remove_from_input_work_queue_sizes
          process_frame_sizes
        split: if_splits option.splits)
qed

lemma stage_three_counters:
  assumes "stage_three s = Next s'" and "counters_ok s"
  shows "counters_ok s'"
  using assms
  by (cases "pc_three s")
    (auto simp: stage_three_def counters_ok_def nodes_in_flight_def send_frame_to_display_def
      dest!: remove_from_output_work_queue_sizes split: if_splits option.splits)

lemma stages_step_counters:
  "stages_step process l s = Next s' \<Longrightarrow> counters_ok s \<Longrightarrow> counters_ok s'"
  using stage_one_counters [of _ s s'] stage_two_counters [of process _ s s']
    stage_three_counters [of s s']
  by (cases l) simp_all

lemma stages_run_counters:
  "stages_run process ls s = Next s' \<Longrightarrow> counters_ok s \<Longrightarrow> counters_ok s'"
proof (induction ls arbitrary: s)
  case Nil
  then show ?case by simp
next
  case (Cons l ls)
  then obtain s1 where s1: "stages_step process l s = Next s1" "stages_run process ls s1 = Next s'"
    by (auto split: step_result.splits)
  show ?case
    using Cons.IH [OF s1(2)] stages_step_counters [OF s1(1) Cons.prems(2)] by simp
qed

lemma counters_ok_init: "counters_ok (stages_init fs n)"
  by (simp add: counters_ok_def nodes_in_flight_def stages_init_def empty_queues_def)

lemma stages_counters_in_range:
  assumes inv: "stages_inv process fs n s" and ok: "counters_ok s"
    and bound: "int (length fs) + max n 0 < 2147483647"
  shows "c_int_range (nframes s) \<and> c_int_range (current_frame s)
       \<and> c_int_range (size_input_work_queue (queues s))
       \<and> c_int_range (size_output_work_queue (queues s))"
proof -
  obtain xs ys P S K k where at: "stages_inv_at process fs n s xs ys P S K k"
    using inv unfolding stages_inv_def by blast
  let ?C = "sentinels_created n (pc_one s)"
  have f: "flow_at process fs s (raw_held n (pc_two s)) (done_held n (pc_two s))
      (emit_held (pc_three s)) ?C xs ys P S K k"
    and one: "one_ok fs n s K"
    using at by (simp_all add: stages_inv_at_def)
  have len: "length (enqueued s) = K + ?C" "K \<le> length fs" "length (oVideoWriter s) = k"
    "k \<le> P" "P \<le> K"
    using f by (simp_all add: flow_at_def flow_sent_def flow_input_def flow_frames_def)
  have sz: "size_input_work_queue (queues s) = int (length xs)"
    "size_output_work_queue (queues s) = int (length ys)"
    using f by (simp_all add: flow_at_def flow_wf_def wf_queues_def input_queue_def output_queue_def)
  have C: "int ?C \<le> max n 0"
    using one by (cases "pc_one s") (auto simp: one_ok_def)
  have nf: "0 \<le> nframes s \<and> nframes s \<le> int (length fs) + 1"
    using one len(2) by (cases "pc_one s") (auto simp: one_ok_def)
  have "0 \<le> (\<Sum>w<nat (threads_number s). two_holding (pc_two s w))"
  proof (rule sum_nonneg)
    fix w
    show "0 \<le> two_holding (pc_two s w)"
      by (cases "pc_two s w") simp_all
  qed
  moreover have "0 \<le> three_holding (pc_three s)"
    by (cases "pc_three s") simp_all
  ultimately have "int (length xs) + int (length ys) \<le> int K + int ?C"
    using ok sz len(1) by (simp add: counters_ok_def nodes_in_flight_def)
  then have q: "int (length xs) \<le> int (length fs) + max n 0"
    "int (length ys) \<le> int (length fs) + max n 0"
    using C len(2) by simp_all
  have cf: "0 \<le> current_frame s \<and> current_frame s \<le> int (length fs) + 1"
    using ok len by (simp add: counters_ok_def)
  show ?thesis
    using nf cf q sz bound by (auto simp: c_int_range_def max_def split: if_splits)
qed

lemma stages_measure_init:
  "stages_measure (length fs) (stages_init fs n) = 8 * int (length fs) + 4 * max 0 n + 6"
  by (simp add: stages_measure_def stages_init_def)

lemma stages_once_facts:
  assumes inv: "stages_inv process fs n s"
  shows "distinct (filter (\<lambda>e. \<not> snd e) (map snd (dequeued s)))"
    and "distinct (transformed s)"
    and "set (transformed s) \<subseteq> fst ` {e \<in> set (map snd (dequeued s)). \<not> snd e}"
proof -
  obtain xs ys P S K k where at: "stages_inv_at process fs n s xs ys P S K k"
    using inv unfolding stages_inv_def by blast
  let ?C = "sentinels_created n (pc_one s)"
  let ?R = "raw_held n (pc_two s)"
  have f: "flow_at process fs s ?R (done_held n (pc_two s))
      (emit_held (pc_three s)) ?C xs ys P S K k"
    using at by (simp add: stages_inv_at_def)
  have lg: "map snd (dequeued s) = map (\<lambda>j. (int j + 1, False)) [0..<P]
        @ replicate (?C - S) (int (length fs) + 1, True)"
    and tr: "distinct (transformed s)"
      "set (transformed s) = {1..int P} - ident (heap_data (heap (queues s))) ` frames_in (heap_data (heap (queues s))) ?R"
    using f by (simp_all add: flow_at_def flow_log_def flow_transformed_def)
  have fl: "filter (\<lambda>e. \<not> snd e) (map snd (dequeued s)) = map (\<lambda>j. (int j + 1, False)) [0..<P]"
    unfolding lg by (simp add: filter_map comp_def)
  show "distinct (filter (\<lambda>e. \<not> snd e) (map snd (dequeued s)))"
    unfolding fl by (simp add: distinct_map inj_on_def)
  show "distinct (transformed s)"
    by (rule tr(1))
  have "{e \<in> set (map snd (dequeued s)). \<not> snd e} = set (filter (\<lambda>e. \<not> snd e) (map snd (dequeued s)))"
    by auto
  also have "\<dots> = (\<lambda>j. (int j + 1, False)) ` {0..<P}"
    unfolding fl by simp
  finally have "fst ` {e \<in> set (map snd (dequeued s)). \<not> snd e} = (\<lambda>j. int j + 1) ` {0..<P}"
    by (simp add: image_image)
  moreover have "{1..int P} \<subseteq> (\<lambda>j. int j + 1) ` {0..<P}"
  proof
    fix i
    assume "i \<in> {1..int P}"
    then have "i = int (nat (i - 1)) + 1" "nat (i - 1) \<in> {0..<P}"
      by auto
    then show "i \<in> (\<lambda>j. int j + 1) ` {0..<P}"
      by (rule image_eqI)
  qed
  ultimately show "set (transformed s) \<subseteq> fst ` {e \<in> set (map snd (dequeued s)). \<not> snd e}"
    using tr(2) by auto
qed

text \<open>
  Claim C2. Every frame is removed from the input queue once and transformed once. For
  every source of frames \<open>fs\<close> and every number \<open>n \<ge> 1\<close> of workers (small enough
  for the counters of type \<^verbatim>\<open>int\<close>), along every schedule of the three stages from the
  state \<^verbatim>\<open>main\<close> sets up: no step dereferences \<^verbatim>\<open>NULL\<close> or a freed node; the integer
  variables stay in range; no frame number occurs twice among the frames removed from the
  input queue, none occurs twice among the calls of \<^verbatim>\<open>process_frame\<close>, and
  \<^verbatim>\<open>process_frame\<close> is called on removed frames only. The schedule has at most
  \<open>8 * length fs + 4 * n + 6\<close> steps, and as long as some thread has not returned, some
  thread can take a step: so every run ends with all threads returned. Then the frames
  removed from the input queue are the frames 1, \<dots>, \<open>length fs\<close> that were added to
  it, each once, \<^verbatim>\<open>process_frame\<close> has been called once for each of these numbers, and
  the video written is the source with the transform applied to each frame once.
\<close>

theorem each_frame_transformed_once:
  assumes "1 \<le> n" and "int (length fs) + n < 2147483647"
  shows "stages_run process ls (stages_init fs n) \<noteq> Crash
       \<and> (\<forall>s. stages_run process ls (stages_init fs n) = Next s \<longrightarrow>
            int (length ls) \<le> 8 * int (length fs) + 4 * n + 6
            \<and> c_int_range (nframes s) \<and> c_int_range (current_frame s)
            \<and> c_int_range (size_input_work_queue (queues s))
            \<and> c_int_range (size_output_work_queue (queues s))
            \<and> distinct (filter (\<lambda>e. \<not> snd e) (map snd (dequeued s)))
            \<and> distinct (transformed s)
            \<and> set (transformed s) \<subseteq> fst ` {e \<in> set (map snd (dequeued s)). \<not> snd e}
            \<and> (stages_final s \<or> (\<exists>l s'. stages_step process l s = Next s'))
            \<and> (stages_final s \<longrightarrow>
                  filter (\<lambda>e. \<not> snd e) (map snd (dequeued s))
                    = map (\<lambda>j. (int j + 1, False)) [0..<length fs]
                  \<and> filter (\<lambda>e. \<not> snd e) (enqueued s)
                    = map (\<lambda>j. (int j + 1, False)) [0..<length fs]
                  \<and> distinct (transformed s)
                  \<and> set (transformed s) = {1..int (length fs)}
                  \<and> oVideoWriter s = map process fs))"
proof (intro conjI allI impI)
  let ?t = "stages_init fs n"
  have inv0: "stages_inv process fs n ?t"
    by (rule stages_inv_init)
  show "stages_run process ls ?t \<noteq> Crash"
    using stages_run_inv [OF inv0] by blast
  fix s
  assume run: "stages_run process ls ?t = Next s"
  have inv: "stages_inv process fs n s"
    using stages_run_inv [OF inv0] run by blast
  have ok: "counters_ok s"
    using stages_run_counters [OF run counters_ok_init] .
  show "int (length ls) \<le> 8 * int (length fs) + 4 * n + 6"
    using stages_run_measure [OF run, of "length fs"] stages_measure_nonneg [OF inv] assms(1)
    by (simp add: stages_measure_init)
  have rg: "c_int_range (nframes s) \<and> c_int_range (current_frame s)
       \<and> c_int_range (size_input_work_queue (queues s))
       \<and> c_int_range (size_output_work_queue (queues s))"
    using stages_counters_in_range [OF inv ok] assms by simp
  show "c_int_range (nframes s)" "c_int_range (current_frame s)"
    "c_int_range (size_input_work_queue (queues s))"
    "c_int_range (size_output_work_queue (queues s))"
    using rg by simp_all
  show "distinct (filter (\<lambda>e. \<not> snd e) (map snd (dequeued s)))"
    "distinct (transformed s)"
    "set (transformed s) \<subseteq> fst ` {e \<in> set (map snd (dequeued s)). \<not> snd e}"
    using stages_once_facts [OF inv] by blast+
  show "stages_final s \<or> (\<exists>l s'. stages_step process l s = Next s')"
    using stages_progress [OF inv assms(1)] by blast
  assume fin: "stages_final s"
  note ff = stages_final_facts [OF inv fin assms(1)]
  show "filter (\<lambda>e. \<not> snd e) (map snd (dequeued s)) = map (\<lambda>j. (int j + 1, False)) [0..<length fs]"
    unfolding ff(4) by (simp add: filter_map comp_def)
  show "filter (\<lambda>e. \<not> snd e) (enqueued s) = map (\<lambda>j. (int j + 1, False)) [0..<length fs]"
    unfolding ff(5) by (simp add: filter_map comp_def)
  show "distinct (transformed s)" "set (transformed s) = {1..int (length fs)}"
    "oVideoWriter s = map process fs"
    using ff(1,2,3) by blast+
qed

theorem each_frame_transformed_once_witness:
  "\<exists>s. stages_run uminus example_schedule (stages_init [10, 20 :: int] 2) = Next s
     \<and> stages_final s
     \<and> int (length example_schedule) \<le> 8 * int (length [10, 20 :: int]) + 4 * 2 + 6
     \<and> dequeued s = [(0, 1, False), (1, 2, False), (0, 3, True), (1, 3, True)]
     \<and> filter (\<lambda>e. \<not> snd e) (map snd (dequeued s)) = [(1, False), (2, False)]
     \<and> distinct (transformed s) \<and> set (transformed s) = {1..2}
     \<and> transformed s = [2, 1]
     \<and> oVideoWriter s = [- 10, - 20]"
proof -
  have "case stages_run uminus example_schedule (stages_init [10, 20 :: int] 2) of
      Next s \<Rightarrow> pc_one s = One_done \<and> pc_three s = Three_done \<and> pc_two s 0 = Two_done
        \<and> pc_two s 1 = Two_done \<and> threads_number s = 2
        \<and> dequeued s = [(0, 1, False), (1, 2, False), (0, 3, True), (1, 3, True)]
        \<and> transformed s = [2, 1]
    | _ \<Rightarrow> False"
    unfolding example_schedule_def by code_simp
  then obtain s where run: "stages_run uminus example_schedule (stages_init [10, 20 :: int] 2) = Next s"
    and pcs: "pc_one s = One_done" "pc_three s = Three_done" "pc_two s 0 = Two_done"
      "pc_two s 1 = Two_done" "threads_number s = 2"
    and logs: "dequeued s = [(0, 1, False), (1, 2, False), (0, 3, True), (1, 3, True)]"
      "transformed s = [2, 1]"
    by (auto split: step_result.splits)
  have fin: "stages_final s"
    using pcs by (auto simp: stages_final_def less_Suc_eq numeral_2_eq_2)
  have "(1::int) \<le> 2" "int (length [10, 20 :: int]) + 2 < 2147483647"
    by simp_all
  from each_frame_transformed_once [OF this, of uminus example_schedule] run fin
  have "int (length example_schedule) \<le> 8 * int (length [10, 20 :: int]) + 4 * 2 + 6
      \<and> filter (\<lambda>e. \<not> snd e) (map snd (dequeued s)) = map (\<lambda>j. (int j + 1, False)) [0..<length [10, 20 :: int]]
      \<and> distinct (transformed s) \<and> set (transformed s) = {1..int (length [10, 20 :: int])}
      \<and> oVideoWriter s = map uminus [10, 20]"
    by blast
  then have "int (length example_schedule) \<le> 8 * int (length [10, 20 :: int]) + 4 * 2 + 6
      \<and> filter (\<lambda>e. \<not> snd e) (map snd (dequeued s)) = [(1, False), (2, False)]
      \<and> distinct (transformed s) \<and> set (transformed s) = {1..2}
      \<and> oVideoWriter s = [- 10, - 20]"
    by (simp add: upt_rec numeral_2_eq_2)
  then show ?thesis
    using run fin logs by blast
qed

lemma insort_key_before:
  assumes "\<forall>u\<in>set us. f u < f a" and "f a \<le> f b"
  shows "insort_key f a (us @ b # vs) = us @ a # b # vs"
  using assms by (induction us) auto

lemma terminal_last_node: "terminal (heap_data h) a = last_node h a"
  by (simp add: terminal_def last_node_def heap_data_def node_data_def split: option.splits)

lemma frame_numbers_from_heap_list:
  "heap_list h p as \<Longrightarrow> frame_numbers_from h p (length as) = map (id_of h) as"
proof (induction as arbitrary: p)
  case Nil
  then show ?case by simp
next
  case (Cons a as)
  then obtain n where "p = Some a" "h a = Some n" "heap_list h (next_node n) as"
    by (auto simp: heap_list_Cons)
  then show ?case
    using Cons.IH [of "next_node n"] by (simp add: id_of_def)
qed

lemma output_frame_numbers_queue:
  "output_queue q ys \<Longrightarrow> output_frame_numbers q = map (id_of (heap q)) ys"
  using frame_numbers_from_heap_list [of "heap q" "output_head q" ys]
  by (simp add: output_queue_def output_frame_numbers_def)

lemma stages_output_facts:
  assumes inv: "stages_inv process fs n s"
  shows "\<exists>ys. output_queue (queues s) ys \<and> distinct ys
           \<and> sorted (map (id_of (heap (queues s))) ys)
           \<and> (\<forall>a\<in>set ys. \<forall>b\<in>set ys.
                 a \<noteq> b \<and> id_of (heap (queues s)) a = id_of (heap (queues s)) b \<longrightarrow>
                 last_node (heap (queues s)) a \<and> last_node (heap (queues s)) b
                 \<and> id_of (heap (queues s)) a = int (length fs) + 1)"
proof -
  obtain xs ys P S K k where at: "stages_inv_at process fs n s xs ys P S K k"
    using inv unfolding stages_inv_def by blast
  let ?R = "raw_held n (pc_two s)" and ?Dn = "done_held n (pc_two s)"
  let ?E = "emit_held (pc_three s)"
  let ?d = "heap_data (heap (queues s))"
  have f: "flow_at process fs s ?R ?Dn ?E (sentinels_created n (pc_one s)) xs ys P S K k"
    using at by (simp add: stages_inv_at_def)
  have oq: "output_queue (queues s) ys"
    using f by (simp add: flow_at_def flow_wf_def wf_queues_def)
  have srt: "sorted (map (ident ?d) ys)"
    and inj: "inj_on (ident ?d) (frames_in ?d (?R \<union> ?Dn \<union> set ys \<union> ?E))"
    and ty: "\<forall>a\<in>?Dn \<union> set ys \<union> ?E. ?d a = Some (sentinel_item fs)
            \<or> (\<exists>j<length fs. ?d a = Some (done_item process fs j))"
    using f by (simp_all add: flow_at_def flow_order_def flow_frames_def flow_nodes_def)
  have cases: "(terminal ?d a \<and> ident ?d a = int (length fs) + 1)
      \<or> (\<not> terminal ?d a \<and> ident ?d a \<le> int (length fs))" if "a \<in> set ys" for a
  proof -
    have "?d a = Some (sentinel_item fs) \<or> (\<exists>j<length fs. ?d a = Some (done_item process fs j))"
      using ty that by blast
    then show ?thesis
    proof
      assume "?d a = Some (sentinel_item fs)"
      then show ?thesis
        by (simp add: ident_def terminal_def sentinel_item_def)
    next
      assume "\<exists>j<length fs. ?d a = Some (done_item process fs j)"
      then obtain j where "j < length fs" "?d a = Some (done_item process fs j)"
        by blast
      then show ?thesis
        by (simp add: ident_def terminal_def done_item_def)
    qed
  qed
  have dup: "terminal ?d a \<and> terminal ?d b \<and> ident ?d a = int (length fs) + 1"
    if a: "a \<in> set ys" and b: "b \<in> set ys" and ne: "a \<noteq> b" and eq: "ident ?d a = ident ?d b"
    for a b
  proof (rule ccontr)
    assume neg: "\<not> (terminal ?d a \<and> terminal ?d b \<and> ident ?d a = int (length fs) + 1)"
    have "\<not> terminal ?d a \<and> \<not> terminal ?d b"
      using neg cases [OF a] cases [OF b] eq by auto
    then have "a \<in> frames_in ?d (?R \<union> ?Dn \<union> set ys \<union> ?E)"
      "b \<in> frames_in ?d (?R \<union> ?Dn \<union> set ys \<union> ?E)"
      using a b by (simp_all add: frames_in_def)
    then show False
      using inj eq ne by (auto dest: inj_onD)
  qed
  show ?thesis
  proof (intro exI conjI ballI impI)
    show "output_queue (queues s) ys"
      by (rule oq)
    show "distinct ys"
      using oq by (rule output_queue_distinct)
    show "sorted (map (id_of (heap (queues s))) ys)"
      using srt by (simp add: id_of_ident)
  next
    fix a b
    assume "a \<in> set ys" "b \<in> set ys"
      and "a \<noteq> b \<and> id_of (heap (queues s)) a = id_of (heap (queues s)) b"
    then have "terminal ?d a \<and> terminal ?d b \<and> ident ?d a = int (length fs) + 1"
      using dup [of a b] by (simp add: id_of_ident)
    then show "last_node (heap (queues s)) a" "last_node (heap (queues s)) b"
      "id_of (heap (queues s)) a = int (length fs) + 1"
      by (simp_all add: terminal_last_node id_of_ident)
  qed
qed

text \<open>
  Claim C5, as the code has it. In every state the three stages reach (with frames and
  workers few enough for the counters of type \<^verbatim>\<open>int\<close>), the output queue
  is sorted by frame number and two different nodes in it carry the same frame number
  only if both are sentinels: the frames have the numbers 1, 2, \<dots> and each sentinel
  has the number that follows the last frame's. \<^verbatim>\<open>add_to_output_work_queue\<close> rejects no
  node: a detached node is inserted at its sorted position, and when a node of the same
  frame number is already there (with smaller numbers only in front of it), the new node
  goes in just before it.
\<close>

theorem output_work_queue_frame_numbers:
  assumes "stages_run process ls (stages_init fs n) = Next s"
    and "int (length fs) + max n 0 < 2147483647"
  shows "(\<exists>ys. output_queue (queues s) ys \<and> distinct ys
            \<and> sorted (map (id_of (heap (queues s))) ys)
            \<and> (\<forall>a\<in>set ys. \<forall>b\<in>set ys.
                  a \<noteq> b \<and> id_of (heap (queues s)) a = id_of (heap (queues s)) b \<longrightarrow>
                  last_node (heap (queues s)) a \<and> last_node (heap (queues s)) b
                  \<and> id_of (heap (queues s)) a = int (length fs) + 1))
       \<and> (wf_queues q xs (us @ b # vs) D \<and> a \<in> D
            \<and> (\<forall>u\<in>set us. id_of (heap q) u < id_of (heap q) a)
            \<and> id_of (heap q) a = id_of (heap q) b \<longrightarrow>
            (\<exists>q'. add_to_output_work_queue a q = Some q'
               \<and> output_queue q' (us @ a # b # vs)
               \<and> size_output_work_queue q' = size_output_work_queue q + 1))"
proof (intro conjI impI)
  have "stages_inv process fs n s"
    using stages_run_inv [OF stages_inv_init [of process fs n], of ls] assms(1) by blast
  then show "\<exists>ys. output_queue (queues s) ys \<and> distinct ys
            \<and> sorted (map (id_of (heap (queues s))) ys)
            \<and> (\<forall>a\<in>set ys. \<forall>b\<in>set ys.
                  a \<noteq> b \<and> id_of (heap (queues s)) a = id_of (heap (queues s)) b \<longrightarrow>
                  last_node (heap (queues s)) a \<and> last_node (heap (queues s)) b
                  \<and> id_of (heap (queues s)) a = int (length fs) + 1)"
    by (rule stages_output_facts)
next
  assume a: "wf_queues q xs (us @ b # vs) D \<and> a \<in> D
      \<and> (\<forall>u\<in>set us. id_of (heap q) u < id_of (heap q) a)
      \<and> id_of (heap q) a = id_of (heap q) b"
  then have "output_queue q (us @ b # vs)" "a \<notin> set (us @ b # vs)" "detached (heap q) a"
    by (auto simp: wf_queues_def)
  then obtain q' where q': "add_to_output_work_queue a q = Some q'"
    "output_queue q' (insort_key (id_of (heap q)) a (us @ b # vs))"
    using add_to_output_work_queue_refines [of q "us @ b # vs" a] by blast
  have "insort_key (id_of (heap q)) a (us @ b # vs) = us @ a # b # vs"
    using a by (intro insort_key_before) auto
  then show "\<exists>q'. add_to_output_work_queue a q = Some q'
      \<and> output_queue q' (us @ a # b # vs)
      \<and> size_output_work_queue q' = size_output_work_queue q + 1"
    using q' add_to_output_work_queue_sizes [OF q'(1)] by auto
qed

theorem output_work_queue_frame_numbers_witness:
  "\<exists>s t. stages_run uminus sentinels_schedule (stages_init ([] :: int list) 2) = Next s
     \<and> output_queue (queues s) [1, 0]
     \<and> last_node (heap (queues s)) 0 \<and> last_node (heap (queues s)) 1
     \<and> id_of (heap (queues s)) 0 = 1 \<and> id_of (heap (queues s)) 1 = 1
     \<and> stages_run uminus (butlast sentinels_schedule) (stages_init ([] :: int list) 2) = Next t
     \<and> wf_queues (queues t) [] [0] {1}
     \<and> id_of (heap (queues t)) 1 = id_of (heap (queues t)) 0
     \<and> (\<exists>q'. add_to_output_work_queue 1 (queues t) = Some q' \<and> output_queue q' [1, 0]
           \<and> size_output_work_queue q' = size_output_work_queue (queues t) + 1)"
proof -
  have "case stages_run uminus sentinels_schedule (stages_init ([] :: int list) 2) of
      Next s \<Rightarrow> output_queue (queues s) [1, 0]
        \<and> last_node (heap (queues s)) 0 \<and> last_node (heap (queues s)) 1
        \<and> id_of (heap (queues s)) 0 = 1 \<and> id_of (heap (queues s)) 1 = 1
    | _ \<Rightarrow> False"
    unfolding sentinels_schedule_def by code_simp
  then obtain s where s: "stages_run uminus sentinels_schedule (stages_init ([] :: int list) 2) = Next s"
    "output_queue (queues s) [1, 0]"
    "last_node (heap (queues s)) 0" "last_node (heap (queues s)) 1"
    "id_of (heap (queues s)) 0 = 1" "id_of (heap (queues s)) 1 = 1"
    by (auto split: step_result.splits)
  have "case stages_run uminus (butlast sentinels_schedule) (stages_init ([] :: int list) 2) of
      Next t \<Rightarrow> wf_queues (queues t) [] [0] {1}
        \<and> id_of (heap (queues t)) 1 = id_of (heap (queues t)) 0
    | _ \<Rightarrow> False"
    unfolding sentinels_schedule_def by code_simp
  then obtain t where t: "stages_run uminus (butlast sentinels_schedule) (stages_init ([] :: int list) 2) = Next t"
    "wf_queues (queues t) [] [0] {1}" "id_of (heap (queues t)) 1 = id_of (heap (queues t)) 0"
    by (auto split: step_result.splits)
  have "wf_queues (queues t) [] ([] @ 0 # []) {1} \<and> 1 \<in> {1::nat}
      \<and> (\<forall>u\<in>set []. id_of (heap (queues t)) u < id_of (heap (queues t)) 1)
      \<and> id_of (heap (queues t)) 1 = id_of (heap (queues t)) 0"
    using t(2,3) by simp
  moreover have "int (length ([] :: int list)) + max 2 0 < 2147483647"
    by simp
  ultimately have "\<exists>q'. add_to_output_work_queue 1 (queues t) = Some q' \<and> output_queue q' ([] @ [1, 0])
      \<and> size_output_work_queue q' = size_output_work_queue (queues t) + 1"
    using output_work_queue_frame_numbers [OF s(1), of "queues t" "[]" "[]" 0 "[]" "{1}" 1]
    by blast
  then
  have "\<exists>q'. add_to_output_work_queue 1 (queues t) = Some q' \<and> output_queue q' [1, 0]
      \<and> size_output_work_queue q' = size_output_work_queue (queues t) + 1"
    by simp
  then show ?thesis
    using s t by blast
qed

text \<open>
  Two workers and a source with no frame: once both workers have passed their sentinels
  on, the output queue holds two nodes with the frame number 1.
\<close>

theorem output_work_queue_holds_equal_frame_numbers:
  "run_output_frame_numbers
     (stages_run uminus sentinels_schedule (stages_init ([] :: int list) 2)) = Some [1, 1]"
  unfolding sentinels_schedule_def by code_simp

section \<open>What \<^verbatim>\<open>main\<close> does with its arguments\<close>

text \<open>
  Claim C8, as the code has it. The number of workers is not validated. Whatever number
  \<^verbatim>\<open>atoi\<close> reads from the second argument, positive or not, \<^verbatim>\<open>main\<close> of
  \<^verbatim>\<open>lane_detection_openmp.cpp\<close> and \<^verbatim>\<open>main\<close> of \<^verbatim>\<open>lane_detection_openmp_v2.cpp\<close>
  store it in \<open>threads_number\<close>, open the capture and call \<^verbatim>\<open>parallel_processing\<close>:
  neither ends before the call. The globals at the call are those of the initial states
  of the threads, and in \<^verbatim>\<open>lane_detection_openmp_v2.cpp\<close> the master enters the loop of
  the parallel region whatever the number is.
\<close>

theorem main_keeps_any_worker_count:
  assumes "atoi number = Some n" and "open_capture env arg = Some c"
  shows "(\<exists>st. main_openmp env (prog # arg # number # rest) = Some st
            \<and> threads_number (globals st) = n \<and> capture (globals st) = frames_of c
            \<and> nframes (globals st) = 0 \<and> current_frame (globals st) = 0
            \<and> queues (globals st) = empty_queues
            \<and> globals st = pipeline.truncate (stages_init (frames_of c) n))
       \<and> (\<exists>st. main_openmp_v2 env (prog # arg # number # rest) = Some st
            \<and> threads_number (globals st) = n \<and> capture (globals st) = frames_of c
            \<and> nframes (globals st) = 1 \<and> current_frame (globals st) = 1
            \<and> queues (globals st) = empty_queues
            \<and> (globals st)\<lparr>is_there_any_frame := True, is_there_any_work := True,
                  finished := False\<rparr> = pipeline.truncate (team_init (frames_of c) n))
       \<and> master a (team_init (frames_of c) n)
            = Next ((team_init (frames_of c) n)\<lparr>pc_master := Master_one\<rparr>)"
  using assms
  by (simp add: main_openmp_def main_openmp_v2_def globals_at_start_def stages_init_def
      team_init_def pipeline.truncate_def master_def)

theorem main_keeps_any_worker_count_witness:
  "atoi ''-2'' = Some (- 2)
   \<and> open_capture example_environment ''road.avi'' = Some (Some [10, 20])
   \<and> (\<exists>st. main_openmp example_environment [''lane'', ''road.avi'', ''-2''] = Some st
         \<and> threads_number (globals st) = - 2 \<and> capture (globals st) = [10, 20])
   \<and> (\<exists>st. main_openmp_v2 example_environment [''lane'', ''road.avi'', ''-2''] = Some st
         \<and> threads_number (globals st) = - 2 \<and> capture (globals st) = [10, 20])"
proof -
  have a: "atoi ''-2'' = Some (- 2)"
    by code_simp
  have c: "open_capture example_environment ''road.avi'' = Some (Some [10, 20])"
    by code_simp
  show ?thesis
    using main_keeps_any_worker_count [OF a c, of "''lane''" "[]" 0] a c
    by (simp add: frames_of_def, blast)
qed

text \<open>
  With the second argument \<^verbatim>\<open>0\<close>, both functions reach the call of
  \<^verbatim>\<open>parallel_processing\<close> with \<open>threads_number\<close> 0, and the master of
  \<^verbatim>\<open>lane_detection_openmp_v2.cpp\<close> then captures the first frame and queues it.
\<close>

theorem main_starts_pipeline_with_no_worker:
  "map_option (threads_number \<circ> globals)
     (main_openmp example_environment [''lane'', ''road.avi'', ''0'']) = Some 0
   \<and> map_option (threads_number \<circ> globals)
     (main_openmp_v2 example_environment [''lane'', ''road.avi'', ''0'']) = Some 0
   \<and> frames_queued (team_run uminus [Run_master 0, Run_master 0] (team_init [10, 20 :: int] 0))
       = Some [(1, False)]"
  by code_simp

text \<open>
  Claim C9, as the code has it. When the source cannot be opened as a video file,
  \<^verbatim>\<open>main\<close> tries once to open the camera whose index \<^verbatim>\<open>atoi\<close> reads from the same
  argument, and goes on whether or not that succeeded: \<^verbatim>\<open>main\<close> of
  \<^verbatim>\<open>lane_detection_openmp.cpp\<close> calls \<^verbatim>\<open>parallel_processing\<close>, and \<^verbatim>\<open>main\<close> of
  \<^verbatim>\<open>lane_detection_seq.cpp\<close> runs its loop. Neither reports anything or ends early. A
  capture that is not opened delivers no frame: the pipeline starts with nothing to
  capture, and the sequential loop writes an empty video and counts no frame.
\<close>

theorem main_goes_on_when_open_fails:
  assumes "video_file env arg = None" and "atoi arg = Some i" and "atoi number = Some n"
    and "c_int_range (int (length (frames_of (video_device env i))))"
  shows "(\<exists>st. main_openmp env (prog # arg # number # rest) = Some st
            \<and> source_opened st = (video_device env i \<noteq> None)
            \<and> capture (globals st) = frames_of (video_device env i)
            \<and> threads_number (globals st) = n)
       \<and> (\<exists>r. main_seq env process (prog # arg # rest') = Some r
            \<and> seq_opened r = (video_device env i \<noteq> None)
            \<and> seq_written r = map process (frames_of (video_device env i))
            \<and> seq_nframes r = int (length (frames_of (video_device env i))))
       \<and> (video_device env i = None \<longrightarrow>
            (\<exists>st. main_openmp env (prog # arg # number # rest) = Some st
               \<and> \<not> source_opened st \<and> capture (globals st) = [])
            \<and> (\<exists>r. main_seq env process (prog # arg # rest') = Some r
               \<and> \<not> seq_opened r \<and> seq_written r = [] \<and> seq_nframes r = 0))"
  using assms
  by (auto simp: main_openmp_def main_seq_def open_capture_def globals_at_start_def
      frames_of_def c_int_range_def)

theorem main_goes_on_when_open_fails_witness:
  "video_file example_environment ''none.avi'' = None \<and> atoi ''none.avi'' = Some 0
   \<and> atoi ''4'' = Some 4 \<and> video_device example_environment 0 = None
   \<and> (\<exists>st. main_openmp example_environment [''lane'', ''none.avi'', ''4''] = Some st
         \<and> \<not> source_opened st \<and> capture (globals st) = [])
   \<and> (\<exists>r. main_seq example_environment uminus [''lane'', ''none.avi''] = Some r
         \<and> \<not> seq_opened r \<and> seq_written r = [] \<and> seq_nframes r = 0)"
proof -
  have f: "video_file example_environment ''none.avi'' = None"
    and d: "video_device example_environment 0 = None"
    by (simp_all add: example_environment_def)
  have a: "atoi ''none.avi'' = Some 0" "atoi ''4'' = Some 4"
    by code_simp+
  have r: "c_int_range (int (length (frames_of (video_device example_environment 0))))"
    by (simp add: d frames_of_def c_int_range_def)
  show ?thesis
    using main_goes_on_when_open_fails [OF f a r, of "''lane''" "[]" uminus "[]"] f d a
    by simp
qed

text \<open>
  A name that is neither a video file nor, read as a number, a camera: both programs go
  on with a capture that is not opened.
\<close>

theorem main_runs_on_unopened_source:
  "map_option source_opened
     (main_openmp example_environment [''lane'', ''none.avi'', ''4'']) = Some False
   \<and> map_option seq_opened
     (main_seq example_environment uminus [''lane'', ''none.avi'']) = Some False"
  by code_simp

section \<open>The team keeps its invariant\<close>

lemma held_idle:
  assumes "holds (pc w) = None" "holds p = None"
  shows "raw_held n (pc(w := p)) = raw_held n pc"
    and "done_held n (pc(w := p)) = done_held n pc"
proof -
  have 1: "pc w \<noteq> Two_holds b \<and> pc w \<noteq> Two_processed b" for b
    using assms(1) by (cases "pc w") auto
  have 2: "p \<noteq> Two_holds b \<and> p \<noteq> Two_processed b" for b
    using assms(2) by (cases p) auto
  show "raw_held n (pc(w := p)) = raw_held n pc"
    using 1 2 unfolding raw_held_def by (auto split: if_splits) metis+
  show "done_held n (pc(w := p)) = done_held n pc"
    using 1 2 unfolding done_held_def by (auto split: if_splits) metis+
qed

lemma held_apart_idle:
  assumes "held_apart n pc" "holds p = None"
  shows "held_apart n (pc(w := p))"
  using assms unfolding held_apart_def by (auto split: if_splits)

lemma held_apart_same:
  assumes "held_apart n pc" "holds p = holds (pc w)"
  shows "held_apart n (pc(w := p))"
  using assms unfolding held_apart_def by (auto split: if_splits)

lemma held_apart_take:
  assumes u: "held_apart n pc" and a: "a \<notin> raw_held n pc \<union> done_held n pc"
  shows "held_apart n (pc(w := Two_holds a))"
proof -
  have other: "holds (pc v) \<noteq> Some a" if "int v < n" for v
    using a that by (cases "pc v") (auto simp: raw_held_def done_held_def)
  show ?thesis
    using u other unfolding held_apart_def by (auto split: if_splits) metis+
qed

lemma two_of_upd: "two_of \<circ> pc(w := p) = (two_of \<circ> pc)(w := two_of p)"
  by (rule ext) simp

lemma team_inv_init: "team_inv process fs n (team_init fs n)"
proof -
  have "flow_at process fs (team_init fs n) {} {} {} 0 [] [] 0 0 0 0"
    using wf_empty_queues [where ?'a = 'a]
    by (simp add: flow_at_def flow_wf_def flow_input_def flow_log_def flow_sent_def
        flow_payload_def flow_nodes_def flow_order_def flow_frames_def flow_transformed_def
        frames_in_def team_init_def)
      (simp add: empty_queues_def heap_data_def)
  moreover have "raw_held n (two_of \<circ> pc_worker (team_init fs n)) = {}"
    "done_held n (two_of \<circ> pc_worker (team_init fs n)) = {}"
    by (simp_all add: raw_held_def done_held_def team_init_def)
  moreover have "team_ok fs n (team_init fs n) [] 0 0 0"
    by (simp add: team_ok_def held_apart_def team_init_def sentinels_pushed_def raw_held_def)
  ultimately have "team_inv_at process fs n (team_init fs n) [] [] 0 0 0 0"
    by (simp add: team_inv_at_def team_init_def sentinels_pushed_def)
  then show ?thesis
    unfolding team_inv_def by blast
qed

lemma team_ok_cong:
  assumes ok: "team_ok fs n s ys S K k"
    and "pc_worker s' = pc_worker s" "pc_master s' = pc_master s" "nframes s' = nframes s"
      "current_frame s' = current_frame s" "is_there_any_frame s' = is_there_any_frame s"
      "finished s' = finished s" "queues s' = queues s"
  shows "team_ok fs n s' ys S K k"
  using assms by (simp add: team_ok_def sentinels_pushed_def)

lemma team_inv_at_relabel:
  assumes inv: "team_inv_at process fs n s xs ys P S K k"
    and same: "queues s' = queues s" "capture s' = capture s" "oVideoWriter s' = oVideoWriter s"
      "dequeued s' = dequeued s" "enqueued s' = enqueued s" "transformed s' = transformed s"
      "nframes s' = nframes s" "current_frame s' = current_frame s"
      "threads_number s' = threads_number s" "is_there_any_frame s' = is_there_any_frame s"
      "finished s' = finished s"
    and held: "raw_held n (two_of \<circ> pc_worker s') = raw_held n (two_of \<circ> pc_worker s)"
      "done_held n (two_of \<circ> pc_worker s') = done_held n (two_of \<circ> pc_worker s)"
      "master_held (pc_master s') = master_held (pc_master s)"
      "held_apart n (two_of \<circ> pc_worker s')"
      "pc_master s' = Master_done \<longrightarrow> finished s"
  shows "team_inv_at process fs n s' xs ys P S K k"
proof -
  have "flow_at process fs s' (raw_held n (two_of \<circ> pc_worker s))
      (done_held n (two_of \<circ> pc_worker s)) (master_held (pc_master s))
      (sentinels_pushed s) xs ys P S K k"
    using inv same(1-6) by (simp add: team_inv_at_def flow_at_cong [of s' s])
  moreover have "sentinels_pushed s' = sentinels_pushed s"
    using same(10) by (simp add: sentinels_pushed_def)
  moreover have "team_ok fs n s' ys S K k"
    using inv same held by (simp add: team_inv_at_def team_ok_def sentinels_pushed_def)
  ultimately show ?thesis
    using inv same(9) held(1-3) by (simp add: team_inv_at_def)
qed

lemma master_inv:
  assumes inv: "team_inv_at process fs n s xs ys P S K k"
  shows "master a s \<noteq> Crash \<and> (\<forall>s'. master a s = Next s' \<longrightarrow> team_inv process fs n s')"
proof -
  let ?R = "raw_held n (two_of \<circ> pc_worker s)" and ?Dn = "done_held n (two_of \<circ> pc_worker s)"
  let ?E = "master_held (pc_master s)" and ?C = "sentinels_pushed s"
  let ?d = "heap_data (heap (queues s))"
  have tn: "threads_number s = n"
    and f: "flow_at process fs s ?R ?Dn ?E ?C xs ys P S K k"
    and ok: "team_ok fs n s ys S K k"
    using inv by (simp_all add: team_inv_at_def)
  have ua: "held_apart n (two_of \<circ> pc_worker s)"
    and nf: "nframes s = int K + 1 + int ?C"
    and cf: "current_frame s = int k + 1"
    and i1: "\<And>b. b \<in> ?R \<union> set ys \<union> ?E \<Longrightarrow> terminal ?d b \<Longrightarrow> S = 0 \<and> \<not> is_there_any_frame s"
    and i2: "finished s \<Longrightarrow> k = length fs \<and> S = 0 \<and> \<not> is_there_any_frame s"
    using ok by (auto simp: team_ok_def)
  have fresh: "b \<noteq> a" if "heap (queues s) a = None" "b \<in> ?R \<union> set ys \<union> ?E" for b
    using flow_at_held_allocated [OF f that(1)] that(2) by auto
  have relabel: "team_inv process fs n (s\<lparr>pc_master := p\<rparr>)"
    if "master_held p = ?E" "p = Master_done \<longrightarrow> finished s" for p
  proof -
    have "team_inv_at process fs n (s\<lparr>pc_master := p\<rparr>) xs ys P S K k"
      using that ua by (intro team_inv_at_relabel [OF inv]) simp_all
    then show ?thesis
      unfolding team_inv_def by blast
  qed
  show ?thesis
  proof (cases "pc_master s")
    case Master_top
    then show ?thesis
      using relabel [of Master_done] relabel [of Master_one] by (simp add: master_def)
  next
    case Master_one
    have E: "?E = {}"
      by (simp add: Master_one)
    show ?thesis
    proof (cases "is_there_any_frame s")
      case False
      then show ?thesis
        using relabel [of Master_three] by (simp add: master_def Master_one)
    next
      case any: True
      have C: "?C = 0"
        using any by (simp add: sentinels_pushed_def)
      have nf0: "nframes s = int K + 1"
        using nf C by simp
      have f0: "flow_at process fs s ?R ?Dn {} 0 xs ys P S K k"
        using f by (simp add: C E)
      have no_sentinel: "\<not> terminal ?d b" if "b \<in> ?R \<union> set ys" for b
        using i1 [of b] that any by auto
      have not_finished: "\<not> finished s"
        using i2 any by auto
      show ?thesis
      proof (cases "heap (queues s) a")
        case (Some x)
        then show ?thesis
          using any by (simp add: master_def Master_one)
      next
        case None
        show ?thesis
        proof (cases "capture s")
          case Nil
          have K: "K = length fs"
            using flow_at_capture_empty [OF f Nil] .
          obtain q' where q': "add_to_input_work_queue a
              (new_node a None (int (length fs) + 1) True (queues s)) = Some q'"
            and d': "heap_data (heap q') = ?d(a \<mapsto> sentinel_item fs)"
            and f': "flow_at process fs
              (s\<lparr>queues := q', enqueued := enqueued s @ [(int (length fs) + 1, True)]\<rparr>)
              ?R ?Dn {} (Suc 0) (xs @ [a]) ys P (Suc S) K k"
            using flow_push_sentinel [OF f0 Nil None] by blast
          let ?s = "s\<lparr>nframes := nframes s + 1, queues := q',
            enqueued := enqueued s @ [(nframes s, True)], is_there_any_frame := False,
            pc_master := Master_three\<rparr>"
          have "flow_at process fs ?s ?R ?Dn {} (Suc 0) (xs @ [a]) ys P (Suc S) K k"
            by (rule flow_at_transfer [OF f']) (simp_all add: nf0 K)
          moreover have "team_ok fs n ?s ys (Suc S) K k"
            unfolding team_ok_def
          proof (intro conjI impI)
            assume "\<exists>b\<in>raw_held n (two_of \<circ> pc_worker ?s) \<union> set ys \<union> master_held (pc_master ?s).
                terminal (heap_data (heap (queues ?s))) b"
            then obtain b where "b \<in> ?R \<union> set ys" "terminal (?d(a \<mapsto> sentinel_item fs)) b"
              by (auto simp: d')
            then have False
              using fresh [OF None, of b] no_sentinel [of b] by (auto split: if_splits)
            then show "Suc S = 0" "\<not> is_there_any_frame ?s"
              by simp_all
          qed (use ua nf0 cf not_finished in \<open>simp_all add: sentinels_pushed_def\<close>)
          ultimately have "team_inv_at process fs n ?s (xs @ [a]) ys P (Suc S) K k"
            using tn by (simp add: team_inv_at_def sentinels_pushed_def)
          then have "team_inv process fs n ?s"
            unfolding team_inv_def by blast
          then show ?thesis
            using q' any by (simp add: master_def Master_one None Nil nf0 K)
        next
          case (Cons img rest)
          obtain q' where q': "add_to_input_work_queue a
              (new_node a (Some img) (int K + 1) False (queues s)) = Some q'"
            and d': "heap_data (heap q') = ?d(a \<mapsto> raw_item fs K)"
            and f': "flow_at process fs
              (s\<lparr>capture := rest, queues := q', enqueued := enqueued s @ [(int K + 1, False)]\<rparr>)
              ?R ?Dn {} 0 (xs @ [a]) ys P 0 (Suc K) k"
            using flow_push_frame [OF f0 Cons None] by blast
          let ?s = "s\<lparr>capture := rest, nframes := nframes s + 1, queues := q',
            enqueued := enqueued s @ [(nframes s, False)], pc_master := Master_three\<rparr>"
          have "flow_at process fs ?s ?R ?Dn {} 0 (xs @ [a]) ys P 0 (Suc K) k"
            by (rule flow_at_transfer [OF f']) (simp_all add: nf0)
          moreover have "team_ok fs n ?s ys 0 (Suc K) k"
            unfolding team_ok_def
          proof (intro conjI impI)
            assume "\<exists>b\<in>raw_held n (two_of \<circ> pc_worker ?s) \<union> set ys \<union> master_held (pc_master ?s).
                terminal (heap_data (heap (queues ?s))) b"
            then obtain b where "b \<in> ?R \<union> set ys" "terminal (?d(a \<mapsto> raw_item fs K)) b"
              by (auto simp: d')
            then have False
              using fresh [OF None, of b] no_sentinel [of b] by (auto split: if_splits)
            then show "\<not> is_there_any_frame ?s"
              by simp
          qed (use ua nf0 cf not_finished any in \<open>simp_all add: sentinels_pushed_def\<close>)
          ultimately have "team_inv_at process fs n ?s (xs @ [a]) ys P 0 (Suc K) k"
            using tn any by (simp add: team_inv_at_def sentinels_pushed_def)
          then have "team_inv process fs n ?s"
            unfolding team_inv_def by blast
          then show ?thesis
            using q' any by (simp add: master_def Master_one None Cons nf0)
        qed
      qed
    qed
  next
    case Master_three
    have E: "?E = {}"
      by (simp add: Master_three)
    have f0: "flow_at process fs s ?R ?Dn {} ?C xs ys P S K k"
      using f by (simp add: E)
    show ?thesis
    proof (cases "size_output_work_queue (queues s) > 0")
      case False
      then show ?thesis
        using relabel [of Master_top] by (simp add: master_def Master_three)
    next
      case True
      then have ne: "size_output_work_queue (queues s) \<noteq> 0"
        by simp
      obtain y ys' where ys: "ys = y # ys'"
        and hd: "get_head_id_from_output_work_queue (queues s) = Some (id_of (heap (queues s)) y)"
        and rm: "id_of (heap (queues s)) y = int k + 1 \<longrightarrow>
                (\<exists>q'. remove_from_output_work_queue (queues s) = Some (y, q')
                   \<and> heap_data (heap q') = heap_data (heap (queues s))
                   \<and> flow_at process fs (s\<lparr>queues := q'\<rparr>) ?R ?Dn {y} ?C xs ys' P S K k)"
        using flow_remove_output [OF f0 ne] by blast
      show ?thesis
      proof (cases "id_of (heap (queues s)) y = current_frame s")
        case False
        then show ?thesis
          using relabel [of Master_top] True hd by (simp add: master_def Master_three)
      next
        case eq: True
        then obtain q' where q': "remove_from_output_work_queue (queues s) = Some (y, q')"
          and d': "heap_data (heap q') = ?d"
          and f': "flow_at process fs (s\<lparr>queues := q'\<rparr>) ?R ?Dn {y} ?C xs ys' P S K k"
          using rm cf by auto
        let ?s = "s\<lparr>queues := q', pc_master := Master_holds y\<rparr>"
        have "flow_at process fs ?s ?R ?Dn {y} ?C xs ys' P S K k"
          by (rule flow_at_transfer [OF f']) simp_all
        moreover have "team_ok fs n ?s ys' S K k"
          unfolding team_ok_def
        proof (intro conjI impI)
          assume "\<exists>b\<in>raw_held n (two_of \<circ> pc_worker ?s) \<union> set ys' \<union> master_held (pc_master ?s).
              terminal (heap_data (heap (queues ?s))) b"
          then obtain b where "b \<in> ?R \<union> set ys \<union> ?E" "terminal ?d b"
            by (auto simp: d' ys)
          then show "S = 0" "\<not> is_there_any_frame ?s"
            using i1 [of b] by simp_all
        qed (use ua nf cf i2 in \<open>simp_all add: sentinels_pushed_def\<close>)
        ultimately have "team_inv_at process fs n ?s xs ys' P S K k"
          using tn by (simp add: team_inv_at_def sentinels_pushed_def)
        then have "team_inv process fs n ?s"
          unfolding team_inv_def by blast
        then show ?thesis
          using True hd eq q' by (simp add: master_def Master_three)
      qed
    qed
  next
    case (Master_holds b)
    have E: "?E = {b}"
      by (simp add: Master_holds)
    have fb: "flow_at process fs s ?R ?Dn {b} ?C xs ys P S K k"
      using f by (simp add: E)
    obtain nd where nd: "heap (queues s) b = Some nd"
      using wf_queues_allocated [of "queues s" xs ys "?R \<union> ?Dn \<union> {b}" b] fb
      by (auto simp: flow_at_def flow_wf_def)
    have tb: "terminal ?d b = is_the_last_node nd"
      using nd by (rule terminal_heap_data)
    show ?thesis
    proof (cases "is_the_last_node nd")
      case True
      have "terminal ?d b"
        using tb True by simp
      from flow_sentinel_seen [OF fb this]
      have f': "flow_at process fs s ?R ?Dn {} ?C xs ys P S K k" and k: "k = length fs"
        by blast+
      have S: "S = 0 \<and> \<not> is_there_any_frame s"
        using i1 [of b] tb True by (simp add: E)
      let ?s = "s\<lparr>finished := True, pc_master := Master_top\<rparr>"
      have "flow_at process fs ?s ?R ?Dn {} ?C xs ys P S K k"
        by (rule flow_at_transfer [OF f']) simp_all
      moreover have "team_ok fs n ?s ys S K k"
        using ua nf cf k S by (simp add: team_ok_def sentinels_pushed_def)
      ultimately have "team_inv_at process fs n ?s xs ys P S K k"
        using tn by (simp add: team_inv_at_def sentinels_pushed_def)
      then have "team_inv process fs n ?s"
        unfolding team_inv_def by blast
      then show ?thesis
        using nd True by (simp add: master_def Master_holds)
    next
      case False
      obtain n' where n': "heap (queues s) b = Some n'" "frame n' = Some (process (fs ! k))"
        and k: "k < length fs"
        and f': "flow_at process fs
                (s\<lparr>oVideoWriter := oVideoWriter s @ [process (fs ! k)],
                   queues := (queues s)\<lparr>heap := (heap (queues s))(b := None)\<rparr>\<rparr>)
                ?R ?Dn {} ?C xs ys P S K (Suc k)"
        using flow_display [OF fb] tb False by auto
      have nn: "n' = nd"
        using n'(1) nd by simp
      let ?t = "s\<lparr>oVideoWriter := oVideoWriter s @ [process (fs ! k)],
        correctness := c_int_wrap (correctness s + frame_number nd),
        queues := (queues s)\<lparr>heap := (heap (queues s))(b := None)\<rparr>\<rparr>"
      let ?s = "?t\<lparr>current_frame := current_frame ?t + 1, pc_master := Master_top\<rparr>"
      have send: "send_frame_to_display_v2 b s = Some ?t"
        using nd n'(2) nn by (simp add: send_frame_to_display_v2_def)
      have nfin: "\<not> finished s"
        using i2 k by auto
      have "flow_at process fs ?s ?R ?Dn {} ?C xs ys P S K (Suc k)"
        by (rule flow_at_transfer [OF f']) simp_all
      moreover have "team_ok fs n ?s ys S K (Suc k)"
        unfolding team_ok_def
      proof (intro conjI impI)
        assume "\<exists>c\<in>raw_held n (two_of \<circ> pc_worker ?s) \<union> set ys \<union> master_held (pc_master ?s).
            terminal (heap_data (heap (queues ?s))) c"
        then obtain c where "c \<in> ?R \<union> set ys" "terminal (?d(b := None)) c"
          by (auto simp: heap_data_free)
        then have "c \<in> ?R \<union> set ys \<union> ?E" "terminal ?d c"
          by (auto simp: terminal_def split: if_splits)
        then show "S = 0" "\<not> is_there_any_frame ?s"
          using i1 [of c] by simp_all
      qed (use ua nf cf nfin in \<open>simp_all add: sentinels_pushed_def\<close>)
      ultimately have "team_inv_at process fs n ?s xs ys P S K (Suc k)"
        using tn by (simp add: team_inv_at_def sentinels_pushed_def)
      then have "team_inv process fs n ?s"
        unfolding team_inv_def by blast
      then show ?thesis
        using nd False send by (simp add: master_def Master_holds)
    qed
  next
    case Master_done
    then show ?thesis
      by (simp add: master_def)
  qed
qed

lemma worker_inv:
  assumes inv: "team_inv_at process fs n s xs ys P S K k"
  shows "worker process w s \<noteq> Crash
       \<and> (\<forall>s'. worker process w s = Next s' \<longrightarrow> team_inv process fs n s')"
proof (cases "int w < n")
  case False
  then show ?thesis
    using inv by (simp add: worker_def team_inv_at_def)
next
  case w: True
  let ?pc = "two_of \<circ> pc_worker s"
  let ?R = "raw_held n ?pc" and ?Dn = "done_held n ?pc"
  let ?E = "master_held (pc_master s)" and ?C = "sentinels_pushed s"
  let ?d = "heap_data (heap (queues s))"
  have tn: "threads_number s = n"
    and f: "flow_at process fs s ?R ?Dn ?E ?C xs ys P S K k"
    and ok: "team_ok fs n s ys S K k"
    using inv by (simp_all add: team_inv_at_def)
  have ua: "held_apart n ?pc"
    and nf: "nframes s = int K + 1 + int ?C"
    and cf: "current_frame s = int k + 1"
    and i1: "\<And>b. b \<in> ?R \<union> set ys \<union> ?E \<Longrightarrow> terminal ?d b \<Longrightarrow> S = 0 \<and> \<not> is_there_any_frame s"
    and i2: "finished s \<Longrightarrow> k = length fs \<and> S = 0 \<and> \<not> is_there_any_frame s"
    and i3: "pc_master s = Master_done \<longrightarrow> finished s"
    using ok by (auto simp: team_ok_def)
  have uniq: "\<forall>w w'. int w < n \<longrightarrow> int w' < n \<longrightarrow> w \<noteq> w' \<longrightarrow>
      holds (?pc w) = None \<or> holds (?pc w) \<noteq> holds (?pc w')"
    using ua by (simp add: held_apart_def)
  have wt: "int w < threads_number s"
    using w tn by simp
  have relabel: "team_inv process fs n (s\<lparr>is_there_any_work := v, pc_worker := (pc_worker s)(w := p)\<rparr>)"
    if "holds (two_of (pc_worker s w)) = None" "holds (two_of p) = None" for p v
  proof -
    let ?s = "s\<lparr>is_there_any_work := v, pc_worker := (pc_worker s)(w := p)\<rparr>"
    have pc': "two_of \<circ> pc_worker ?s = ?pc(w := two_of p)"
      by (simp add: two_of_upd)
    have "team_inv_at process fs n ?s xs ys P S K k"
    proof (rule team_inv_at_relabel [OF inv])
      show "raw_held n (two_of \<circ> pc_worker ?s) = ?R" "done_held n (two_of \<circ> pc_worker ?s) = ?Dn"
        unfolding pc' using held_idle [of ?pc w "two_of p" n] that by simp_all
      show "held_apart n (two_of \<circ> pc_worker ?s)"
        unfolding pc' using ua that(2) by (rule held_apart_idle)
      show "pc_master ?s = Master_done \<longrightarrow> finished s"
        using i3 by simp
    qed simp_all
    then show ?thesis
      unfolding team_inv_def by blast
  qed
  have relabel': "team_inv process fs n (s\<lparr>pc_worker := (pc_worker s)(w := p)\<rparr>)"
    if "holds (two_of (pc_worker s w)) = None" "holds (two_of p) = None" for p
    using relabel [OF that, of "is_there_any_work s"] by simp
  show ?thesis
  proof (cases "pc_worker s w")
    case Worker_top
    then show ?thesis
      using relabel' [of Worker_done] relabel' [of Worker_two] wt by (simp add: worker_def)
  next
    case Worker_two
    then show ?thesis
      using relabel' [of Worker_lock] relabel' [of Worker_top] wt by (simp add: worker_def)
  next
    case Worker_sent
    then show ?thesis
      using relabel [of Worker_top False] wt by (simp add: worker_def)
  next
    case Worker_done
    then show ?thesis
      using wt by (simp add: worker_def)
  next
    case Worker_lock
    have pw: "?pc w = Two_wait"
      by (simp add: Worker_lock)
    show ?thesis
    proof (cases "size_input_work_queue (queues s) > 0")
      case False
      then show ?thesis
        using relabel' [of Worker_top] wt by (simp add: worker_def Worker_lock)
    next
      case True
      then have ne: "size_input_work_queue (queues s) \<noteq> 0"
        by simp
      obtain x q' xs' where q': "remove_from_input_work_queue (queues s) = Some (x, q')"
        and xs: "xs = x # xs'" and x: "x \<notin> ?R \<union> ?Dn \<union> ?E"
        and d': "heap_data (heap q') = ?d"
        and alt: "(P < K \<and> heap_data (heap q') x = Some (raw_item fs P)
                 \<and> flow_at process fs (s\<lparr>queues := q', dequeued := dequeued s @ dequeue_entry w q' x\<rparr>)
                      (insert x ?R) ?Dn ?E ?C xs' ys (Suc P) S K k)
               \<or> (P = K \<and> 0 < S \<and> heap_data (heap q') x = Some (sentinel_item fs)
                 \<and> flow_at process fs (s\<lparr>queues := q', dequeued := dequeued s @ dequeue_entry w q' x\<rparr>)
                      (insert x ?R) ?Dn ?E ?C xs' ys P (S - 1) K k)"
        using flow_pop [OF f ne, of w] by blast
      let ?s = "s\<lparr>queues := q', dequeued := dequeued s @ dequeue_entry w q' x,
        pc_worker := (pc_worker s)(w := Worker_holds x)\<rparr>"
      have pc': "two_of \<circ> pc_worker ?s = ?pc(w := Two_holds x)"
        by (simp add: two_of_upd)
      have held: "raw_held n (two_of \<circ> pc_worker ?s) = insert x ?R"
        "done_held n (two_of \<circ> pc_worker ?s) = ?Dn"
        unfolding pc' using raw_held_take [where pc = ?pc, OF w pw] by simp_all
      have ua': "held_apart n (two_of \<circ> pc_worker ?s)"
        unfolding pc' using ua x by (intro held_apart_take) auto
      have SC: "S \<le> ?C"
        using f by (simp add: flow_at_def flow_input_def)
      obtain P' S' where f': "flow_at process fs
            (s\<lparr>queues := q', dequeued := dequeued s @ dequeue_entry w q' x\<rparr>)
            (insert x ?R) ?Dn ?E ?C xs' ys P' S' K k"
        and S': "S' = S \<and> \<not> terminal ?d x \<or> S' = 0 \<and> \<not> is_there_any_frame s"
        using alt
      proof
        assume a: "P < K \<and> heap_data (heap q') x = Some (raw_item fs P)
                 \<and> flow_at process fs (s\<lparr>queues := q', dequeued := dequeued s @ dequeue_entry w q' x\<rparr>)
                      (insert x ?R) ?Dn ?E ?C xs' ys (Suc P) S K k"
        then have "\<not> terminal ?d x"
          using d' by (simp add: terminal_def raw_item_def)
        then show ?thesis
          using that a by blast
      next
        assume a: "P = K \<and> 0 < S \<and> heap_data (heap q') x = Some (sentinel_item fs)
                 \<and> flow_at process fs (s\<lparr>queues := q', dequeued := dequeued s @ dequeue_entry w q' x\<rparr>)
                      (insert x ?R) ?Dn ?E ?C xs' ys P (S - 1) K k"
        then have "S - 1 = 0 \<and> \<not> is_there_any_frame s"
          using SC by (auto simp: sentinels_pushed_def split: if_splits)
        then show ?thesis
          using that a by blast
      qed
      have "flow_at process fs ?s (raw_held n (two_of \<circ> pc_worker ?s))
          (done_held n (two_of \<circ> pc_worker ?s)) ?E ?C xs' ys P' S' K k"
        unfolding held by (rule flow_at_transfer [OF f']) simp_all
      moreover have "team_ok fs n ?s ys S' K k"
        unfolding team_ok_def
      proof (intro conjI impI)
        assume "\<exists>b\<in>raw_held n (two_of \<circ> pc_worker ?s) \<union> set ys \<union> master_held (pc_master ?s).
            terminal (heap_data (heap (queues ?s))) b"
        then obtain b where b: "b \<in> insert x ?R \<union> set ys \<union> ?E" "terminal ?d b"
          unfolding held by (auto simp: d')
        show "S' = 0"
          using S' b i1 [of b] by auto
        show "\<not> is_there_any_frame ?s"
          using S' b i1 [of b] by auto
      next
        assume "finished ?s"
        then show "S' = 0"
          using i2 S' by auto
      qed (use ua' nf cf i2 i3 in \<open>simp_all add: sentinels_pushed_def\<close>)
      ultimately have "team_inv_at process fs n ?s xs' ys P' S' K k"
        using tn by (simp add: team_inv_at_def sentinels_pushed_def)
      then have "team_inv process fs n ?s"
        unfolding team_inv_def by blast
      then show ?thesis
        using wt True q' by (simp add: worker_def Worker_lock)
    qed
  next
    case (Worker_holds a)
    have pw: "?pc w = Two_holds a"
      by (simp add: Worker_holds)
    have aR: "a \<in> ?R"
      using w pw by (auto simp: raw_held_def)
    obtain nd where nd: "heap (queues s) a = Some nd"
      using wf_queues_allocated [of "queues s" xs ys "?R \<union> ?Dn \<union> ?E" a] f aR
      by (auto simp: flow_at_def flow_wf_def)
    have ta: "terminal ?d a = is_the_last_node nd"
      using nd by (rule terminal_heap_data)
    have hw: "holds (?pc w) = Some a"
      using pw by simp
    show ?thesis
    proof (cases "is_the_last_node nd")
      case True
      obtain q' where q': "add_to_output_work_queue a (queues s) = Some q'"
        and d': "heap_data (heap q') = ?d"
        and f': "flow_at process fs (s\<lparr>queues := q'\<rparr>) (?R - {a}) (?Dn - {a}) ?E ?C xs
                (insort_key (id_of (heap (queues s))) a ys) P S K k"
        using flow_add_output [OF f, of a] aR ta True by blast
      let ?s = "s\<lparr>queues := q', pc_worker := (pc_worker s)(w := Worker_sent)\<rparr>"
      let ?ys = "insort_key (id_of (heap (queues s))) a ys"
      have pc': "two_of \<circ> pc_worker ?s = ?pc(w := Two_wait)"
        by (simp add: two_of_upd)
      have held: "raw_held n (two_of \<circ> pc_worker ?s) = ?R - {a}"
        "done_held n (two_of \<circ> pc_worker ?s) = ?Dn - {a}"
        unfolding pc'
        using raw_held_release [where pc = ?pc and p = Two_wait, OF uniq w hw] by simp_all
      have ua': "held_apart n (two_of \<circ> pc_worker ?s)"
        unfolding pc' using ua by (rule held_apart_idle) simp
      have "flow_at process fs ?s (raw_held n (two_of \<circ> pc_worker ?s))
          (done_held n (two_of \<circ> pc_worker ?s)) ?E ?C xs ?ys P S K k"
        unfolding held by (rule flow_at_transfer [OF f']) simp_all
      moreover have "team_ok fs n ?s ?ys S K k"
        unfolding team_ok_def
      proof (intro conjI impI)
        assume "\<exists>b\<in>raw_held n (two_of \<circ> pc_worker ?s) \<union> set ?ys \<union> master_held (pc_master ?s).
            terminal (heap_data (heap (queues ?s))) b"
        then obtain b where b: "b \<in> ?R \<union> set ys \<union> ?E" "terminal ?d b"
          unfolding held using aR by (auto simp: d' set_insort_key)
        show "S = 0" "\<not> is_there_any_frame ?s"
          using b i1 [of b] by auto
      qed (use ua' nf cf i2 i3 in \<open>simp_all add: sentinels_pushed_def\<close>)
      ultimately have "team_inv_at process fs n ?s xs ?ys P S K k"
        using tn by (simp add: team_inv_at_def sentinels_pushed_def)
      then have "team_inv process fs n ?s"
        unfolding team_inv_def by blast
      then show ?thesis
        using wt nd True q' by (simp add: worker_def Worker_holds)
    next
      case False
      obtain q' where q': "process_frame process a (queues s) = Some q'"
        and t': "\<forall>b. terminal (heap_data (heap q')) b = terminal ?d b"
        and f': "flow_at process fs
                (s\<lparr>queues := q', transformed := transformed s @ [id_of (heap (queues s)) a]\<rparr>)
                (?R - {a}) (insert a ?Dn) ?E ?C xs ys P S K k"
        using flow_process [OF f aR] ta False by blast
      let ?s = "s\<lparr>queues := q', transformed := transformed s @ [frame_number nd],
        pc_worker := (pc_worker s)(w := Worker_processed a)\<rparr>"
      have pc': "two_of \<circ> pc_worker ?s = ?pc(w := Two_processed a)"
        by (simp add: two_of_upd)
      have held: "raw_held n (two_of \<circ> pc_worker ?s) = ?R - {a}"
        "done_held n (two_of \<circ> pc_worker ?s) = insert a ?Dn"
        unfolding pc' using raw_held_processed [where pc = ?pc, OF uniq w pw] by simp_all
      have ua': "held_apart n (two_of \<circ> pc_worker ?s)"
        unfolding pc' using ua by (rule held_apart_same) (use pw in simp)
      have "flow_at process fs ?s (raw_held n (two_of \<circ> pc_worker ?s))
          (done_held n (two_of \<circ> pc_worker ?s)) ?E ?C xs ys P S K k"
        unfolding held by (rule flow_at_transfer [OF f']) (simp_all add: nd id_of_def)
      moreover have "team_ok fs n ?s ys S K k"
        unfolding team_ok_def
      proof (intro conjI impI)
        assume "\<exists>b\<in>raw_held n (two_of \<circ> pc_worker ?s) \<union> set ys \<union> master_held (pc_master ?s).
            terminal (heap_data (heap (queues ?s))) b"
        then obtain b where b: "b \<in> ?R \<union> set ys \<union> ?E" "terminal ?d b"
          unfolding held using t' by auto
        show "S = 0" "\<not> is_there_any_frame ?s"
          using b i1 [of b] by auto
      qed (use ua' nf cf i2 i3 in \<open>simp_all add: sentinels_pushed_def\<close>)
      ultimately have "team_inv_at process fs n ?s xs ys P S K k"
        using tn by (simp add: team_inv_at_def sentinels_pushed_def)
      then have "team_inv process fs n ?s"
        unfolding team_inv_def by blast
      then show ?thesis
        using wt nd False q' by (simp add: worker_def Worker_holds)
    qed
  next
    case (Worker_processed a)
    have pw: "?pc w = Two_processed a"
      by (simp add: Worker_processed)
    have aD: "a \<in> ?Dn"
      using w pw by (auto simp: done_held_def)
    have hw: "holds (?pc w) = Some a"
      using pw by simp
    have nta: "\<not> terminal ?d a"
      using f aD by (simp add: flow_at_def flow_nodes_def)
    obtain q' where q': "add_to_output_work_queue a (queues s) = Some q'"
      and d': "heap_data (heap q') = ?d"
      and f': "flow_at process fs (s\<lparr>queues := q'\<rparr>) (?R - {a}) (?Dn - {a}) ?E ?C xs
              (insort_key (id_of (heap (queues s))) a ys) P S K k"
      using flow_add_output [OF f, of a] aD by blast
    let ?s = "s\<lparr>queues := q', pc_worker := (pc_worker s)(w := Worker_top)\<rparr>"
    let ?ys = "insort_key (id_of (heap (queues s))) a ys"
    have pc': "two_of \<circ> pc_worker ?s = ?pc(w := Two_wait)"
      by (simp add: two_of_upd)
    have held: "raw_held n (two_of \<circ> pc_worker ?s) = ?R - {a}"
      "done_held n (two_of \<circ> pc_worker ?s) = ?Dn - {a}"
      unfolding pc'
      using raw_held_release [where pc = ?pc and p = Two_wait, OF uniq w hw] by simp_all
    have ua': "held_apart n (two_of \<circ> pc_worker ?s)"
      unfolding pc' using ua by (rule held_apart_idle) simp
    have "flow_at process fs ?s (raw_held n (two_of \<circ> pc_worker ?s))
        (done_held n (two_of \<circ> pc_worker ?s)) ?E ?C xs ?ys P S K k"
      unfolding held by (rule flow_at_transfer [OF f']) simp_all
    moreover have "team_ok fs n ?s ?ys S K k"
      unfolding team_ok_def
    proof (intro conjI impI)
      assume "\<exists>b\<in>raw_held n (two_of \<circ> pc_worker ?s) \<union> set ?ys \<union> master_held (pc_master ?s).
          terminal (heap_data (heap (queues ?s))) b"
      then obtain b where b: "b \<in> ?R \<union> set ys \<union> ?E" "terminal ?d b"
        unfolding held using nta by (auto simp: d' set_insort_key)
      show "S = 0" "\<not> is_there_any_frame ?s"
        using b i1 [of b] by auto
    qed (use ua' nf cf i2 i3 in \<open>simp_all add: sentinels_pushed_def\<close>)
    ultimately have "team_inv_at process fs n ?s xs ?ys P S K k"
      using tn by (simp add: team_inv_at_def sentinels_pushed_def)
    then have "team_inv process fs n ?s"
      unfolding team_inv_def by blast
    then show ?thesis
      using wt q' by (simp add: worker_def Worker_processed)
  qed
qed

lemma team_step_inv:
  assumes "team_inv process fs n s"
  shows "team_step process l s \<noteq> Crash
       \<and> (\<forall>s'. team_step process l s = Next s' \<longrightarrow> team_inv process fs n s')"
proof -
  obtain xs ys P S K k where "team_inv_at process fs n s xs ys P S K k"
    using assms unfolding team_inv_def by blast
  then show ?thesis
    using master_inv [of process fs n s xs ys P S K k] worker_inv [of process fs n s xs ys P S K k]
    by (cases l) simp_all
qed

lemma team_run_inv:
  assumes "team_inv process fs n s"
  shows "team_run process ls s \<noteq> Crash
       \<and> (\<forall>s'. team_run process ls s = Next s' \<longrightarrow> team_inv process fs n s')"
  using assms
proof (induction ls arbitrary: s)
  case Nil
  then show ?case by simp
next
  case (Cons l ls)
  show ?case
  proof (cases "team_step process l s")
    case Blocked
    then show ?thesis by simp
  next
    case Crash
    then show ?thesis
      using team_step_inv [OF Cons.prems, of l] by simp
  next
    case (Next s1)
    then have "team_inv process fs n s1"
      using team_step_inv [OF Cons.prems, of l] by simp
    then show ?thesis
      using Cons.IH [of s1] Next by simp
  qed
qed


lemma team_safe_facts:
  assumes inv: "team_inv process fs n s"
  shows "\<exists>k\<le>length fs. oVideoWriter s = map process (take k fs)"
    and "\<forall>a x. heap_data (heap (queues s)) a = Some x \<longrightarrow> (fst x = None) = snd (snd x)"
    and "length (filter snd (enqueued s)) \<le> 1"
    and "length (filter (\<lambda>e. snd (snd e)) (dequeued s)) \<le> length (filter snd (enqueued s))"
proof -
  obtain xs ys P S K k where at: "team_inv_at process fs n s xs ys P S K k"
    using inv unfolding team_inv_def by blast
  then have f: "flow_at process fs s (raw_held n (two_of \<circ> pc_worker s))
      (done_held n (two_of \<circ> pc_worker s)) (master_held (pc_master s))
      (sentinels_pushed s) xs ys P S K k"
    by (simp add: team_inv_at_def)
  have "k \<le> length fs"
    using f by (simp add: flow_at_def flow_frames_def flow_input_def)
  then show "\<exists>k\<le>length fs. oVideoWriter s = map process (take k fs)"
    using f by (auto simp: flow_at_def)
  show "\<forall>a x. heap_data (heap (queues s)) a = Some x \<longrightarrow> (fst x = None) = snd (snd x)"
    using f by (simp add: flow_at_def flow_payload_def)
  have st: "flow_sent fs (enqueued s) K (sentinels_pushed s)"
    and lg: "flow_log fs (dequeued s) P S (sentinels_pushed s)"
    using f by (simp_all add: flow_at_def)
  have e: "length (filter snd (enqueued s)) = sentinels_pushed s"
    using st by (simp add: flow_sent_def filter_map comp_def)
  show "length (filter snd (enqueued s)) \<le> 1"
    unfolding e by (simp add: sentinels_pushed_def)
  show "length (filter (\<lambda>e. snd (snd e)) (dequeued s)) \<le> length (filter snd (enqueued s))"
    unfolding e flow_log_sentinels [OF lg] by simp
qed

lemma payload_of_heap_data:
  assumes "\<forall>a x. heap_data h a = Some x \<longrightarrow> (fst x = None) = snd (snd x)"
  shows "\<forall>a nd. h a = Some nd \<longrightarrow> (frame nd = None) = is_the_last_node nd"
proof (intro allI impI)
  fix a nd
  assume "h a = Some nd"
  then have "heap_data h a = Some (node_data nd)"
    by (simp add: heap_data_def)
  then show "(frame nd = None) = is_the_last_node nd"
    using assms by (fastforce simp: node_data_def)
qed






section \<open>What both pipelines deliver\<close>







text \<open>
  Claim C7. A node holds a frame if and only if it is not a sentinel. In every state that
  the three stages of \<^verbatim>\<open>lane_detection_openmp.cpp\<close> or the team of
  \<^verbatim>\<open>lane_detection_openmp_v2.cpp\<close> reach, from any source and with any number of workers
  (small enough for the variables of type \<^verbatim>\<open>int\<close>), every allocated node has
  \<open>frame = NULL\<close> exactly if its \<open>is_the_last_node\<close> is set: the nodes are created
  that way and nothing done to a node changes it. In particular \<^verbatim>\<open>process_frame\<close>,
  the one function that writes a frame, leaves the flag of every node as it is and leaves
  a frame where there was one.
\<close>

theorem frame_iff_not_last_node:
  assumes "int (length fs) + max n 1 < 2147483647"
  shows "(\<forall>s. stages_run process ls (stages_init fs n) = Next s \<longrightarrow>
            (\<forall>a nd. heap (queues s) a = Some nd \<longrightarrow> (frame nd = None) = is_the_last_node nd))
       \<and> (\<forall>t. team_run process ms (team_init fs n) = Next t \<longrightarrow>
            (\<forall>a nd. heap (queues t) a = Some nd \<longrightarrow> (frame nd = None) = is_the_last_node nd))
       \<and> (\<forall>q q' b a nd'. process_frame process b q = Some q' \<and> heap q' a = Some nd' \<longrightarrow>
            (\<exists>nd. heap q a = Some nd \<and> is_the_last_node nd' = is_the_last_node nd
               \<and> (frame nd' = None) = (frame nd = None)))"
proof -
  have 1: "\<forall>a nd. heap (queues s) a = Some nd \<longrightarrow> (frame nd = None) = is_the_last_node nd"
    if run: "stages_run process ls (stages_init fs n) = Next s" for s
  proof -
    have "stages_inv process fs n s"
      using stages_run_inv [OF stages_inv_init [of process fs n], of ls] run by blast
    then show ?thesis
      using stages_safe_facts(2) by (intro payload_of_heap_data) blast
  qed
  have 2: "\<forall>a nd. heap (queues t) a = Some nd \<longrightarrow> (frame nd = None) = is_the_last_node nd"
    if run: "team_run process ms (team_init fs n) = Next t" for t
  proof -
    have "team_inv process fs n t"
      using team_run_inv [OF team_inv_init [of process fs n], of ms] run by blast
    then show ?thesis
      using team_safe_facts(2) by (intro payload_of_heap_data) blast
  qed
  have 3: "\<exists>nd. heap q a = Some nd \<and> is_the_last_node nd' = is_the_last_node nd
      \<and> (frame nd' = None) = (frame nd = None)"
    if "process_frame process b q = Some q' \<and> heap q' a = Some nd'"
    for q q' :: "'a queues" and b a nd'
    using that by (auto simp: process_frame_def split: option.splits if_splits)
  show ?thesis
    using 1 2 3 by blast
qed

theorem frame_iff_not_last_node_witness:
  "(\<exists>s nd nd'. stages_run uminus (take 15 example_schedule) (stages_init [10, 20 :: int] 2) = Next s
      \<and> heap (queues s) 1 = Some nd \<and> frame nd = Some (- 20) \<and> \<not> is_the_last_node nd
      \<and> heap (queues s) 2 = Some nd' \<and> frame nd' = None \<and> is_the_last_node nd')
   \<and> (\<exists>t nd nd'. team_run uminus (take 8 team_schedule) (team_init [10, 20 :: int] 2) = Next t
      \<and> heap (queues t) 0 = Some nd \<and> frame nd = Some 10 \<and> \<not> is_the_last_node nd
      \<and> heap (queues t) 2 = Some nd' \<and> frame nd' = None \<and> is_the_last_node nd')"
proof -
  have "case stages_run uminus (take 15 example_schedule) (stages_init [10, 20 :: int] 2) of
      Next s \<Rightarrow> map_option frame (heap (queues s) 1) = Some (Some (- 20))
        \<and> map_option frame (heap (queues s) 2) = Some None
    | _ \<Rightarrow> False"
    unfolding example_schedule_def by code_simp
  then obtain s nd nd' where run: "stages_run uminus (take 15 example_schedule) (stages_init [10, 20 :: int] 2) = Next s"
    and nd: "heap (queues s) 1 = Some nd" "frame nd = Some (- 20)"
      "heap (queues s) 2 = Some nd'" "frame nd' = None"
    by (auto split: step_result.splits)
  have "case team_run uminus (take 8 team_schedule) (team_init [10, 20 :: int] 2) of
      Next t \<Rightarrow> map_option frame (heap (queues t) 0) = Some (Some 10)
        \<and> map_option frame (heap (queues t) 2) = Some None
    | _ \<Rightarrow> False"
    unfolding team_schedule_def by code_simp
  then obtain t md md' where trun: "team_run uminus (take 8 team_schedule) (team_init [10, 20 :: int] 2) = Next t"
    and md: "heap (queues t) 0 = Some md" "frame md = Some 10"
      "heap (queues t) 2 = Some md'" "frame md' = None"
    by (auto split: step_result.splits)
  have h: "int (length [10, 20 :: int]) + max 2 1 < 2147483647"
    by simp
  note inst = frame_iff_not_last_node [OF h, of uminus "take 15 example_schedule"
      "take 8 team_schedule"]
  have "\<not> is_the_last_node nd \<and> is_the_last_node nd'"
    using inst run nd by (metis option.distinct(1))
  moreover have "\<not> is_the_last_node md \<and> is_the_last_node md'"
    using inst trun md by (metis option.distinct(1))
  ultimately show ?thesis
    using run nd trun md by blast
qed

end
